(* ===== verification/Base.thy ===== *)
theory Base
  imports Main "HOL-Library.Word" "HOL-Library.Monad_Syntax" "HOL-Library.Signed_Division"
begin

text \<open>
  The prelude of the development: the machine types of the i686 target, C's \<open>int\<close>
  arithmetic, the status codes of \<open>src/status.h\<close>, the constants of \<open>src/config.h\<close>, and
  byte buffers whose accesses outside the object have no result.

  Conventions. An unsigned C integer is a word of its width and its arithmetic wraps. A C
  \<open>int\<close> is an \<open>int\<close> of HOL brought back into the 32-bit range by \<open>i32\<close> wherever the code
  can leave it; that is what the code compiled with \<open>-O0\<close> (see \<open>Makefile\<close>) does.
  A C function that may fail to return (a null or wild access, a division by zero, an
  endless loop) has a result in \<open>option\<close>, with \<open>None\<close> for those runs; every status code
  the source returns is an ordinary value.
\<close>

unbundle bit_operations_syntax

section \<open>Machine types\<close>

type_synonym u8 = "8 word"
type_synonym u16 = "16 word"
type_synonym u32 = "32 word"

named_theorems bounds "facts that keep a C int in its range"

definition i32 :: "int \<Rightarrow> int" where
  "i32 x = (x + 2147483648) mod 4294967296 - 2147483648"

lemma i32_id [bounds]: "- 2147483648 \<le> x \<Longrightarrow> x < 2147483648 \<Longrightarrow> i32 x = x"
  by (simp add: i32_def)

lemma i32_range: "- 2147483648 \<le> i32 x" "i32 x < 2147483648"
  by (simp_all add: i32_def)

lemma i32_i32 [simp]: "i32 (i32 x) = i32 x"
  by (rule i32_id [OF i32_range])

text \<open>The conversion of a \<open>uint32_t\<close> to \<open>int\<close>.\<close>

definition to_int :: "u32 \<Rightarrow> int" where
  "to_int w = i32 (uint w)"

lemma uint32_bound: "uint (w :: u32) < 4294967296"
  using uint_lt2p [of w] by simp

lemma unat32_bound: "unat (w :: u32) < 4294967296"
  using unsigned_less [of w, where 'a = nat] by simp

lemma uint16_bound: "uint (w :: u16) < 65536"
  using uint_lt2p [of w] by simp

lemma uint8_bound: "uint (w :: u8) < 256"
  using uint_lt2p [of w] by simp

lemmas word_bounds = uint32_bound unat32_bound uint16_bound uint8_bound

lemma to_int_small [bounds]: "unat w < 2147483648 \<Longrightarrow> to_int w = int (unat w)"
proof -
  assume "unat w < 2147483648"
  then have "int (unat w) < 2147483648" by linarith
  moreover have "- 2147483648 \<le> uint w" using uint_ge_0 [of w] by linarith
  ultimately show ?thesis using i32_id [of "uint w"] by (simp add: to_int_def)
qed

lemma uint_of_int_small: "0 \<le> x \<Longrightarrow> x < 4294967296 \<Longrightarrow> uint (word_of_int x :: u32) = x"
  by (simp add: uint_word_of_int_eq take_bit_int_eq_self)

lemma unat_of_int_small: "0 \<le> x \<Longrightarrow> x < 4294967296 \<Longrightarrow> unat (word_of_int x :: u32) = nat x"
  unfolding unat_eq_nat_uint by (simp only: uint_of_int_small)

lemma to_int_of_int [bounds]: "0 \<le> x \<Longrightarrow> x < 2147483648 \<Longrightarrow> to_int (word_of_int x) = x"
  by (simp add: to_int_def uint_of_int_small i32_id)

lemma unat_of_nat_small: "n < 4294967296 \<Longrightarrow> unat (of_nat n :: u32) = n"
  using unat_of_int_small [of "int n"] by simp

text \<open>C's truncating division and remainder; a zero divisor has no result.\<close>

definition c_div :: "int \<Rightarrow> int \<Rightarrow> int option" where
  "c_div a b = (if b = 0 then None else Some (i32 (a sdiv b)))"

definition c_mod :: "int \<Rightarrow> int \<Rightarrow> int option" where
  "c_mod a b = (if b = 0 then None else Some (a smod b))"

lemma c_div_pos: "0 \<le> a \<Longrightarrow> a < 2147483648 \<Longrightarrow> 0 < b \<Longrightarrow> c_div a b = Some (a div b)"
proof -
  assume h: "0 \<le> a" "a < 2147483648" "0 < b"
  then have "a sdiv b = a div b"
    by (cases "a = 0") (simp_all add: signed_divide_int_def)
  moreover have "a div b \<le> a" "0 \<le> a div b"
    using h zdiv_mono2 [of a 1 b] by (simp_all add: pos_imp_zdiv_nonneg_iff)
  ultimately show ?thesis using h by (simp add: c_div_def i32_id)
qed

lemma c_mod_pos: "0 \<le> a \<Longrightarrow> 0 < b \<Longrightarrow> c_mod a b = Some (a mod b)"
  by (cases "a = 0") (simp_all add: c_mod_def signed_modulo_int_def)

section \<open>Status codes and configuration\<close>

abbreviation (input) SAMOS_ALL_OK :: int where "SAMOS_ALL_OK \<equiv> 0"
abbreviation (input) EIO :: int where "EIO \<equiv> 1"
abbreviation (input) EINVARG :: int where "EINVARG \<equiv> 2"
abbreviation (input) ENOMEM :: int where "ENOMEM \<equiv> 3"
abbreviation (input) EBADPATH :: int where "EBADPATH \<equiv> 4"
abbreviation (input) EFSNOTUS :: int where "EFSNOTUS \<equiv> 5"
abbreviation (input) ERDONLY :: int where "ERDONLY \<equiv> 6"
abbreviation (input) EUNIMP :: int where "EUNIMP \<equiv> 7"

abbreviation (input) SAMOS_HEAP_SIZE_BYTES :: int where "SAMOS_HEAP_SIZE_BYTES \<equiv> 104857600"
abbreviation (input) SAMOS_HEAP_BLOCK_SIZE :: u32 where "SAMOS_HEAP_BLOCK_SIZE \<equiv> 4096"
abbreviation (input) SAMOS_HEAP_START_ADDR :: u32 where "SAMOS_HEAP_START_ADDR \<equiv> 0x01000000"
abbreviation (input) SAMOS_SECTOR_SIZE :: int where "SAMOS_SECTOR_SIZE \<equiv> 512"
abbreviation (input) SAMOS_MAX_FILESYSTEMS :: nat where "SAMOS_MAX_FILESYSTEMS \<equiv> 12"
abbreviation (input) SAMOS_MAX_FILE_DESCRIPTORS :: nat where "SAMOS_MAX_FILE_DESCRIPTORS \<equiv> 512"
abbreviation (input) SAMOS_MAX_PATH :: int where "SAMOS_MAX_PATH \<equiv> 108"

section \<open>Buffers\<close>

text \<open>An array object: reads and writes outside it have no result.\<close>

definition at_idx :: "'a list \<Rightarrow> nat \<Rightarrow> 'a option" where
  "at_idx xs i = (if i < length xs then Some (xs ! i) else None)"

definition put_idx :: "'a list \<Rightarrow> nat \<Rightarrow> 'a \<Rightarrow> 'a list option" where
  "put_idx xs i v = (if i < length xs then Some (xs[i := v]) else None)"

named_theorems buf "reads and writes of buffers"

lemma at_idx_Some [buf]: "i < length xs \<Longrightarrow> at_idx xs i = Some (xs ! i)"
  by (simp add: at_idx_def)

lemma at_idx_0: "xs \<noteq> [] \<Longrightarrow> at_idx xs 0 = Some (hd xs)"
  by (simp add: at_idx_def hd_conv_nth)

lemma at_idx_iff: "at_idx xs i = Some v \<longleftrightarrow> i < length xs \<and> v = xs ! i"
  by (auto simp: at_idx_def)

lemma put_idx_Some [buf]: "i < length xs \<Longrightarrow> put_idx xs i v = Some (xs[i := v])"
  by (simp add: put_idx_def)

lemma put_idx_iff: "put_idx xs i v = Some ys \<longleftrightarrow> i < length xs \<and> ys = xs[i := v]"
  by (auto simp: put_idx_def)

text \<open>The indices an \<open>int\<close> subscript reaches: a negative subscript lies outside the object.\<close>

definition at_int :: "'a list \<Rightarrow> int \<Rightarrow> 'a option" where
  "at_int xs i = (if i < 0 then None else at_idx xs (nat i))"

lemma at_int_Some [buf]: "0 \<le> i \<Longrightarrow> i < int (length xs) \<Longrightarrow> at_int xs i = Some (xs ! nat i)"
  by (simp add: at_int_def at_idx_def nat_less_iff)

definition put_int :: "'a list \<Rightarrow> int \<Rightarrow> 'a \<Rightarrow> 'a list option" where
  "put_int xs i v = (if i < 0 then None else put_idx xs (nat i) v)"

lemma put_int_Some [buf]: "0 \<le> i \<Longrightarrow> i < int (length xs) \<Longrightarrow> put_int xs i v = Some (xs[nat i := v])"
  by (simp add: put_int_def put_idx_def nat_less_iff)

text \<open>Little-endian fields of on-disk structures.\<close>

definition le16 :: "u8 \<Rightarrow> u8 \<Rightarrow> u16" where
  "le16 b0 b1 = ucast b0 OR push_bit 8 (ucast b1)"

definition le32 :: "u8 \<Rightarrow> u8 \<Rightarrow> u8 \<Rightarrow> u8 \<Rightarrow> u32" where
  "le32 b0 b1 b2 b3 =
     ucast b0 OR push_bit 8 (ucast b1) OR push_bit 16 (ucast b2) OR push_bit 24 (ucast b3)"

lemma option_bind_Some_iff:
  "Option.bind m f = Some y \<longleftrightarrow> (\<exists>x. m = Some x \<and> f x = Some y)"
  by (cases m) auto

end
