(* ===== verification/Memory_Ops.thy ===== *)
theory Memory_Ops
  imports Base
begin

text \<open>
  \<open>src/memory/memory.c\<close>: \<open>memset\<close>, \<open>memcpy\<close> and \<open>memcmp\<close> over byte buffers. A pointer to
  a buffer is \<open>Some bytes\<close>, the null pointer is \<open>None\<close>; the buffers of one call are
  distinct objects, as they are at every call of the source.
\<close>

section \<open>Operations\<close>

fun memset_loop :: "u8 list \<Rightarrow> u8 \<Rightarrow> nat \<Rightarrow> nat \<Rightarrow> u8 list option" where
  "memset_loop b c i 0 = Some b"
| "memset_loop b c i (Suc k) = do { b' \<leftarrow> put_idx b i c; memset_loop b' c (Suc i) k }"

definition memset :: "u8 list option \<Rightarrow> int \<Rightarrow> u32 \<Rightarrow> u8 list option option" where
  "memset ptr c n = (case ptr of None \<Rightarrow> Some None
     | Some b \<Rightarrow> map_option Some (memset_loop b (word_of_int c) 0 (unat n)))"

fun memcpy_loop :: "u8 list \<Rightarrow> u8 list \<Rightarrow> nat \<Rightarrow> nat \<Rightarrow> u8 list option" where
  "memcpy_loop d s i 0 = Some d"
| "memcpy_loop d s i (Suc k) =
     do { c \<leftarrow> at_idx s i; d' \<leftarrow> put_idx d i c; memcpy_loop d' s (Suc i) k }"

definition memcpy :: "u8 list option \<Rightarrow> u8 list option \<Rightarrow> int \<Rightarrow> (int \<times> u8 list option) option" where
  "memcpy dest src bytes = (case (dest, src) of
       (Some d, Some s) \<Rightarrow> do { d' \<leftarrow> memcpy_loop d s 0 (nat bytes); Some (0, Some d') }
     | _ \<Rightarrow> Some (- EINVARG, dest))"

fun memcmp_loop :: "u8 list \<Rightarrow> u8 list \<Rightarrow> nat \<Rightarrow> nat \<Rightarrow> int option" where
  "memcmp_loop a b i 0 = Some 0"
| "memcmp_loop a b i (Suc k) =
     do { x \<leftarrow> at_idx a i; y \<leftarrow> at_idx b i;
          if x \<noteq> y then Some (if sint x < sint y then -1 else 1) else memcmp_loop a b (Suc i) k }"

definition memcmp :: "u8 list option \<Rightarrow> u8 list option \<Rightarrow> int \<Rightarrow> int option" where
  "memcmp src str len = (case (src, str) of
       (Some a, Some b) \<Rightarrow> memcmp_loop a b 0 (nat len)
     | _ \<Rightarrow> Some (- EINVARG))"

section \<open>What the loops compute\<close>

lemma memset_loop_fill:
  "i + k \<le> length b \<Longrightarrow>
   memset_loop b c i k = Some (take i b @ replicate k c @ drop (i + k) b)"
proof (induction k arbitrary: b i)
  case 0
  then show ?case by simp
next
  case (Suc k)
  then have "memset_loop b c i (Suc k) =
      Some (take (Suc i) (b[i := c]) @ replicate k c @ drop (Suc i + k) (b[i := c]))"
    by (simp add: buf)
  with Suc.prems show ?case by (simp add: take_Suc_conv_app_nth)
qed

lemma memcpy_loop_copy:
  "i + k \<le> length d \<Longrightarrow> i + k \<le> length s \<Longrightarrow>
   memcpy_loop d s i k = Some (take i d @ take k (drop i s) @ drop (i + k) d)"
proof (induction k arbitrary: d i)
  case 0
  then show ?case by simp
next
  case (Suc k)
  then have "memcpy_loop d s i (Suc k) =
      Some (take (Suc i) (d[i := s ! i]) @ take k (drop (Suc i) s) @ drop (Suc i + k) (d[i := s ! i]))"
    by (simp add: buf)
  moreover have "take (Suc k) (drop i s) = s ! i # take k (drop (Suc i) s)"
    using Suc.prems by (simp flip: Cons_nth_drop_Suc)
  ultimately show ?case
    using Suc.prems by (simp add: take_Suc_conv_app_nth)
qed

lemma memcmp_loop_zero:
  "i + k \<le> length a \<Longrightarrow> i + k \<le> length b \<Longrightarrow>
   \<exists>r. memcmp_loop a b i k = Some r \<and> (r = 0 \<longleftrightarrow> take k (drop i a) = take k (drop i b))"
proof (induction k arbitrary: i)
  case 0
  then show ?case by simp
next
  case (Suc k)
  then have i: "i < length a" "i < length b" by auto
  then have "take (Suc k) (drop i a) = a ! i # take k (drop (Suc i) a)"
    "take (Suc k) (drop i b) = b ! i # take k (drop (Suc i) b)"
    by (simp_all flip: Cons_nth_drop_Suc)
  with Suc.IH [of "Suc i"] Suc.prems i show ?case
    by (auto simp: buf)
qed

text \<open>
  Within the buffer, \<open>memset\<close> overwrites exactly the first \<open>size\<close> bytes with the low
  byte of \<open>c\<close>, and leaves the rest of the buffer as it was.
\<close>

theorem memset_fills:
  assumes "unat n \<le> length b"
  shows "memset (Some b) c n = Some (Some (replicate (unat n) (word_of_int c) @ drop (unat n) b))"
  using assms by (simp add: memset_def memset_loop_fill)

theorem memset_fills_witness:
  "memset (Some [1, 2, 3]) 256 2 = Some (Some [0, 0, 3])"
  proof -
  have two: "unat (2 :: u32) = Suc (Suc 0)" and zero: "(256 :: u8) = 0" by simp_all
  show ?thesis using memset_fills [of 2 "[1, 2, 3]" 256] unfolding two by (simp add: zero)
qed

text \<open>
  \<open>memcpy\<close> copies the first \<open>bytes\<close> bytes of the source over the destination when both
  objects are that long, and a \<open>memcmp\<close> of that many bytes afterwards finds them equal.
\<close>

theorem memcpy_then_memcmp:
  assumes "nat n \<le> length d" "nat n \<le> length s"
  shows "\<exists>d'. memcpy (Some d) (Some s) n = Some (0, Some d') \<and> length d' = length d
     \<and> take (nat n) d' = take (nat n) s \<and> drop (nat n) d' = drop (nat n) d
     \<and> memcmp (Some d') (Some s) n = Some 0"
proof -
  let ?d = "take (nat n) s @ drop (nat n) d"
  have "memcpy (Some d) (Some s) n = Some (0, Some ?d)"
    using assms by (simp add: memcpy_def memcpy_loop_copy)
  moreover have "memcmp (Some ?d) (Some s) n = Some 0"
    using memcmp_loop_zero [of 0 "nat n" ?d s] assms by (auto simp: memcmp_def)
  ultimately show ?thesis using assms by (intro exI [of _ ?d]) simp
qed

theorem memcpy_then_memcmp_witness:
  "\<exists>d'. memcpy (Some [0, 0, 9]) (Some [7, 8]) 2 = Some (0, Some d') \<and> length d' = length [0, 0, 9 :: u8]
     \<and> take (nat 2) d' = take (nat 2) [7, 8] \<and> drop (nat 2) d' = drop (nat 2) [0, 0, 9]
     \<and> memcmp (Some d') (Some [7, 8]) 2 = Some 0"
  by (rule memcpy_then_memcmp) simp_all

end
