(* ===== verification/Block_Heap.thy ===== *)
theory Block_Heap
  imports Memory_Ops
begin

text \<open>
  \<open>src/memory/heap/heap.c\<close>: the block allocator. A heap is a start address and a table
  with one byte per 4096-byte block; a byte is 0 for a free block, and for a taken one
  has bit 0 set, bit 7 when the allocation goes on in the next block and bit 6 when the
  block is the first of its allocation.

  The refinement at the end relates a table to the abstract state of an allocator: the
  map from first blocks to lengths (\<open>represents\<close>).
\<close>

section \<open>State\<close>

abbreviation (input) HEAP_BLOCK_TABLE_ENTRY_TAKEN :: u8 where "HEAP_BLOCK_TABLE_ENTRY_TAKEN \<equiv> 0x01"
abbreviation (input) HEAP_BLOCK_TABLE_ENTRY_FREE :: u8 where "HEAP_BLOCK_TABLE_ENTRY_FREE \<equiv> 0x00"
abbreviation (input) HEAP_BLOCK_HAS_NEXT :: u8 where "HEAP_BLOCK_HAS_NEXT \<equiv> 0x80"
abbreviation (input) HEAP_BLOCK_IS_FIRST :: u8 where "HEAP_BLOCK_IS_FIRST \<equiv> 0x40"

record heap_table =
  ht_entries :: "u8 list option"
  ht_total :: u32

record heap =
  hp_table :: heap_table
  hp_saddr :: u32

section \<open>Operations\<close>

definition validate_alignment :: "u32 \<Rightarrow> bool" where
  "validate_alignment ptr = (ptr mod SAMOS_HEAP_BLOCK_SIZE \<noteq> 0)"

definition heap_validate_table :: "u32 \<Rightarrow> u32 \<Rightarrow> heap_table \<Rightarrow> int" where
  "heap_validate_table start stop t =
     (let table_size = stop - start; total_blocks = table_size div SAMOS_HEAP_BLOCK_SIZE in
      if total_blocks \<noteq> ht_total t then - EINVARG else SAMOS_ALL_OK)"

definition heap_create ::
  "heap option \<Rightarrow> u32 \<Rightarrow> u32 \<Rightarrow> heap_table option \<Rightarrow> (int \<times> heap option) option" where
  "heap_create hp start_ptr stop tab = (case (hp, tab) of
     (Some _, Some t) \<Rightarrow>
       if start_ptr = 0 \<or> ht_entries t = None then Some (- EINVARG, hp)
       else if validate_alignment start_ptr \<or> validate_alignment stop then Some (- EINVARG, hp)
       else if stop < start_ptr then Some (- EIO, hp)
       else
         let h = \<lparr>hp_table = t, hp_saddr = start_ptr\<rparr>;
             res = heap_validate_table start_ptr stop t in
         if res \<noteq> SAMOS_ALL_OK then Some (res, Some h)
         else do {
           es \<leftarrow> memset (ht_entries t) (uint HEAP_BLOCK_TABLE_ENTRY_FREE) (ht_total t);
           Some (SAMOS_ALL_OK, Some (h\<lparr>hp_table := t\<lparr>ht_entries := es\<rparr>\<rparr>)) }
   | _ \<Rightarrow> Some (- EINVARG, hp))"

definition heap_align_value_to_upper :: "u32 \<Rightarrow> u32" where
  "heap_align_value_to_upper val =
     (if val mod SAMOS_HEAP_BLOCK_SIZE = 0 then val
      else val - (val mod SAMOS_HEAP_BLOCK_SIZE) + SAMOS_HEAP_BLOCK_SIZE)"

text \<open>The scan for a window of free blocks; the loop ends with the pair \<open>(bc, bs)\<close>.\<close>

function heap_scan :: "u8 list \<Rightarrow> nat \<Rightarrow> u32 \<Rightarrow> nat \<Rightarrow> int \<Rightarrow> int \<Rightarrow> (int \<times> int) option" where
  "heap_scan es tot n i bc bs =
     (if i < tot then do {
        e \<leftarrow> at_idx es i;
        if e AND 0x0F \<noteq> HEAP_BLOCK_TABLE_ENTRY_FREE then heap_scan es tot n (Suc i) 0 (- 1)
        else (let bs' = (if bs = - 1 then int i else bs); bc' = bc + 1 in
              if word_of_int bc' = n then Some (bc', bs')
              else heap_scan es tot n (Suc i) bc' bs') }
      else Some (bc, bs))"
  by pat_completeness auto
termination
  by (relation "measure (\<lambda>(es, tot, n, i, bc, bs). tot - i)") auto

declare heap_scan.simps [simp del]

definition heap_get_start_block :: "heap \<Rightarrow> u32 \<Rightarrow> int option" where
  "heap_get_start_block h total_blocks = do {
     es \<leftarrow> ht_entries (hp_table h);
     (bc, bs) \<leftarrow> heap_scan es (unat (ht_total (hp_table h))) total_blocks 0 0 (- 1);
     Some (if bs = - 1 then - ENOMEM
           else if word_of_int bc \<noteq> total_blocks then - ENOMEM else bs) }"

definition heap_block_to_address :: "heap \<Rightarrow> int \<Rightarrow> u32" where
  "heap_block_to_address h block = hp_saddr h + word_of_int block * SAMOS_HEAP_BLOCK_SIZE"

function heap_mark_loop :: "u8 list \<Rightarrow> nat \<Rightarrow> nat \<Rightarrow> u8 list option" where
  "heap_mark_loop es i stop =
     (if i < stop then do {
        es1 \<leftarrow> put_idx es i HEAP_BLOCK_TABLE_ENTRY_TAKEN;
        es2 \<leftarrow> (if i + 1 < stop
               then do { e \<leftarrow> at_idx es1 i; put_idx es1 i (e OR HEAP_BLOCK_HAS_NEXT) }
               else Some es1);
        heap_mark_loop es2 (Suc i) stop }
      else Some es)"
  by pat_completeness auto
termination
  by (relation "measure (\<lambda>(es, i, stop). stop - i)") auto

declare heap_mark_loop.simps [simp del]

definition heap_mark_blocks_taken :: "heap \<Rightarrow> int \<Rightarrow> u32 \<Rightarrow> heap option" where
  "heap_mark_blocks_taken h start_block total_blocks = do {
     es \<leftarrow> ht_entries (hp_table h);
     es1 \<leftarrow> heap_mark_loop es (nat start_block) (nat start_block + unat total_blocks);
     e \<leftarrow> at_idx es1 (nat start_block);
     es2 \<leftarrow> put_idx es1 (nat start_block) (e OR HEAP_BLOCK_IS_FIRST);
     Some (h\<lparr>hp_table := (hp_table h)\<lparr>ht_entries := Some es2\<rparr>\<rparr>) }"

definition heap_malloc_blocks :: "heap \<Rightarrow> u32 \<Rightarrow> (u32 \<times> heap) option" where
  "heap_malloc_blocks h total_blocks = do {
     start_block \<leftarrow> heap_get_start_block h total_blocks;
     if start_block < 0 then Some (0, h)
     else do {
       h' \<leftarrow> heap_mark_blocks_taken h start_block total_blocks;
       Some (heap_block_to_address h start_block, h') } }"

definition heap_malloc :: "heap \<Rightarrow> u32 \<Rightarrow> (u32 \<times> heap) option" where
  "heap_malloc h n =
     (if n = 0 then Some (0, h)
      else heap_malloc_blocks h (heap_align_value_to_upper n div SAMOS_HEAP_BLOCK_SIZE))"

function heap_free_loop :: "u8 list \<Rightarrow> nat \<Rightarrow> nat \<Rightarrow> u8 list option" where
  "heap_free_loop es idx tot =
     (if idx < tot then do {
        e \<leftarrow> at_idx es idx;
        es' \<leftarrow> put_idx es idx HEAP_BLOCK_TABLE_ENTRY_FREE;
        if e AND HEAP_BLOCK_HAS_NEXT = 0 then Some es'
        else heap_free_loop es' (Suc idx) tot }
      else Some es)"
  by pat_completeness auto
termination
  by (relation "measure (\<lambda>(es, idx, tot). tot - idx)") auto

declare heap_free_loop.simps [simp del]

definition heap_free :: "heap \<Rightarrow> u32 \<Rightarrow> heap option" where
  "heap_free h ptr =
     (if ptr = 0 then Some h
      else if ptr < hp_saddr h then Some h
      else if validate_alignment ptr then Some h
      else
        let start_index = unat ((ptr - hp_saddr h) div SAMOS_HEAP_BLOCK_SIZE);
            tot = unat (ht_total (hp_table h)) in
        if start_index \<ge> tot then Some h
        else do {
          es \<leftarrow> ht_entries (hp_table h);
          e \<leftarrow> at_idx es start_index;
          if e AND HEAP_BLOCK_IS_FIRST = 0 then Some h
          else do {
            es' \<leftarrow> heap_free_loop es start_index tot;
            Some (h\<lparr>hp_table := (hp_table h)\<lparr>ht_entries := Some es'\<rparr>\<rparr>) } })"

section \<open>Tables as allocation maps\<close>

definition tag :: "bool \<Rightarrow> bool \<Rightarrow> u8" where
  "tag isfirst hasnext = 1 OR (if isfirst then 0x40 else 0) OR (if hasnext then 0x80 else 0)"

lemma tag_bits:
  "tag f n AND 0x0F \<noteq> 0" "tag f n AND 0x40 = 0 \<longleftrightarrow> \<not> f" "tag f n AND 0x80 = 0 \<longleftrightarrow> \<not> n"
  "tag f n \<noteq> 0"
  by (simp_all add: tag_def)

lemma tag_set:
  "1 OR 0x80 = tag False True" "1 = tag False False" "tag False n OR 0x40 = tag True n"
  by (simp_all add: tag_def)

lemma tag_inject: "tag f n = tag f' n' \<longleftrightarrow> f = f' \<and> n = n'"
  by (cases f; cases n; cases f'; cases n') (simp_all add: tag_def)

definition occupied :: "(nat \<Rightarrow> nat option) \<Rightarrow> nat \<Rightarrow> bool" where
  "occupied A i \<longleftrightarrow> (\<exists>s n. A s = Some n \<and> s \<le> i \<and> i < s + n)"

definition represents :: "u8 list \<Rightarrow> (nat \<Rightarrow> nat option) \<Rightarrow> bool" where
  "represents es A \<longleftrightarrow>
     (\<forall>s n. A s = Some n \<longrightarrow> 0 < n \<and> s + n \<le> length es \<and>
        (\<forall>i. s \<le> i \<and> i < s + n \<longrightarrow> es ! i = tag (i = s) (Suc i < s + n))) \<and>
     (\<forall>i < length es. \<not> occupied A i \<longrightarrow> es ! i = 0)"

lemma represents_allocD:
  assumes "represents es A" "A s = Some n"
  shows "0 < n" "s + n \<le> length es"
    "s \<le> i \<Longrightarrow> i < s + n \<Longrightarrow> es ! i = tag (i = s) (Suc i < s + n)"
  using assms unfolding represents_def by blast+

lemma represents_freeD: "represents es A \<Longrightarrow> i < length es \<Longrightarrow> \<not> occupied A i \<Longrightarrow> es ! i = 0"
  unfolding represents_def by blast

lemma occupiedI: "A s = Some n \<Longrightarrow> s \<le> i \<Longrightarrow> i < s + n \<Longrightarrow> occupied A i"
  unfolding occupied_def by blast

lemma occupiedE:
  assumes "represents es A" "occupied A i"
  obtains s n where "A s = Some n" "s \<le> i" "i < s + n" "es ! i = tag (i = s) (Suc i < s + n)"
  using assms represents_allocD(3) unfolding occupied_def by blast

lemma represents_free_iff:
  assumes "represents es A" "i < length es"
  shows "es ! i AND 0x0F = 0 \<longleftrightarrow> \<not> occupied A i"
proof
  assume "es ! i AND 0x0F = 0"
  then show "\<not> occupied A i" using tag_bits(1) by (metis occupiedE [OF assms(1)])
next
  assume "\<not> occupied A i"
  then show "es ! i AND 0x0F = 0" using represents_freeD [OF assms] by simp
qed

lemma represents_first_iff:
  assumes "represents es A" "i < length es"
  shows "es ! i AND 0x40 \<noteq> 0 \<longleftrightarrow> A i \<noteq> None"
proof (cases "occupied A i")
  case True
  then obtain s n where s: "A s = Some n" "s \<le> i" "i < s + n" "es ! i = tag (i = s) (Suc i < s + n)"
    using occupiedE [OF assms(1)] by blast
  have "A i = Some m \<Longrightarrow> i = s" for m
    using represents_allocD(3) [OF assms(1), of i m i] represents_allocD(1) [OF assms(1), of i m]
      s(4) by (simp add: tag_inject)
  with s show ?thesis by (auto simp: tag_bits)
next
  case False
  then have "A i = None"
    using represents_allocD(1) [OF assms(1), of i] occupiedI [of A i _ i] by fastforce
  then show ?thesis using represents_freeD [OF assms False] by simp
qed

text \<open>Two allocations never share a block.\<close>

lemma represents_disjoint:
  assumes "represents es A" "A s = Some n" "A s' = Some n'" "s < s'"
  shows "s + n \<le> s'"
proof (rule ccontr)
  assume "\<not> s + n \<le> s'"
  then have "es ! s' = tag False (Suc s' < s + n)"
    using represents_allocD(3) [OF assms(1,2), of s'] assms(4) by simp
  moreover have "es ! s' = tag True (Suc s' < s' + n')"
    using represents_allocD [OF assms(1,3)] by simp
  ultimately show False by (simp add: tag_inject)
qed

text \<open>The table and the map determine each other.\<close>

lemma represents_functional:
  assumes "represents es A" "represents es' A" "length es = length es'"
  shows "es = es'"
proof (rule nth_equalityI [OF assms(3)])
  fix i assume i: "i < length es"
  show "es ! i = es' ! i"
  proof (cases "occupied A i")
    case True
    then obtain s n where "A s = Some n" "s \<le> i" "i < s + n" by (auto simp: occupied_def)
    then show ?thesis using represents_allocD(3) [OF assms(1)] represents_allocD(3) [OF assms(2)] by simp
  next
    case False
    then show ?thesis using represents_freeD [OF assms(1)] represents_freeD [OF assms(2)] i assms(3) by simp
  qed
qed

section \<open>The first-fit scan\<close>

definition window :: "u8 list \<Rightarrow> nat \<Rightarrow> nat \<Rightarrow> nat \<Rightarrow> bool" where
  "window es tot k s \<longleftrightarrow> s + k \<le> tot \<and> (\<forall>i. s \<le> i \<and> i < s + k \<longrightarrow> es ! i AND 0x0F = 0)"

lemma window_blocked:
  "\<not> es ! i AND 0x0F = 0 \<Longrightarrow> s \<le> i \<Longrightarrow> i < s + k \<Longrightarrow> \<not> window es tot k s"
  unfolding window_def by blast

definition scan_inv :: "u8 list \<Rightarrow> nat \<Rightarrow> nat \<Rightarrow> nat \<Rightarrow> nat \<Rightarrow> bool" where
  "scan_inv es tot k i st \<longleftrightarrow> st \<le> i \<and> i \<le> tot \<and> i - st < k \<and>
     (\<forall>j. st \<le> j \<and> j < i \<longrightarrow> es ! j AND 0x0F = 0) \<and> (\<forall>s < st. \<not> window es tot k s)"

lemma scan_inv_taken:
  assumes "scan_inv es tot k i st" "i < tot" "es ! i AND 0x0F \<noteq> 0"
  shows "scan_inv es tot k (Suc i) (Suc i)"
  unfolding scan_inv_def
proof (intro conjI allI impI)
  fix s assume "s < Suc i"
  show "\<not> window es tot k s"
  proof (cases "s < st")
    case True
    then show ?thesis using assms(1) by (simp add: scan_inv_def)
  next
    case False
    then show ?thesis
      using assms \<open>s < Suc i\<close> by (intro window_blocked [of es i]) (auto simp: scan_inv_def)
  qed
qed (use assms in \<open>auto simp: scan_inv_def\<close>)

lemma scan_inv_free:
  assumes "scan_inv es tot k i st" "i < tot" "es ! i AND 0x0F = 0" "Suc i - st \<noteq> k"
  shows "scan_inv es tot k (Suc i) st"
  using assms unfolding scan_inv_def by (auto simp: less_Suc_eq)

lemma scan_inv_found:
  assumes "scan_inv es tot k i st" "i < tot" "es ! i AND 0x0F = 0" "Suc i - st = k"
  shows "window es tot k st" "s < st \<Longrightarrow> \<not> window es tot k s"
  using assms unfolding scan_inv_def window_def by (auto simp: less_Suc_eq Suc_diff_le)

lemma scan_inv_end:
  assumes "scan_inv es tot k tot st"
  shows "\<not> window es tot k s"
proof (cases "s < st")
  case True
  then show ?thesis using assms by (simp add: scan_inv_def)
next
  case False
  then have "tot < s + k" using assms unfolding scan_inv_def by arith
  then show ?thesis by (simp add: window_def)
qed

definition scan_result :: "u8 list \<Rightarrow> nat \<Rightarrow> u32 \<Rightarrow> int \<Rightarrow> int \<Rightarrow> bool" where
  "scan_result es tot n bc bs \<longleftrightarrow>
     (\<exists>s. bs = int s \<and> bc = uint n \<and> window es tot (unat n) s \<and> (\<forall>r < s. \<not> window es tot (unat n) r)) \<or>
     ((bs = - 1 \<or> word_of_int bc \<noteq> n) \<and> (\<forall>s. \<not> window es tot (unat n) s))"

lemma word_of_count:
  "int c < 4294967296 \<Longrightarrow> word_of_int (int c) = (n :: u32) \<longleftrightarrow> c = unat n"
  using unat_of_int_small [of "int c"] by (simp add: word_unat_eq_iff [of _ n])

lemma heap_scan_spec:
  assumes "tot \<le> length es" "tot < 4294967296"
    "scan_inv es tot (unat n) i st" "bc = int (i - st)" "bs = (if st = i then - 1 else int st)"
  shows "\<exists>bc' bs'. heap_scan es tot n i bc bs = Some (bc', bs') \<and> scan_result es tot n bc' bs'"
  using assms(3-5)
proof (induction "tot - i" arbitrary: i st bc bs)
  case 0
  then have i: "i = tot" by (simp add: scan_inv_def)
  then have "word_of_int bc \<noteq> n"
    using 0 assms(2) word_of_count [of "i - st" n] by (auto simp: scan_inv_def)
  moreover have "heap_scan es tot n i bc bs = Some (bc, bs)" using i by (simp add: heap_scan.simps)
  ultimately show ?case using scan_inv_end 0 i unfolding scan_result_def by blast
next
  case (Suc d)
  then have i: "i < tot" "i < length es" using assms(1) by auto
  have st: "st \<le> i" using Suc.prems(1) by (simp add: scan_inv_def)
  have d: "d = tot - Suc i" using Suc.hyps(2) by simp
  show ?case
  proof (cases "es ! i AND 0x0F = 0")
    case False
    have "heap_scan es tot n i bc bs = heap_scan es tot n (Suc i) 0 (- 1)"
      using i False by (simp add: heap_scan.simps [of es tot n i] buf)
    with Suc.hyps(1) [OF d scan_inv_taken [OF Suc.prems(1) i(1) False], of 0 "- 1"]
    show ?thesis by simp
  next
    case True
    have bs': "(if bs = - 1 then int i else bs) = int st" using Suc.prems(3) by auto
    have bc': "bc + 1 = int (Suc i - st)" using Suc.prems(2) st by simp
    have step: "heap_scan es tot n i bc bs = (if Suc i - st = unat n then Some (bc + 1, int st)
        else heap_scan es tot n (Suc i) (bc + 1) (int st))"
      using i True bs' word_of_count [of "Suc i - st" n] assms(2)
      by (simp add: heap_scan.simps [of es tot n i] buf Let_def bc')
    show ?thesis
    proof (cases "Suc i - st = unat n")
      case found: True
      then have "bc + 1 = uint n" using bc' by (metis uint_nat)
      then have "scan_result es tot n (bc + 1) (int st)"
        using scan_inv_found [OF Suc.prems(1) i(1) True found] unfolding scan_result_def by blast
      then show ?thesis using step found by simp
    next
      case False
      have "int st = (if st = Suc i then - 1 else int st)" using st by simp
      from Suc.hyps(1) [OF d scan_inv_free [OF Suc.prems(1) i(1) True False] bc' this] False
      show ?thesis unfolding step by simp
    qed
  qed
qed

text \<open>A request of 0 blocks, which only a size that wraps around can make, always fails.\<close>

lemma heap_scan_zero:
  assumes "tot \<le> length es" "tot < 4294967296"
    "0 \<le> bc" "bc \<le> int i" "bs = - 1 \<or> 0 < bc" "i \<le> tot"
  shows "\<exists>bc' bs'. heap_scan es tot 0 i bc bs = Some (bc', bs') \<and>
    (bs' = - 1 \<or> (word_of_int bc' :: u32) \<noteq> 0)"
  using assms(3-6)
proof (induction "tot - i" arbitrary: i bc bs)
  case 0
  then have "bs = - 1 \<or> (word_of_int bc :: u32) \<noteq> 0"
    using word_of_count [of "nat bc" 0] assms(2) by auto
  then show ?case using 0 by (simp add: heap_scan.simps)
next
  case (Suc d)
  then have i: "i < tot" "i < length es" "d = tot - Suc i" using assms(1) by auto
  have nz: "(word_of_int (bc + 1) :: u32) \<noteq> 0"
    using word_of_count [of "nat (bc + 1)" 0] assms(2) Suc.prems i by auto
  show ?case
  proof (cases "es ! i AND 0x0F = 0")
    case True
    have "\<exists>bc' bs'. heap_scan es tot 0 (Suc i) (bc + 1) (if bs = - 1 then int i else bs) = Some (bc', bs') \<and>
        (bs' = - 1 \<or> (word_of_int bc' :: u32) \<noteq> 0)"
      by (rule Suc.hyps(1)) (use Suc.prems i in auto)
    then show ?thesis using i True nz by (simp add: heap_scan.simps [of es tot 0 i] buf Let_def)
  next
    case False
    have "\<exists>bc' bs'. heap_scan es tot 0 (Suc i) 0 (- 1) = Some (bc', bs') \<and>
        (bs' = - 1 \<or> (word_of_int bc' :: u32) \<noteq> 0)"
      by (rule Suc.hyps(1)) (use Suc.prems i in auto)
    then show ?thesis using i False by (simp add: heap_scan.simps [of es tot 0 i] buf)
  qed
qed

section \<open>Marking and clearing\<close>

lemma heap_mark_loop_spec:
  assumes "i \<le> stop" "stop \<le> length es"
  shows "\<exists>es'. heap_mark_loop es i stop = Some es' \<and> length es' = length es \<and>
    (\<forall>j < length es. es' ! j = (if i \<le> j \<and> j < stop then tag False (Suc j < stop) else es ! j))"
  using assms
proof (induction "stop - i" arbitrary: i es)
  case 0
  then show ?case by (auto simp: heap_mark_loop.simps)
next
  case (Suc d)
  let ?es = "es[i := tag False (Suc i < stop)]"
  from Suc.hyps(2) have i: "i < stop" and d: "d = stop - Suc i" by simp_all
  with Suc.prems have "heap_mark_loop es i stop = heap_mark_loop ?es (Suc i) stop"
    by (simp add: heap_mark_loop.simps [of es i] buf flip: tag_set)
  moreover obtain es' where es': "heap_mark_loop ?es (Suc i) stop = Some es'" "length es' = length ?es"
    "\<forall>j < length ?es. es' ! j = (if Suc i \<le> j \<and> j < stop then tag False (Suc j < stop) else ?es ! j)"
    using Suc.hyps(1) [OF d, of ?es] Suc.prems i by auto
  moreover have "es' ! j = (if i \<le> j \<and> j < stop then tag False (Suc j < stop) else es ! j)"
    if "j < length es" for j
    using es'(3) that i by (cases "j = i") (auto simp: nth_list_update)
  ultimately show ?case by simp
qed

lemma heap_free_loop_spec:
  assumes "i < stop" "stop \<le> tot" "tot \<le> length es"
    "\<And>j. i \<le> j \<Longrightarrow> j < stop \<Longrightarrow> es ! j AND 0x80 = 0 \<longleftrightarrow> \<not> Suc j < stop"
  shows "\<exists>es'. heap_free_loop es i tot = Some es' \<and> length es' = length es \<and>
    (\<forall>j < length es. es' ! j = (if i \<le> j \<and> j < stop then 0 else es ! j))"
  using assms
proof (induction "stop - i" arbitrary: i es)
  case 0
  then show ?case by simp
next
  case (Suc d)
  let ?es = "es[i := 0]"
  have i: "i < tot" "i < length es" using Suc.prems by auto
  show ?case
  proof (cases "Suc i < stop")
    case True
    with Suc.prems i have "heap_free_loop es i tot = heap_free_loop ?es (Suc i) tot"
      by (simp add: heap_free_loop.simps [of es i] buf)
    moreover have "\<exists>es'. heap_free_loop ?es (Suc i) tot = Some es' \<and> length es' = length ?es \<and>
        (\<forall>j < length ?es. es' ! j = (if Suc i \<le> j \<and> j < stop then 0 else ?es ! j))"
      by (rule Suc.hyps(1)) (use Suc.hyps(2) Suc.prems True in \<open>auto simp: nth_list_update\<close>)
    ultimately obtain es' where es': "heap_free_loop es i tot = Some es'" "length es' = length es"
      "\<forall>j < length es. es' ! j = (if Suc i \<le> j \<and> j < stop then 0 else ?es ! j)" by auto
    have "es' ! j = (if i \<le> j \<and> j < stop then 0 else es ! j)" if "j < length es" for j
      using es'(3) that True by (cases "j = i") (auto simp: nth_list_update)
    with es' show ?thesis by blast
  next
    case False
    with Suc.prems i have "heap_free_loop es i tot = Some ?es"
      by (simp add: heap_free_loop.simps [of es i] buf)
    moreover have "?es ! j = (if i \<le> j \<and> j < stop then 0 else es ! j)" if "j < length es" for j
      using that False Suc.prems(1) by (auto simp: nth_list_update)
    ultimately show ?thesis by simp
  qed
qed

section \<open>Allocating and freeing on the abstract map\<close>

lemma represents_alloc:
  assumes "represents es A" "0 < n" "s + n \<le> length es" "\<And>j. s \<le> j \<Longrightarrow> j < s + n \<Longrightarrow> \<not> occupied A j"
    "length es' = length es"
    "\<And>j. j < length es \<Longrightarrow> es' ! j = (if s \<le> j \<and> j < s + n then tag (j = s) (Suc j < s + n) else es ! j)"
  shows "represents es' (A(s \<mapsto> n))"
proof -
  have out: "\<not> (s \<le> j \<and> j < s + n)" if "A t = Some m" "t \<le> j" "j < t + m" for t m j
    using assms(4) [of j] occupiedI [of A t m j] that by blast
  have fresh: "A s = None"
    using assms(2) assms(4) [of s] represents_allocD(1) [OF assms(1), of s] occupiedI [of A s _ s]
    by (cases "A s") auto
  have "es' ! j = tag (j = t) (Suc j < t + m)"
    if "(A(s \<mapsto> n)) t = Some m" "t \<le> j" "j < t + m" for t m j
  proof (cases "t = s")
    case True
    then show ?thesis using that assms(3,6) by auto
  next
    case False
    then have "A t = Some m" using that by simp
    then show ?thesis
      using that out [of t m j] assms(6) [of j] represents_allocD(2,3) [OF assms(1), of t m] by auto
  qed
  moreover have "0 < m \<and> t + m \<le> length es'" if "(A(s \<mapsto> n)) t = Some m" for t m
    using that assms(2,3,5) represents_allocD(1,2) [OF assms(1), of t m] by (cases "t = s") auto
  moreover have "es' ! j = 0" if "j < length es'" "\<not> occupied (A(s \<mapsto> n)) j" for j
  proof -
    have "\<not> (s \<le> j \<and> j < s + n)" using that(2) occupiedI [of "A(s \<mapsto> n)" s n j] by auto
    moreover have "\<not> occupied A j"
    proof
      assume "occupied A j"
      then obtain t m where "A t = Some m" "t \<le> j" "j < t + m" by (auto simp: occupied_def)
      then show False using that(2) fresh occupiedI [of "A(s \<mapsto> n)" t m j] by (cases "t = s") auto
    qed
    ultimately show ?thesis
      using that(1) assms(5,6) represents_freeD [OF assms(1), of j] by auto
  qed
  ultimately show ?thesis unfolding represents_def by blast
qed

lemma represents_release:
  assumes "represents es A" "A s = Some n" "length es' = length es"
    "\<And>j. j < length es \<Longrightarrow> es' ! j = (if s \<le> j \<and> j < s + n then 0 else es ! j)"
  shows "represents es' (A(s := None))"
proof -
  have out: "\<not> (s \<le> j \<and> j < s + n)" if "A t = Some m" "t \<noteq> s" "t \<le> j" "j < t + m" for t m j
    using that represents_disjoint [OF assms(1) assms(2), of t m]
      represents_disjoint [OF assms(1), of t m s n] assms(2)
    by (cases "s < t") auto
  have "0 < m \<and> t + m \<le> length es' \<and> (\<forall>j. t \<le> j \<and> j < t + m \<longrightarrow> es' ! j = tag (j = t) (Suc j < t + m))"
    if "(A(s := None)) t = Some m" for t m
  proof -
    have t: "A t = Some m" "t \<noteq> s" using that by (auto split: if_splits)
    then show ?thesis
      using represents_allocD [OF assms(1) t(1)] out [OF t] assms(3,4) by auto
  qed
  moreover have "es' ! j = 0" if "j < length es'" "\<not> occupied (A(s := None)) j" for j
  proof (cases "s \<le> j \<and> j < s + n")
    case True
    then show ?thesis using that assms(3,4) by simp
  next
    case False
    have "\<not> occupied A j"
    proof
      assume "occupied A j"
      then obtain t m where "A t = Some m" "t \<le> j" "j < t + m" by (auto simp: occupied_def)
      then show False using that(2) False assms(2) occupiedI [of "A(s := None)" t m j]
        by (cases "t = s") auto
    qed
    then show ?thesis using that assms(3,4) False represents_freeD [OF assms(1), of j] by simp
  qed
  ultimately show ?thesis unfolding represents_def by blast
qed

section \<open>The heap invariant and addresses\<close>

text \<open>
  A heap in use: an aligned, non-null start address, a table of \<open>total\<close> bytes, and all
  block addresses in the lower half of the address space. \<open>heap_rep h A\<close> adds that the
  table stands for the map \<open>A\<close>.
\<close>

definition heap_geometry :: "heap \<Rightarrow> bool" where
  "heap_geometry h \<longleftrightarrow> hp_saddr h \<noteq> 0 \<and> \<not> validate_alignment (hp_saddr h) \<and>
     unat (hp_saddr h) + 4096 * unat (ht_total (hp_table h)) \<le> 2147483648"

definition heap_rep :: "heap \<Rightarrow> (nat \<Rightarrow> nat option) \<Rightarrow> bool" where
  "heap_rep h A \<longleftrightarrow> heap_geometry h \<and>
     (\<exists>es. ht_entries (hp_table h) = Some es \<and> length es = unat (ht_total (hp_table h)) \<and> represents es A)"

definition same_frame :: "heap \<Rightarrow> heap \<Rightarrow> bool" where
  "same_frame h h' \<longleftrightarrow> hp_saddr h = hp_saddr h' \<and> ht_total (hp_table h) = ht_total (hp_table h')"

definition block_index :: "heap \<Rightarrow> u32 \<Rightarrow> nat option" where
  "block_index h p =
     (if p = 0 \<or> p < hp_saddr h \<or> validate_alignment p then None
      else let i = unat ((p - hp_saddr h) div 4096) in
           if i < unat (ht_total (hp_table h)) then Some i else None)"

definition block_addr :: "heap \<Rightarrow> nat \<Rightarrow> u32" where
  "block_addr h i = hp_saddr h + of_nat i * 4096"

text \<open>The allocations by their addresses.\<close>

definition owned :: "heap \<Rightarrow> (nat \<Rightarrow> nat option) \<Rightarrow> (u32 \<Rightarrow> nat option)" where
  "owned h A p = Option.bind (block_index h p) A"

lemma aligned_iff: "\<not> validate_alignment p \<longleftrightarrow> 4096 dvd unat p"
proof -
  have "unat (p mod 4096) = unat p mod 4096" by (simp add: unat_mod)
  then show ?thesis by (metis dvd_eq_mod_eq_0 unat_0 unat_eq_zero validate_alignment_def)
qed

lemma unat_block_addr:
  assumes "heap_geometry h" "i < unat (ht_total (hp_table h))"
  shows "unat (block_addr h i) = unat (hp_saddr h) + 4096 * i"
proof -
  have b: "unat (hp_saddr h) + 4096 * i < 4294967296" using assms by (simp add: heap_geometry_def)
  have "block_addr h i = word_of_nat (unat (hp_saddr h) + 4096 * i)"
    by (simp add: block_addr_def mult.commute)
  then show ?thesis using b by (simp add: unat_of_nat_small del: of_nat_add of_nat_mult)
qed

lemma block_index_addr:
  assumes "heap_geometry h" "i < unat (ht_total (hp_table h))"
  shows "block_index h (block_addr h i) = Some i"
proof -
  let ?p = "block_addr h i"
  note u = unat_block_addr [OF assms]
  have g: "hp_saddr h \<noteq> 0" "4096 dvd unat (hp_saddr h)"
    using assms(1) by (simp_all add: heap_geometry_def aligned_iff)
  have "hp_saddr h \<le> ?p" by (simp add: word_le_nat_alt u)
  moreover have "?p \<noteq> 0" using u g(1) by (metis add_is_0 unat_0 unat_eq_zero)
  moreover have "\<not> validate_alignment ?p" using u g(2) by (simp add: aligned_iff)
  moreover have "unat (?p - hp_saddr h) = 4096 * i"
    using \<open>hp_saddr h \<le> ?p\<close> by (simp add: unat_sub u)
  then have "unat ((?p - hp_saddr h) div 4096) = i" by (simp add: unat_div)
  ultimately show ?thesis using assms(2) by (simp add: block_index_def)
qed

lemma block_addr_index:
  assumes "block_index h p = Some i" "heap_geometry h"
  shows "i < unat (ht_total (hp_table h))" "p = block_addr h i"
proof -
  have p: "hp_saddr h \<le> p" "4096 dvd unat p" "i = unat ((p - hp_saddr h) div 4096)"
    "i < unat (ht_total (hp_table h))"
    using assms(1) by (auto simp: block_index_def aligned_iff Let_def not_less split: if_splits)
  then show "i < unat (ht_total (hp_table h))" by simp
  have "4096 dvd unat (hp_saddr h)" using assms(2) by (simp add: heap_geometry_def aligned_iff)
  moreover have "unat (hp_saddr h) \<le> unat p" using p(1) by (simp add: word_le_nat_alt)
  moreover have "i = (unat p - unat (hp_saddr h)) div 4096"
    using p(1,3) by (simp add: unat_div unat_sub)
  ultimately have "unat p = unat (hp_saddr h) + 4096 * i" using p(2) by (auto elim!: dvdE)
  then show "p = block_addr h i"
    using unat_block_addr [OF assms(2) p(4)] by (simp add: word_unat_eq_iff)
qed

lemma block_addr_nonneg:
  assumes "heap_geometry h" "i < unat (ht_total (hp_table h))"
  shows "block_addr h i \<noteq> 0" "unat (block_addr h i) < 2147483648"
proof -
  have "0 < unat (hp_saddr h)" using assms(1) by (metis heap_geometry_def unat_eq_zero not_gr_zero)
  then show "block_addr h i \<noteq> 0" "unat (block_addr h i) < 2147483648"
    using unat_block_addr [OF assms] assms by (auto simp: heap_geometry_def)
qed

section \<open>The operations on a represented heap\<close>

definition fits :: "(nat \<Rightarrow> nat option) \<Rightarrow> nat \<Rightarrow> nat \<Rightarrow> nat \<Rightarrow> bool" where
  "fits A tot k s \<longleftrightarrow> s + k \<le> tot \<and> (\<forall>i. s \<le> i \<and> i < s + k \<longrightarrow> \<not> occupied A i)"

definition blocks_of :: "u32 \<Rightarrow> nat" where
  "blocks_of n = (unat n + 4095) div 4096"

lemma heap_repE:
  assumes "heap_rep h A"
  obtains es where "ht_entries (hp_table h) = Some es" "length es = unat (ht_total (hp_table h))"
    "represents es A" "heap_geometry h"
  using assms unfolding heap_rep_def by blast

lemma window_fits:
  "represents es A \<Longrightarrow> length es = tot \<Longrightarrow> window es tot k s \<longleftrightarrow> fits A tot k s"
  unfolding window_def fits_def by (auto simp: represents_free_iff)

lemma heap_get_start_block_spec:
  assumes "heap_rep h A" "0 < unat n"
  shows "(\<exists>s. heap_get_start_block h n = Some (int s) \<and> fits A (unat (ht_total (hp_table h))) (unat n) s \<and>
            (\<forall>r < s. \<not> fits A (unat (ht_total (hp_table h))) (unat n) r)) \<or>
         (heap_get_start_block h n = Some (- ENOMEM) \<and>
            (\<forall>s. \<not> fits A (unat (ht_total (hp_table h))) (unat n) s))"
proof -
  let ?tot = "unat (ht_total (hp_table h))"
  obtain es where es: "ht_entries (hp_table h) = Some es" "length es = ?tot" "represents es A"
    using assms(1) by (rule heap_repE)
  have "scan_inv es ?tot (unat n) 0 0" using assms(2) by (simp add: scan_inv_def)
  then obtain bc bs where scan: "heap_scan es ?tot n 0 0 (- 1) = Some (bc, bs)" "scan_result es ?tot n bc bs"
    using heap_scan_spec [of ?tot es n 0 0 0 "- 1"] es(2) unat32_bound by auto
  have start: "heap_get_start_block h n = Some (if bs = - 1 then - ENOMEM
       else if word_of_int bc \<noteq> n then - ENOMEM else bs)"
    by (simp add: heap_get_start_block_def es(1) scan(1))
  from scan(2) show ?thesis
    unfolding scan_result_def window_fits [OF es(3,2)]
  proof (elim disjE exE conjE)
    fix s assume "bs = int s" "bc = uint n" "fits A ?tot (unat n) s" "\<forall>r < s. \<not> fits A ?tot (unat n) r"
    then show ?thesis using start by auto
  qed (use start in auto)
qed

lemma heap_get_start_block_zero:
  assumes "heap_rep h A"
  shows "heap_get_start_block h 0 = Some (- ENOMEM)"
proof -
  let ?tot = "unat (ht_total (hp_table h))"
  obtain es where es: "ht_entries (hp_table h) = Some es" "length es = ?tot"
    using assms by (rule heap_repE)
  then obtain bc bs where "heap_scan es ?tot 0 0 0 (- 1) = Some (bc, bs)" "bs = - 1 \<or> (word_of_int bc :: u32) \<noteq> 0"
    using heap_scan_zero [of ?tot es 0 0 "- 1"] unat32_bound by auto
  then show ?thesis by (auto simp: heap_get_start_block_def es(1))
qed

lemma heap_mark_blocks_taken_spec:
  assumes "heap_rep h A" "0 < unat n" "fits A (unat (ht_total (hp_table h))) (unat n) s"
  shows "\<exists>h'. heap_mark_blocks_taken h (int s) n = Some h' \<and> heap_rep h' (A(s \<mapsto> unat n)) \<and> same_frame h h'"
proof -
  obtain es where es: "ht_entries (hp_table h) = Some es" "length es = unat (ht_total (hp_table h))"
    "represents es A" "heap_geometry h"
    using assms(1) by (rule heap_repE)
  have s: "s + unat n \<le> length es" "s < length es"
    and free: "\<And>j. s \<le> j \<Longrightarrow> j < s + unat n \<Longrightarrow> \<not> occupied A j"
    using assms(2,3) es(2) by (auto simp: fits_def)
  obtain es1 where es1: "heap_mark_loop es s (s + unat n) = Some es1" "length es1 = length es"
    "\<forall>j < length es. es1 ! j = (if s \<le> j \<and> j < s + unat n then tag False (Suc j < s + unat n) else es ! j)"
    using heap_mark_loop_spec [of s "s + unat n" es] s by auto
  let ?es2 = "es1[s := es1 ! s OR HEAP_BLOCK_IS_FIRST]"
  let ?h = "h\<lparr>hp_table := (hp_table h)\<lparr>ht_entries := Some ?es2\<rparr>\<rparr>"
  have "represents ?es2 (A(s \<mapsto> unat n))"
    by (rule represents_alloc [OF es(3) assms(2) s(1) free])
      (use es1 s assms(2) in \<open>auto simp: nth_list_update tag_set\<close>)
  then have "heap_rep ?h (A(s \<mapsto> unat n))"
    using es es1(2) by (simp add: heap_rep_def heap_geometry_def)
  moreover have "heap_mark_blocks_taken h (int s) n = Some ?h"
    using es1(1,2) s by (simp add: heap_mark_blocks_taken_def es(1) buf)
  ultimately show ?thesis by (simp add: same_frame_def)
qed

lemma heap_malloc_blocks_spec:
  assumes "heap_rep h A"
  shows "(\<exists>s h'. heap_malloc_blocks h n = Some (block_addr h s, h') \<and> 0 < unat n \<and>
            fits A (unat (ht_total (hp_table h))) (unat n) s \<and> heap_rep h' (A(s \<mapsto> unat n)) \<and> same_frame h h') \<or>
         (heap_malloc_blocks h n = Some (0, h) \<and>
            (n = 0 \<or> (\<forall>s. \<not> fits A (unat (ht_total (hp_table h))) (unat n) s)))"
proof (cases "n = 0")
  case True
  then show ?thesis by (simp add: heap_malloc_blocks_def heap_get_start_block_zero [OF assms])
next
  case False
  then have n: "0 < unat n" by (simp add: unat_gt_0)
  from heap_get_start_block_spec [OF assms n] show ?thesis
  proof (elim disjE exE conjE)
    fix s assume "heap_get_start_block h n = Some (int s)"
      and fit: "fits A (unat (ht_total (hp_table h))) (unat n) s"
    with heap_mark_blocks_taken_spec [OF assms n fit] n show ?thesis
      by (auto simp: heap_malloc_blocks_def heap_block_to_address_def block_addr_def)
  qed (simp add: heap_malloc_blocks_def)
qed

lemma heap_align_blocks:
  "unat (heap_align_value_to_upper n div 4096) = (if unat n \<le> 4294963200 then blocks_of n else 0)"
proof -
  have m: "unat (n mod 4096) = unat n mod 4096" by (simp add: unat_mod)
  have z: "n mod 4096 = 0 \<longleftrightarrow> unat n mod 4096 = 0" using m by (metis unat_0 unat_eq_zero)
  have F: "unat (heap_align_value_to_upper n) =
      (if unat n mod 4096 = 0 then unat n else (unat n - unat n mod 4096 + 4096) mod 4294967296)"
    using m by (simp add: heap_align_value_to_upper_def z unat_word_ariths unat_sub word_le_nat_alt)
  obtain q r where qr: "unat n = 4096 * q + r" "r < 4096"
    by (metis mod_less_divisor mult_div_mod_eq zero_less_numeral)
  have r: "unat n mod 4096 = r" unfolding qr(1) using qr(2) by simp
  have q: "unat n - r = 4096 * q" unfolding qr(1) by simp
  have a: "unat (heap_align_value_to_upper n) =
      (if r = 0 then 4096 * q else (4096 * q + 4096) mod 4294967296)"
    unfolding F r q unfolding qr(1) by simp
  have d: "unat (heap_align_value_to_upper n div 4096) = unat (heap_align_value_to_upper n) div 4096"
    by (simp add: unat_div)
  have b: "blocks_of n = (if r = 0 then q else Suc q)"
    using qr unfolding blocks_of_def by auto
  have q': "q \<le> 1048575" using qr(1) unat32_bound [of n] by linarith
  show ?thesis
  proof (cases "r = 0")
    case True
    then have "unat n \<le> 4294963200" using qr(1) q' by linarith
    with True show ?thesis unfolding d a b by simp
  next
    case nz: False
    show ?thesis
    proof (cases "unat n \<le> 4294963200")
      case True
      then have "4096 * q + 4096 < 4294967296" using qr nz q' by linarith
      with True nz show ?thesis unfolding d a b by simp
    next
      case False
      then have "q = 1048575" using qr q' by linarith
      with False nz show ?thesis unfolding d a b by simp
    qed
  qed
qed

lemma blocks_of_pos: "n \<noteq> 0 \<Longrightarrow> 0 < blocks_of n"
  using unat_gt_0 [of n] by (simp add: blocks_of_def div_greater_zero_iff)

lemma owned_addr:
  assumes "heap_geometry h" "i < unat (ht_total (hp_table h))"
  shows "owned h A (block_addr h i) = A i"
  by (simp add: owned_def block_index_addr [OF assms])

lemma owned_frame: "same_frame h h' \<Longrightarrow> owned h' A = owned h A"
  by (simp add: owned_def fun_eq_iff block_index_def same_frame_def)

lemma owned_update:
  assumes "heap_geometry h" "i < unat (ht_total (hp_table h))"
  shows "owned h (A(i := x)) = (owned h A)(block_addr h i := x)"
proof
  fix p
  show "owned h (A(i := x)) p = ((owned h A)(block_addr h i := x)) p"
  proof (cases "p = block_addr h i")
    case True
    then show ?thesis by (simp add: owned_addr [OF assms])
  next
    case False
    then have "block_index h p \<noteq> Some i" using block_addr_index(2) [OF _ assms(1)] by blast
    then show ?thesis using False by (cases "block_index h p") (auto simp: owned_def)
  qed
qed

lemma heap_rep_dom: "heap_rep h A \<Longrightarrow> A i = Some k \<Longrightarrow> i < unat (ht_total (hp_table h))"
  by (elim heap_repE) (use represents_allocD(1,2) [of _ A i k] in fastforce)

lemma heap_malloc_spec:
  assumes "heap_rep h A"
  shows "(\<exists>s h'. heap_malloc h n = Some (block_addr h s, h') \<and> n \<noteq> 0 \<and> unat n \<le> 4294963200 \<and>
            fits A (unat (ht_total (hp_table h))) (blocks_of n) s \<and>
            heap_rep h' (A(s \<mapsto> blocks_of n)) \<and> same_frame h h') \<or>
         (heap_malloc h n = Some (0, h) \<and> (n = 0 \<or> unat n > 4294963200 \<or>
            (\<forall>s. \<not> fits A (unat (ht_total (hp_table h))) (blocks_of n) s)))"
proof (cases "n = 0")
  case True
  then show ?thesis by (simp add: heap_malloc_def)
next
  case False
  let ?k = "heap_align_value_to_upper n div 4096"
  have "?k = 0 \<longleftrightarrow> unat ?k = 0" by (simp only: unat_eq_zero)
  then have k: "?k = 0 \<longleftrightarrow> unat n > 4294963200"
    using blocks_of_pos [OF False] by (auto simp: heap_align_blocks)
  from False have "heap_malloc h n = heap_malloc_blocks h ?k" by (simp add: heap_malloc_def)
  with heap_malloc_blocks_spec [OF assms, of ?k] k False show ?thesis
    unfolding heap_align_blocks by (auto split: if_splits)
qed

lemma heap_free_owned:
  assumes "heap_rep h A" "A i = Some k"
  shows "\<exists>h'. heap_free h (block_addr h i) = Some h' \<and> heap_rep h' (A(i := None)) \<and> same_frame h h'"
proof -
  obtain es where es: "ht_entries (hp_table h) = Some es" "length es = unat (ht_total (hp_table h))"
    "represents es A" "heap_geometry h"
    using assms(1) by (rule heap_repE)
  have i: "i < unat (ht_total (hp_table h))" using heap_rep_dom [OF assms] .
  note ix = block_index_addr [OF es(4) i]
  note al = represents_allocD [OF es(3) assms(2)]
  have first: "es ! i AND 0x40 \<noteq> 0" using represents_first_iff [OF es(3), of i] assms(2) es(2) i by simp
  obtain es' where es': "heap_free_loop es i (length es) = Some es'" "length es' = length es"
    "\<forall>j < length es. es' ! j = (if i \<le> j \<and> j < i + k then 0 else es ! j)"
    using heap_free_loop_spec [of i "i + k" "length es" es] al by (auto simp: tag_bits)
  let ?h = "h\<lparr>hp_table := (hp_table h)\<lparr>ht_entries := Some es'\<rparr>\<rparr>"
  have "heap_free h (block_addr h i) = Some ?h"
    using ix first es'(1) es(1,2) i
    by (auto simp: heap_free_def block_index_def Let_def buf split: if_splits)
  moreover have "heap_rep ?h (A(i := None))"
    using represents_release [OF es(3) assms(2) es'(2)] es'(2,3) es by (simp add: heap_rep_def heap_geometry_def)
  ultimately show ?thesis by (auto simp: same_frame_def)
qed

lemma heap_free_other:
  assumes "heap_rep h A" "owned h A p = None"
  shows "heap_free h p = Some h"
proof -
  obtain es where es: "ht_entries (hp_table h) = Some es" "length es = unat (ht_total (hp_table h))"
    "represents es A" "heap_geometry h"
    using assms(1) by (rule heap_repE)
  show ?thesis
  proof (cases "block_index h p")
    case None
    then show ?thesis by (auto simp: heap_free_def block_index_def Let_def split: if_splits)
  next
    case (Some i)
    then have i: "i < length es" using block_addr_index(1) [OF Some es(4)] es(2) by simp
    have "A i = None" using assms(2) Some by (simp add: owned_def)
    then have "es ! i AND 0x40 = 0" using represents_first_iff [OF es(3) i] by simp
    then show ?thesis using Some i es(1)
      by (auto simp: heap_free_def block_index_def Let_def buf split: if_splits)
  qed
qed

lemma heap_rep_unique: "heap_rep h A \<Longrightarrow> heap_rep h' A \<Longrightarrow> same_frame h h' \<Longrightarrow> h = h'"
  by (elim heap_repE) (auto simp: same_frame_def dest: represents_functional)

section \<open>The allocator's contract\<close>

text \<open>
  What the clients of the heap rely on. \<open>rep h B\<close> says that heap \<open>h\<close> is in order and that
  \<open>B\<close> maps the addresses of its live allocations to their lengths in blocks.
\<close>

locale block_allocator =
  fixes alloc :: "'h \<Rightarrow> 'n \<Rightarrow> ('p \<times> 'h) option"
    and release :: "'h \<Rightarrow> 'p \<Rightarrow> 'h option"
    and null :: 'p
    and blocks :: "'n \<Rightarrow> nat"
    and rep :: "'h \<Rightarrow> ('p \<Rightarrow> nat option) \<Rightarrow> bool"
    and frame :: "'h \<Rightarrow> 'h \<Rightarrow> bool"
  assumes alloc_returns: "rep h B \<Longrightarrow> \<exists>p h'. alloc h n = Some (p, h')"
    and alloc_null: "rep h B \<Longrightarrow> alloc h n = Some (null, h') \<Longrightarrow> h' = h"
    and alloc_rep: "rep h B \<Longrightarrow> alloc h n = Some (p, h') \<Longrightarrow> p \<noteq> null \<Longrightarrow>
      B p = None \<and> rep h' (B(p \<mapsto> blocks n)) \<and> frame h h'"
    and null_not_owned: "rep h B \<Longrightarrow> B null = None"
    and release_owned: "rep h B \<Longrightarrow> B p = Some k \<Longrightarrow>
      \<exists>h'. release h p = Some h' \<and> rep h' (B(p := None)) \<and> frame h h'"
    and release_other: "rep h B \<Longrightarrow> B p = None \<Longrightarrow> release h p = Some h"
    and rep_unique: "rep h B \<Longrightarrow> rep h' B \<Longrightarrow> frame h h' \<Longrightarrow> h = h'"
    and frame_sym: "frame h h' \<Longrightarrow> frame h' h"
    and frame_trans: "frame h h' \<Longrightarrow> frame h' h'' \<Longrightarrow> frame h h''"
begin

lemma release_returns: "rep h B \<Longrightarrow> \<exists>h'. release h p = Some h' \<and> rep h' (B(p := None)) \<and> (h' = h \<or> frame h h')"
  using release_owned [of h B p] release_other [of h B p] by (cases "B p") (auto simp: fun_upd_idem)

lemma alloc_release:
  assumes "rep h B" "alloc h n = Some (p, h')"
  shows "release h' p = Some h"
proof (cases "p = null")
  case True
  then show ?thesis using assms alloc_null null_not_owned release_other by blast
next
  case False
  note a = alloc_rep [OF assms False]
  then obtain h'' where h'': "release h' p = Some h''" "rep h'' ((B(p \<mapsto> blocks n))(p := None))" "frame h' h''"
    using release_owned [of h' _ p] by fastforce
  moreover have "(B(p \<mapsto> blocks n))(p := None) = B" using a by (simp add: fun_upd_idem)
  ultimately have "h = h''" using rep_unique [OF assms(1), of h''] a frame_trans by metis
  then show ?thesis using h'' by simp
qed

lemma release_swap:
  assumes "rep h B" "alloc h n = Some (p, h1)" "alloc h1 m = Some (q, h2)" "p \<noteq> null" "q \<noteq> null"
    and rel: "release h2 p = Some h3"
  shows "release h3 q = Some h"
proof -
  note a1 = alloc_rep [OF assms(1,2,4)]
  then have r1: "rep h1 (B(p \<mapsto> blocks n))" by simp
  note a2 = alloc_rep [OF r1 assms(3,5)]
  then have pq: "q \<noteq> p" by auto
  with a2 have "rep h2 (B(p \<mapsto> blocks n, q \<mapsto> blocks m))" "B q = None" by auto
  then obtain h3' where h3': "release h2 p = Some h3'" "rep h3' (B(p \<mapsto> blocks n, q \<mapsto> blocks m, p := None))" "frame h2 h3'"
    using release_owned [of h2 _ p] pq by fastforce
  have "B(p \<mapsto> blocks n, q \<mapsto> blocks m, p := None) = B(q \<mapsto> blocks m)"
    using a1 pq by (auto simp: fun_eq_iff)
  with h3' rel have r3: "rep h3 (B(q \<mapsto> blocks m))" "frame h2 h3" by simp_all
  then obtain h4 where h4: "release h3 q = Some h4" "rep h4 ((B(q \<mapsto> blocks m))(q := None))" "frame h3 h4"
    using release_owned [of h3 _ q] by fastforce
  moreover have "(B(q \<mapsto> blocks m))(q := None) = B" using \<open>B q = None\<close> by (simp add: fun_upd_idem)
  ultimately have "h = h4"
    using rep_unique [OF assms(1), of h4] a1 a2 r3(2) h4(3) frame_trans by metis
  then show ?thesis using h4(1) by simp
qed

lemma release_twice:
  assumes "rep h B" "release h p = Some h'"
  shows "release h' p = Some h'"
  using release_returns [OF assms(1), of p] release_other [of h' "B(p := None)" p] assms(2) by auto

end

definition heap_owns :: "heap \<Rightarrow> (u32 \<Rightarrow> nat option) \<Rightarrow> bool" where
  "heap_owns h B \<longleftrightarrow> (\<exists>A. heap_rep h A \<and> B = owned h A)"

lemma heap_owns_alloc:
  assumes "heap_owns h B"
  shows "(\<exists>p h'. heap_malloc h n = Some (p, h') \<and> p \<noteq> 0 \<and> unat p < 2147483648 \<and> B p = None \<and>
            heap_owns h' (B(p \<mapsto> blocks_of n)) \<and> same_frame h h') \<or> heap_malloc h n = Some (0, h)"
proof -
  obtain A where A: "heap_rep h A" "B = owned h A" using assms by (auto simp: heap_owns_def)
  have g: "heap_geometry h" using A(1) by (simp add: heap_rep_def)
  from heap_malloc_spec [OF A(1), of n] show ?thesis
  proof (elim disjE exE conjE)
    fix s h' assume m: "heap_malloc h n = Some (block_addr h s, h')" "n \<noteq> 0"
      and fit: "fits A (unat (ht_total (hp_table h))) (blocks_of n) s"
      and h': "heap_rep h' (A(s \<mapsto> blocks_of n))" "same_frame h h'"
    have s: "s < unat (ht_total (hp_table h))" "\<not> occupied A s"
      using fit blocks_of_pos [OF m(2)] by (auto simp: fits_def)
    then have "A s = None"
      using A(1) represents_allocD(1) occupiedI [of A s _ s]
      by (cases "A s") (auto simp: heap_rep_def)
    then have "B (block_addr h s) = None" by (simp add: A(2) owned_addr [OF g s(1)])
    moreover have "heap_owns h' (B(block_addr h s \<mapsto> blocks_of n))"
      using h' owned_update [OF g s(1)] owned_frame [OF h'(2)] by (auto simp: heap_owns_def A(2))
    ultimately show ?thesis using m h' block_addr_nonneg [OF g s(1)] by blast
  qed simp_all
qed

interpretation kernel: block_allocator heap_malloc heap_free 0 blocks_of heap_owns same_frame
proof
  fix h B n show "heap_owns h B \<Longrightarrow> \<exists>p h'. heap_malloc h n = Some (p, h')"
    using heap_owns_alloc by blast
next
  fix h B n h' show "heap_owns h B \<Longrightarrow> heap_malloc h n = Some (0, h') \<Longrightarrow> h' = h"
    using heap_owns_alloc [of h B n] by auto
next
  fix h B n p h'
  show "heap_owns h B \<Longrightarrow> heap_malloc h n = Some (p, h') \<Longrightarrow> p \<noteq> 0 \<Longrightarrow>
      B p = None \<and> heap_owns h' (B(p \<mapsto> blocks_of n)) \<and> same_frame h h'"
    using heap_owns_alloc [of h B n] by auto
next
  fix h B show "heap_owns h B \<Longrightarrow> B 0 = None"
    by (auto simp: heap_owns_def owned_def block_index_def)
next
  fix h B p k assume "heap_owns h B" "B p = Some k"
  then obtain A i where A: "heap_rep h A" "B = owned h A" "block_index h p = Some i" "A i = Some k"
    by (auto simp: heap_owns_def owned_def option_bind_Some_iff)
  have g: "heap_geometry h" using A(1) by (simp add: heap_rep_def)
  note p = block_addr_index [OF A(3) g]
  from heap_free_owned [OF A(1,4)] obtain h' where
    h': "heap_free h p = Some h'" "heap_rep h' (A(i := None))" "same_frame h h'"
    using p(2) by auto
  moreover have "B(p := None) = owned h' (A(i := None))"
    using owned_update [OF g p(1), of A None] owned_frame [OF h'(3)] p(2) A(2) by simp
  ultimately show "\<exists>h'. heap_free h p = Some h' \<and> heap_owns h' (B(p := None)) \<and> same_frame h h'"
    by (auto simp: heap_owns_def)
next
  fix h B p show "heap_owns h B \<Longrightarrow> B p = None \<Longrightarrow> heap_free h p = Some h"
    using heap_free_other by (auto simp: heap_owns_def)
next
  fix h B h' assume "heap_owns h B" "heap_owns h' B" and f: "same_frame h h'"
  then obtain A A' where A: "heap_rep h A" "B = owned h A" "heap_rep h' A'" "B = owned h' A'"
    by (auto simp: heap_owns_def)
  have "A i = A' i" for i
  proof (cases "i < unat (ht_total (hp_table h))")
    case True
    have g: "heap_geometry h" using A(1) by (simp add: heap_rep_def)
    then show ?thesis using owned_addr [OF g True] owned_frame [OF f] A(2,4) by metis
  next
    case False
    then have "A i = None" "A' i = None"
      using heap_rep_dom [OF A(1), of i] heap_rep_dom [OF A(3), of i] f
      by (cases "A i"; cases "A' i"; simp add: same_frame_def)+
    then show ?thesis by simp
  qed
  then have "A = A'" by (rule ext)
  then show "h = h'" using heap_rep_unique [OF A(1) _ f] A(3) by simp
qed (auto simp: same_frame_def)

section \<open>How much memory is left\<close>

text \<open>The number of free blocks; while there is one, a request of at most a block succeeds.\<close>

definition free_count :: "heap \<Rightarrow> nat" where
  "free_count h = (case ht_entries (hp_table h) of None \<Rightarrow> 0
     | Some es \<Rightarrow> length (filter (\<lambda>e. e AND 0x0F = HEAP_BLOCK_TABLE_ENTRY_FREE) es))"

lemma free_count_rep:
  "heap_rep h A \<Longrightarrow> free_count h = card {i. i < unat (ht_total (hp_table h)) \<and> \<not> occupied A i}"
proof (erule heap_repE)
  fix es assume es: "ht_entries (hp_table h) = Some es" "length es = unat (ht_total (hp_table h))" "represents es A"
  have "{i. i < length es \<and> es ! i AND 0x0F = 0} = {i. i < length es \<and> \<not> occupied A i}"
    using represents_free_iff [OF es(3)] by blast
  with es show ?thesis by (simp add: free_count_def length_filter_conv_card)
qed

lemma free_count_taken:
  assumes "heap_rep h A" "heap_rep h' (A(s \<mapsto> 1))" "same_frame h h'" "fits A (unat (ht_total (hp_table h))) 1 s"
  shows "free_count h = Suc (free_count h')"
proof -
  let ?n = "unat (ht_total (hp_table h))"
  have s: "s < ?n" "\<not> occupied A s" using assms(4) by (auto simp: fits_def)
  have "A s = None"
    using assms(1) s(2) represents_allocD(1) occupiedI [of A s _ s]
    by (cases "A s") (auto simp: heap_rep_def)
  then have "occupied (A(s \<mapsto> 1)) i \<longleftrightarrow> i = s \<or> occupied A i" for i
    unfolding occupied_def by (auto split: if_splits) 
  then have "{i. i < ?n \<and> \<not> occupied A i} = insert s {i. i < ?n \<and> \<not> occupied (A(s \<mapsto> 1)) i}"
    using s by auto
  moreover have "ht_total (hp_table h') = ht_total (hp_table h)" using assms(3) by (simp add: same_frame_def)
  ultimately show ?thesis
    using free_count_rep [OF assms(1)] free_count_rep [OF assms(2)] \<open>occupied (A(s \<mapsto> 1)) s \<longleftrightarrow> _\<close> by simp
qed

lemma heap_malloc_one_block:
  assumes "heap_rep h A" "0 < unat n" "unat n \<le> 4096" "0 < free_count h"
  shows "\<exists>s h'. heap_malloc h n = Some (block_addr h s, h') \<and> s < unat (ht_total (hp_table h)) \<and> A s = None \<and>
    heap_rep h' (A(s \<mapsto> 1)) \<and> same_frame h h' \<and> free_count h = Suc (free_count h')"
proof -
  have k: "blocks_of n = 1" using assms(2,3) by (simp add: blocks_of_def div_nat_eqI)
  have "n \<noteq> 0" using assms(2) by auto
  have "{i. i < unat (ht_total (hp_table h)) \<and> \<not> occupied A i} \<noteq> {}"
    using assms(4) free_count_rep [OF assms(1)] by (metis card.empty less_irrefl)
  then obtain i where "i < unat (ht_total (hp_table h))" "\<not> occupied A i" by blast
  then have "fits A (unat (ht_total (hp_table h))) 1 i" by (auto simp: fits_def le_less_Suc_eq)
  with heap_malloc_spec [OF assms(1), of n] k \<open>n \<noteq> 0\<close> assms(3) obtain s h' where
    m: "heap_malloc h n = Some (block_addr h s, h')" "fits A (unat (ht_total (hp_table h))) 1 s"
      "heap_rep h' (A(s \<mapsto> 1))" "same_frame h h'"
    by auto
  moreover have "s < unat (ht_total (hp_table h))" "\<not> occupied A s" using m(2) by (auto simp: fits_def)
  moreover have "A s = None" using assms(1) calculation represents_allocD(1) occupiedI [of A s _ s]
    by (cases "A s") (auto simp: heap_rep_def)
  ultimately show ?thesis using free_count_taken [OF assms(1) m(3,4,2)] by blast
qed

lemma heap_owns_one_block:
  assumes "heap_owns h B" "0 < unat n" "unat n \<le> 4096" "0 < free_count h"
  shows "\<exists>p h'. heap_malloc h n = Some (p, h') \<and> p \<noteq> 0 \<and> free_count h = Suc (free_count h')"
proof -
  obtain A where A: "heap_rep h A" "B = owned h A" using assms by (auto simp: heap_owns_def)
  have g: "heap_geometry h" using A(1) by (simp add: heap_rep_def)
  from heap_malloc_one_block [OF A(1) assms(2,3,4)] show ?thesis
    using block_addr_nonneg [OF g] by fastforce
qed

lemma heap_owns_free_count:
  assumes "heap_owns h (B(p \<mapsto> 1))" "heap_free h p = Some h'"
  shows "free_count h' = Suc (free_count h)"
proof -
  obtain A i where A: "heap_rep h A" "B(p \<mapsto> 1) = owned h A" "block_index h p = Some i" "A i = Some 1"
  proof -
    obtain A where A: "heap_rep h A" "B(p \<mapsto> 1) = owned h A" using assms(1) by (auto simp: heap_owns_def)
    from fun_cong [OF A(2), of p] have "owned h A p = Some 1" by simp
    then show thesis using that A by (auto simp: owned_def option_bind_Some_iff)
  qed
  have g: "heap_geometry h" using A(1) by (simp add: heap_rep_def)
  note p = block_addr_index [OF A(3) g]
  obtain h2 where h': "heap_free h p = Some h2" "heap_rep h2 (A(i := None))" "same_frame h h2"
    using heap_free_owned [OF A(1,4)] p(2) by auto
  then have h2: "h2 = h'" using assms(2) by simp
  have r: "heap_rep h ((A(i := None))(i \<mapsto> 1))" using A(1,4) by (simp add: fun_upd_idem)
  have fr: "same_frame h2 h" using h'(3) by (simp add: same_frame_def)
  have "\<not> occupied (A(i := None)) i"
  proof
    assume "occupied (A(i := None)) i"
    then obtain s n where s: "A s = Some n" "s \<noteq> i" "s \<le> i" "i < s + n"
      by (auto simp: occupied_def split: if_splits)
    obtain es where "represents es A" using A(1) by (rule heap_repE)
    from represents_disjoint [OF this s(1) A(4)] s show False by simp
  qed
  then have "fits (A(i := None)) (unat (ht_total (hp_table h2))) 1 i"
    using heap_rep_dom [OF A(1,4)] h'(3) by (auto simp: fits_def same_frame_def le_less_Suc_eq)
  from free_count_taken [OF h'(2) r fr this] show ?thesis by (simp add: h2)
qed

section \<open>Properties\<close>

lemma find_upt_least:
  "(\<exists>s. find P [0..<m] = Some s \<and> s < m \<and> P s \<and> (\<forall>r < s. \<not> P r)) \<or> (find P [0..<m] = None \<and> (\<forall>s < m. \<not> P s))"
  by (cases "find P [0..<m]") (auto simp: find_None_iff find_Some_iff)

lemma find_upt_eq:
  assumes "s < m" "P s" "\<forall>r < s. \<not> P r"
  shows "find P [0..<m] = Some s"
  using find_upt_least [of P m] assms by (metis linorder_neqE_nat)

lemma fits_bound: "fits A tot k s \<Longrightarrow> 0 < k \<Longrightarrow> s < tot"
  by (simp add: fits_def)

lemma represents_empty: "represents (replicate n 0) Map.empty"
  by (simp add: represents_def)

definition fresh_heap :: "u32 \<Rightarrow> nat \<Rightarrow> heap" where
  "fresh_heap start n =
     \<lparr>hp_table = \<lparr>ht_entries = Some (replicate n 0), ht_total = of_nat n\<rparr>, hp_saddr = start\<rparr>"

lemma fresh_heap_rep:
  assumes "start \<noteq> 0" "\<not> validate_alignment start" "unat start + 4096 * n \<le> 2147483648"
  shows "heap_rep (fresh_heap start n) Map.empty"
  using assms by (simp add: heap_rep_def heap_geometry_def fresh_heap_def represents_empty unat_of_nat_small)

lemma fresh_heap_owns:
  assumes "start \<noteq> 0" "\<not> validate_alignment start" "unat start + 4096 * n \<le> 2147483648"
  shows "heap_owns (fresh_heap start n) Map.empty"
  unfolding heap_owns_def
  by (intro exI [of _ Map.empty] conjI fresh_heap_rep [OF assms])
    (simp add: owned_def fun_eq_iff split: option.split)

lemma owned_empty: "owned h Map.empty = Map.empty"
  by (auto simp: owned_def fun_eq_iff split: option.split)

lemma heap_create_ok:
  assumes "start \<noteq> 0" "\<not> validate_alignment start" "\<not> validate_alignment stop" "start \<le> stop"
    "unat stop \<le> 2147483648" "(stop - start) div 4096 = ht_total t"
    "ht_entries t = Some es" "length es = unat (ht_total t)"
  shows "heap_create (Some h0) start stop (Some t) = Some (0, Some (fresh_heap start (length es)))
    \<and> heap_rep (fresh_heap start (length es)) Map.empty"
proof
  have "memset (Some es) 0 (ht_total t) = Some (Some (replicate (length es) 0))"
    using assms(8) by (simp add: memset_def memset_loop_fill)
  then show "heap_create (Some h0) start stop (Some t) = Some (0, Some (fresh_heap start (length es)))"
    using assms by (simp add: heap_create_def heap_validate_table_def fresh_heap_def Let_def not_less)
  have "unat (stop - start) = unat stop - unat start" using assms(4) by (rule unat_sub)
  then have "length es = (unat stop - unat start) div 4096"
    using assms(8) by (simp add: unat_div flip: assms(6))
  then have "4096 * length es \<le> unat stop - unat start" by simp
  moreover have "unat start \<le> unat stop" using assms(4) by (simp add: word_le_nat_alt)
  ultimately show "heap_rep (fresh_heap start (length es)) Map.empty"
    using assms by (intro fresh_heap_rep) auto
qed

text \<open>
  \<open>heap_create\<close> on aligned bounds that match the table's size succeeds whatever the
  table held before, and the heap it makes has no allocation at all.
\<close>

theorem heap_create_fresh:
  assumes "start \<noteq> 0" "\<not> validate_alignment start" "\<not> validate_alignment stop" "start \<le> stop"
    "unat stop \<le> 2147483648" "(stop - start) div 4096 = ht_total t"
    "ht_entries t = Some es" "length es = unat (ht_total t)"
  shows "heap_create (Some h0) start stop (Some t) = Some (0, Some (fresh_heap start (length es)))
    \<and> heap_rep (fresh_heap start (length es)) Map.empty"
  by (rule heap_create_ok [OF assms])

theorem heap_create_fresh_witness:
  "heap_create (Some (fresh_heap 0 0)) 0x1000 0x3000 (Some \<lparr>ht_entries = Some [7, 1], ht_total = 2\<rparr>)
     = Some (0, Some (fresh_heap 0x1000 (length [7, 1 :: u8])))
   \<and> heap_rep (fresh_heap 0x1000 (length [7, 1 :: u8])) Map.empty"
  by (rule heap_create_fresh) (simp_all add: validate_alignment_def)

text \<open>
  The scan is first fit and complete: it returns the lowest block at which the
  requested number of free blocks fits, and \<open>-ENOMEM\<close> only when there is none.
\<close>

theorem heap_get_start_block_first_fit:
  assumes "heap_rep h A" "0 < unat n"
  shows "heap_get_start_block h n = Some (case find (fits A (unat (ht_total (hp_table h))) (unat n))
      [0..<unat (ht_total (hp_table h))] of None \<Rightarrow> - ENOMEM | Some s \<Rightarrow> int s)"
  using heap_get_start_block_spec [OF assms]
proof (elim disjE exE conjE)
  fix s assume "heap_get_start_block h n = Some (int s)"
    and s: "fits A (unat (ht_total (hp_table h))) (unat n) s"
      "\<forall>r < s. \<not> fits A (unat (ht_total (hp_table h))) (unat n) r"
  with find_upt_eq [OF fits_bound [OF s(1) assms(2)] s] show ?thesis by simp
next
  assume "heap_get_start_block h n = Some (- ENOMEM)"
    "\<forall>s. \<not> fits A (unat (ht_total (hp_table h))) (unat n) s"
  then show ?thesis by (auto simp: find_None_iff find_Some_iff split: option.split)
qed

theorem heap_get_start_block_first_fit_witness:
  "heap_get_start_block (fresh_heap 0x1000 3) 2 =
     Some (case find (fits Map.empty (unat (ht_total (hp_table (fresh_heap 0x1000 3)))) (unat (2 :: u32)))
      [0..<unat (ht_total (hp_table (fresh_heap 0x1000 3)))] of None \<Rightarrow> - ENOMEM | Some s \<Rightarrow> int s)"
  by (rule heap_get_start_block_first_fit) (simp_all add: fresh_heap_rep validate_alignment_def)

text \<open>
  C2. Refinement of \<open>heap_malloc\<close>: from a heap that owns \<open>B\<close>, a call either returns null
  and leaves the heap as it was, or returns a non-null address with a clear sign bit that
  was not allocated, and the new heap owns \<open>B\<close> extended by that address with the
  requested size rounded up to blocks.
\<close>

theorem heap_malloc_refines:
  assumes "heap_owns h B"
  shows "heap_malloc h n = Some (0, h) \<or>
    (\<exists>p h'. heap_malloc h n = Some (p, h') \<and> p \<noteq> 0 \<and> 0 \<le> to_int p \<and> B p = None \<and>
       heap_owns h' (B(p \<mapsto> (unat n + 4095) div 4096)))"
  using heap_owns_alloc [OF assms, of n] unfolding blocks_of_def by (auto simp: to_int_small)

theorem heap_malloc_refines_witness:
  "heap_malloc (fresh_heap 0x1000 3) 5000 = Some (0, fresh_heap 0x1000 3) \<or>
    (\<exists>p h'. heap_malloc (fresh_heap 0x1000 3) 5000 = Some (p, h') \<and> p \<noteq> 0 \<and> 0 \<le> to_int p \<and> Map.empty p = (None :: nat option) \<and>
       heap_owns h' (Map.empty(p \<mapsto> (unat (5000 :: u32) + 4095) div 4096)))"
  by (rule heap_malloc_refines) (simp add: fresh_heap_owns validate_alignment_def)

text \<open>
  C34. \<open>heap_malloc\<close> succeeds whenever the rounded size fits somewhere, and a size of 0 or
  one that would wrap around when it is rounded up to a block gets null.
\<close>

theorem heap_malloc_succeeds_iff:
  assumes "heap_rep h A"
  shows "(\<exists>p h'. heap_malloc h n = Some (p, h') \<and> p \<noteq> 0) \<longleftrightarrow>
    n \<noteq> 0 \<and> unat n \<le> 4294963200 \<and> (\<exists>s. fits A (unat (ht_total (hp_table h))) ((unat n + 4095) div 4096) s)"
proof -
  have g: "heap_geometry h" using assms by (simp add: heap_rep_def)
  from heap_malloc_spec [OF assms, of n] show ?thesis
    unfolding blocks_of_def [symmetric]
  proof (elim disjE exE conjE)
    fix s h' assume "heap_malloc h n = Some (block_addr h s, h')" "n \<noteq> 0" "unat n \<le> 4294963200"
      and s: "fits A (unat (ht_total (hp_table h))) (blocks_of n) s"
    then show "(\<exists>p h'. heap_malloc h n = Some (p, h') \<and> p \<noteq> 0) \<longleftrightarrow> n \<noteq> 0 \<and> unat n \<le> 4294963200 \<and>
        (\<exists>s. fits A (unat (ht_total (hp_table h))) (blocks_of n) s)"
      using block_addr_nonneg(1) [OF g fits_bound [OF s blocks_of_pos]] by auto
  qed auto
qed

theorem heap_malloc_succeeds_iff_witness:
  "(\<exists>p h'. heap_malloc (fresh_heap 0x1000 3) 4294967295 = Some (p, h') \<and> p \<noteq> 0) \<longleftrightarrow>
    (4294967295 :: u32) \<noteq> 0 \<and> unat (4294967295 :: u32) \<le> 4294963200 \<and>
    (\<exists>s. fits Map.empty (unat (ht_total (hp_table (fresh_heap 0x1000 3)))) ((unat (4294967295 :: u32) + 4095) div 4096) s)"
  by (rule heap_malloc_succeeds_iff) (simp add: fresh_heap_rep validate_alignment_def)

text \<open>
  C7. Refinement of \<open>heap_free\<close>: it always returns, removes exactly the allocation that
  starts at the pointer, and leaves the heap untouched for every other pointer (null,
  unaligned, outside the heap, inside an allocation, already freed).
\<close>

theorem heap_free_refines:
  assumes "heap_owns h B"
  shows "\<exists>h'. heap_free h p = Some h' \<and> heap_owns h' (B(p := None)) \<and> (B p = None \<longrightarrow> h' = h)"
  using kernel.release_returns [OF assms, of p] kernel.release_other [OF assms, of p] by auto

theorem heap_free_refines_witness:
  "\<exists>h'. heap_free (fresh_heap 0x1000 3) 0x2000 = Some h' \<and> heap_owns h' (Map.empty(0x2000 := None))
     \<and> (Map.empty (0x2000 :: u32) = (None :: nat option) \<longrightarrow> h' = fresh_heap 0x1000 3)"
  by (rule heap_free_refines) (simp add: fresh_heap_owns validate_alignment_def)

text \<open>
  C23. Allocating and freeing leaves no trace: the table is byte for byte what it was, a
  second free of the same pointer changes nothing, and two allocations may be freed in
  either order.
\<close>

theorem heap_alloc_free_roundtrip:
  assumes "heap_owns h B" "heap_malloc h n = Some (p, h1)" "p \<noteq> 0"
    "heap_malloc h1 m = Some (q, h2)" "q \<noteq> 0" "heap_free h2 p = Some h3"
  shows "heap_free h1 p = Some h \<and> heap_free h p = Some h \<and> heap_free h2 q = Some h1 \<and> heap_free h3 q = Some h"
proof -
  have r1: "heap_owns h1 (B(p \<mapsto> blocks_of n))" and Bp: "B p = None"
    using kernel.alloc_rep [OF assms(1-3)] by simp_all
  show ?thesis
    using kernel.alloc_release [OF assms(1,2)] kernel.release_other [OF assms(1) Bp]
      kernel.alloc_release [OF r1 assms(4)] kernel.release_swap [OF assms(1,2,4,3,5,6)] by blast
qed

theorem heap_alloc_free_roundtrip_witness:
  "\<exists>h1 h2 h3. heap_owns (fresh_heap 0x1000 3) Map.empty \<and>
     heap_malloc (fresh_heap 0x1000 3) 5000 = Some (0x1000, h1) \<and> heap_malloc h1 1 = Some (0x3000, h2) \<and>
     heap_free h2 0x1000 = Some h3 \<and> heap_free h3 0x3000 = Some (fresh_heap 0x1000 3)"
proof -
  let ?h = "\<lambda>es. \<lparr>hp_table = \<lparr>ht_entries = Some es, ht_total = 3\<rparr>, hp_saddr = 0x1000\<rparr>"
  have o: "heap_owns (fresh_heap 0x1000 3) Map.empty"
    by (simp add: fresh_heap_owns validate_alignment_def)
  have a: "heap_malloc (fresh_heap 0x1000 3) 5000 = Some (0x1000, ?h [0xC1, 1, 0])" by code_simp
  have b: "heap_malloc (?h [0xC1, 1, 0]) 1 = Some (0x3000, ?h [0xC1, 1, 0x41])" by code_simp
  have c: "heap_free (?h [0xC1, 1, 0x41]) 0x1000 = Some (?h [0, 0, 0x41])" by code_simp
  show ?thesis
    using o a b c heap_alloc_free_roundtrip [OF o a _ b _ c] by auto
qed

end
