(* ===== verification/C_String.thy ===== *)
theory C_String
  imports Base
begin

text \<open>
  \<open>src/string/string.c\<close>. A \<open>const char*\<close> is the list of the bytes from the pointer to the
  end of the object it points into (\<open>None\<close> for the null pointer where a function tests
  for it); reading past that end has no result. \<open>cstr\<close> is the string such a buffer holds.
\<close>

section \<open>The strings in a buffer\<close>

definition cstr :: "u8 list \<Rightarrow> u8 list" where
  "cstr bs = takeWhile (\<lambda>c. c \<noteq> 0) bs"

definition terminated :: "u8 list \<Rightarrow> bool" where
  "terminated bs = List.member bs 0"

lemma cstr_Nil [simp]: "cstr [] = []"
  by (simp add: cstr_def)

lemma cstr_Cons [simp]: "cstr (c # cs) = (if c = 0 then [] else c # cstr cs)"
  by (simp add: cstr_def)

lemma terminated_Nil [simp]: "\<not> terminated []"
  by (simp add: terminated_def)

lemma terminated_Cons [simp]: "terminated (c # cs) \<longleftrightarrow> c = 0 \<or> terminated cs"
  by (auto simp: terminated_def)

lemma terminated_append0: "terminated (xs @ 0 # ys)"
  by (simp add: terminated_def)

lemma cstr_append0: "0 \<notin> set xs \<Longrightarrow> cstr (xs @ 0 # ys) = xs"
  by (induction xs) auto

lemma cstr_no_nul: "0 \<notin> set (cstr bs)"
  by (induction bs) auto

lemma terminated_split: "terminated bs \<Longrightarrow> \<exists>ys. bs = cstr bs @ 0 # ys"
  by (induction bs) auto

section \<open>Operations\<close>

fun strlen_loop :: "u8 list \<Rightarrow> int \<Rightarrow> int option" where
  "strlen_loop [] len = None"
| "strlen_loop (c # cs) len =
     (if c \<noteq> 0 then (if len + 1 > 1000 then Some (- ENOMEM) else strlen_loop cs (len + 1))
      else Some len)"

definition strlen :: "u8 list option \<Rightarrow> int option" where
  "strlen str = (case str of None \<Rightarrow> Some (- EINVARG) | Some bs \<Rightarrow> strlen_loop bs 0)"

definition strnlen :: "u8 list option \<Rightarrow> int \<Rightarrow> int option" where
  "strnlen str maxlen =
     (if str = None \<or> maxlen < 0 then Some (- EINVARG)
      else do { len \<leftarrow> strlen str;
                if len > maxlen \<or> len = - ENOMEM then Some maxlen else Some len })"

definition isdigit :: "u8 \<Rightarrow> bool" where
  "isdigit c = (\<not> (sint c < 48 \<or> sint c > 57))"

definition tonumericdigit :: "u8 \<Rightarrow> int" where
  "tonumericdigit c = (if \<not> isdigit c then - EINVARG else sint c - 48)"

fun strcpy_loop :: "u8 list \<Rightarrow> nat \<Rightarrow> u8 list \<Rightarrow> u8 list option" where
  "strcpy_loop dest i [] = None"
| "strcpy_loop dest i (c # cs) =
     (if c \<noteq> 0 then do { d \<leftarrow> put_idx dest i c; strcpy_loop d (Suc i) cs }
      else put_idx dest i 0)"

definition strcpy :: "u8 list \<Rightarrow> u8 list \<Rightarrow> u8 list option" where
  "strcpy dest src = strcpy_loop dest 0 src"

fun strncmp_loop :: "u8 list \<Rightarrow> u8 list \<Rightarrow> nat \<Rightarrow> int option" where
  "strncmp_loop s1 s2 0 = Some 0"
| "strncmp_loop s1 s2 (Suc n) = (case (s1, s2) of
       (u1 # s1', u2 # s2') \<Rightarrow>
         if u1 \<noteq> u2 then Some (uint u1 - uint u2)
         else if u1 = 0 then Some 0 else strncmp_loop s1' s2' n
     | _ \<Rightarrow> None)"

definition strncmp :: "u8 list \<Rightarrow> u8 list \<Rightarrow> int \<Rightarrow> int option" where
  "strncmp str1 str2 count = strncmp_loop str1 str2 (nat count)"

fun strnlen_terminator_loop :: "u8 list \<Rightarrow> int \<Rightarrow> u8 \<Rightarrow> int \<Rightarrow> int option" where
  "strnlen_terminator_loop [] limit terminator len = None"
| "strnlen_terminator_loop (c # cs) limit terminator len =
     (if c \<noteq> 0 \<and> c \<noteq> terminator
      then (if len + 1 = limit then Some (len + 1)
            else strnlen_terminator_loop cs limit terminator (len + 1))
      else Some len)"

definition strnlen_terminator :: "u8 list \<Rightarrow> int \<Rightarrow> u8 \<Rightarrow> int option" where
  "strnlen_terminator str limit terminator = strnlen_terminator_loop str limit terminator 0"

definition tolower :: "u8 \<Rightarrow> u8" where
  "tolower c = (if sint c \<ge> 65 \<and> sint c \<le> 90 then c + 32 else c)"

fun istrncmp_loop :: "u8 list \<Rightarrow> u8 list \<Rightarrow> nat \<Rightarrow> int option" where
  "istrncmp_loop s1 s2 0 = Some 0"
| "istrncmp_loop s1 s2 (Suc n) = (case (s1, s2) of
       (u1 # s1', u2 # s2') \<Rightarrow>
         if u1 \<noteq> u2 \<and> tolower u1 \<noteq> tolower u2 then Some (uint u1 - uint u2)
         else if u1 = 0 then Some 0 else istrncmp_loop s1' s2' n
     | _ \<Rightarrow> None)"

definition istrncmp :: "u8 list \<Rightarrow> u8 list \<Rightarrow> int \<Rightarrow> int option" where
  "istrncmp s1 s2 n = istrncmp_loop s1 s2 (nat n)"

section \<open>Lengths and copies\<close>

lemma strlen_loop_eq:
  "terminated bs \<Longrightarrow> len \<le> 1000 \<Longrightarrow> strlen_loop bs len =
     Some (if len + int (length (cstr bs)) \<le> 1000 then len + int (length (cstr bs)) else - ENOMEM)"
  by (induction bs arbitrary: len) auto

lemma strlen_loop_unterminated_long:
  "1000 - len < int (length (cstr bs)) \<Longrightarrow> len \<le> 1000 \<Longrightarrow> strlen_loop bs len = Some (- ENOMEM)"
  by (induction bs arbitrary: len) (auto split: if_splits)

lemma strlen_eq:
  "terminated bs \<Longrightarrow> strlen (Some bs) =
     Some (if length (cstr bs) \<le> 1000 then int (length (cstr bs)) else - ENOMEM)"
  by (simp add: strlen_def strlen_loop_eq)

lemma strcpy_loop_eq:
  "terminated src \<Longrightarrow> i + length (cstr src) < length dest \<Longrightarrow>
   strcpy_loop dest i src =
     Some (take i dest @ cstr src @ 0 # drop (Suc (i + length (cstr src))) dest)"
proof (induction src arbitrary: i dest)
  case Nil
  then show ?case by simp
next
  case (Cons c cs)
  show ?case
  proof (cases "c = 0")
    case True
    with Cons.prems show ?thesis by (simp add: buf upd_conv_take_nth_drop)
  next
    case False
    with Cons.prems have "strcpy_loop (dest[i := c]) (Suc i) cs =
        Some (take (Suc i) (dest[i := c]) @ cstr cs @ 0 # drop (Suc (Suc i + length (cstr cs))) (dest[i := c]))"
      by (intro Cons.IH) simp_all
    with False Cons.prems show ?thesis by (simp add: buf take_Suc_conv_app_nth)
  qed
qed

section \<open>The bounded comparisons\<close>

text \<open>
  \<open>strncmp\<close> and \<open>istrncmp\<close> share one contract: they compare two strings up to a bound
  through a canonical form of their characters that only the terminator maps to zero.
\<close>

locale bounded_compare =
  fixes canon :: "u8 \<Rightarrow> u8"
    and cmp :: "u8 list \<Rightarrow> u8 list \<Rightarrow> nat \<Rightarrow> int option"
  assumes canon_zero: "canon x = 0 \<longleftrightarrow> x = 0"
    and cmp_0: "cmp a b 0 = Some 0"
    and cmp_Suc: "cmp (x # a) (y # b) (Suc n) =
      (if canon x \<noteq> canon y then Some (uint x - uint y) else if x = 0 then Some 0 else cmp a b n)"
begin

lemma cmp_zero_iff:
  "terminated a \<Longrightarrow> terminated b \<Longrightarrow>
   \<exists>r. cmp a b n = Some r \<and> (r = 0 \<longleftrightarrow> map canon (take n (cstr a)) = map canon (take n (cstr b)))"
proof (induction n arbitrary: a b)
  case 0
  then show ?case by (simp add: cmp_0)
next
  case (Suc n)
  from Suc.prems obtain x a' y b' where ab: "a = x # a'" "b = y # b'"
    by (cases a; cases b) auto
  have xy: "uint x = uint y \<longleftrightarrow> x = y" by (metis word_of_int_uint)
  from Suc.prems ab have "x \<noteq> 0 \<Longrightarrow> y \<noteq> 0 \<Longrightarrow> terminated a' \<and> terminated b'" by simp
  with Suc.IH [of a' b'] canon_zero [of x] canon_zero [of y] xy show ?case
    by (auto simp: ab cmp_Suc)
qed

lemma cmp_equal_strings:
  assumes "terminated a" "terminated b" "length (cstr a) \<le> n" "length (cstr b) \<le> n"
  shows "cmp a b n = Some 0 \<longleftrightarrow> map canon (cstr a) = map canon (cstr b)"
  using cmp_zero_iff [OF assms(1,2), of n] assms(3,4) by auto

end

lemma tolower_zero: "tolower x = 0 \<longleftrightarrow> x = 0"
proof -
  have "sint x \<ge> 65 \<and> sint x \<le> 90 \<Longrightarrow> x + 32 \<noteq> 0"
  proof
    assume s: "sint x \<ge> 65 \<and> sint x \<le> 90" and "x + 32 = 0"
    then have "x = - 32" by (simp add: eq_neg_iff_add_eq_0)
    with s show False by simp
  qed
  then show ?thesis by (auto simp: tolower_def)
qed

interpretation exact: bounded_compare "\<lambda>c. c" strncmp_loop
  by unfold_locales auto

interpretation nocase: bounded_compare tolower istrncmp_loop
  by unfold_locales (auto simp: tolower_zero)

text \<open>
  What equality up to case means is stated without \<open>tolower\<close>: the same byte, or a letter
  of the alphabet in its two cases.
\<close>

definition letter_cases :: "(u8 \<times> u8) list" where
  "letter_cases = map (\<lambda>(u, l). (of_char u, of_char l))
     (zip ''ABCDEFGHIJKLMNOPQRSTUVWXYZ'' ''abcdefghijklmnopqrstuvwxyz'')"

definition same_letter :: "u8 \<Rightarrow> u8 \<Rightarrow> bool" where
  "same_letter c d \<longleftrightarrow> c = d \<or> (c, d) \<in> set letter_cases \<or> (d, c) \<in> set letter_cases"

definition same_text :: "u8 list \<Rightarrow> u8 list \<Rightarrow> bool" where
  "same_text xs ys \<longleftrightarrow> list_all2 same_letter xs ys"

lemma letter_cases_iff:
  "(c, d) \<in> set letter_cases \<longleftrightarrow> 65 \<le> sint c \<and> sint c \<le> 90 \<and> d = c + 32"
proof
  assume "(c, d) \<in> set letter_cases"
  then show "65 \<le> sint c \<and> sint c \<le> 90 \<and> d = c + 32" by (auto simp: letter_cases_def)
next
  assume h: "65 \<le> sint c \<and> sint c \<le> 90 \<and> d = c + 32"
  then have "nat (sint c) \<in> set [65..<91]"
    by (simp only: set_upt atLeastLessThan_iff) linarith
  moreover have "\<forall>i \<in> set [65..<91]. (word_of_nat i, word_of_nat i + 32) \<in> set letter_cases"
    by (simp add: letter_cases_def upt_rec)
  ultimately have "(word_of_nat (nat (sint c)), word_of_nat (nat (sint c)) + 32) \<in> set letter_cases" by blast
  then show "(c, d) \<in> set letter_cases" using h by simp
qed

lemma sint_lower: "65 \<le> sint c \<and> sint c \<le> 90 \<Longrightarrow> sint (c + 32 :: u8) = sint c + 32"
  by (simp add: sint_word_ariths signed_take_bit_int_eq_self)

lemma same_letter_tolower: "same_letter c d \<longleftrightarrow> tolower c = tolower d"
  using sint_lower [of c] sint_lower [of d]
  by (auto simp: same_letter_def letter_cases_iff tolower_def)

lemma same_text_tolower: "same_text xs ys \<longleftrightarrow> map tolower xs = map tolower ys"
proof -
  have "same_letter = (\<lambda>c d. tolower c = tolower d)" by (intro ext) (rule same_letter_tolower)
  then show ?thesis
    unfolding same_text_def by (simp add: list_eq_iff_nth_eq list_all2_conv_all_nth) (metis nth_map)
qed

text \<open>
  On a terminated string \<open>strlen\<close> returns the number of bytes before the terminator
  when there are at most 1000 of them, and \<open>-ENOMEM\<close> when there are more.
\<close>

theorem strlen_correct:
  assumes "terminated bs"
  shows "strlen (Some bs) =
    Some (if length (cstr bs) \<le> 1000 then int (length (cstr bs)) else - ENOMEM)"
  using assms by (rule strlen_eq)

theorem strlen_correct_witness:
  "terminated [97, 98, 0, 99] \<and> strlen (Some [97, 98, 0, 99]) = Some 2"
  using strlen_correct [of "[97, 98, 0, 99]"] by simp

text \<open>
  \<open>strcpy\<close> into a buffer that has room for the string and its terminator writes
  exactly these bytes, leaves the rest of the buffer alone, and the copy reads back as
  the same string.
\<close>

theorem strcpy_roundtrip:
  assumes "terminated src" "length (cstr src) < length dest"
  shows "\<exists>d. strcpy dest src = Some d \<and> length d = length dest \<and> terminated d
    \<and> cstr d = cstr src \<and> drop (Suc (length (cstr src))) d = drop (Suc (length (cstr src))) dest"
proof -
  let ?d = "cstr src @ 0 # drop (Suc (length (cstr src))) dest"
  have "strcpy dest src = Some ?d"
    using strcpy_loop_eq [of src 0 dest] assms by (simp add: strcpy_def)
  then show ?thesis
    using assms by (simp add: terminated_append0 cstr_append0 cstr_no_nul)
qed

theorem strcpy_roundtrip_witness:
  "\<exists>d. strcpy [9, 9, 9, 9] [97, 98, 0] = Some d \<and> length d = length [9, 9, 9, 9 :: u8] \<and> terminated d
    \<and> cstr d = cstr [97, 98, 0] \<and> drop (Suc (length (cstr [97, 98, 0]))) d
      = drop (Suc (length (cstr [97, 98, 0]))) [9, 9, 9, 9]"
  by (rule strcpy_roundtrip) simp_all

text \<open>
  C39. \<open>istrncmp\<close> always returns on two terminated strings, and it returns 0 exactly when
  their first \<open>n\<close> characters are the same up to the case of the letters A to Z.
\<close>

theorem istrncmp_correct:
  assumes "terminated a" "terminated b"
  shows "\<exists>r. istrncmp a b n = Some r \<and>
    (r = 0 \<longleftrightarrow> same_text (take (nat n) (cstr a)) (take (nat n) (cstr b)))"
  using nocase.cmp_zero_iff [OF assms] by (simp add: istrncmp_def same_text_tolower)

theorem istrncmp_correct_witness:
  "istrncmp (map of_char ''HELLO.TxZ'' @ [0]) (map of_char ''hello.tXz'' @ [0]) 108 = Some 0 \<and>
   (\<exists>r. istrncmp (map of_char ''[Z@'' @ [0]) (map of_char ''{z`'' @ [0]) 108 = Some r \<and> r \<noteq> 0)"
  using istrncmp_correct [of "map of_char ''HELLO.TxZ'' @ [0]" "map of_char ''hello.tXz'' @ [0]" 108]
    istrncmp_correct [of "map of_char ''[Z@'' @ [0]" "map of_char ''{z`'' @ [0]" 108]
  by (simp add: same_text_def same_letter_def letter_cases_def)

end
