(* ===== verification/Terminal.thy ===== *)
theory Terminal
  imports C_String
begin

text \<open>
  The VGA text terminal of \<open>src/kernel.c\<close> (lines 15 to 74). The video memory is a map
  from cell numbers, counted from \<open>VIDEO_MEM_ADDRESS\<close>, to 16-bit cells; the screen is the
  cells 0 to 1999, and nothing in the code keeps a write inside it. From cell 147456 on
  the cells are the kernel's own code and data (\<open>image_cell\<close>); \<open>write_cells\<close> lists the cells
  a text is written to, and the kernel has no result for a text that reaches them.
\<close>

section \<open>State and operations\<close>

abbreviation (input) VGA_HEIGHT :: nat where "VGA_HEIGHT \<equiv> 25"
abbreviation (input) VGA_WIDTH :: nat where "VGA_WIDTH \<equiv> 80"
abbreviation (input) VIDEO_MEM_ADDRESS :: u32 where "VIDEO_MEM_ADDRESS \<equiv> 0xB8000"
abbreviation (input) WHITE_COLOR :: u8 where "WHITE_COLOR \<equiv> 15"

record terminal =
  tm_video_mem :: u32
  tm_cells :: "nat \<Rightarrow> u16"
  tm_row :: u16
  tm_col :: u16

definition cfg_char_video :: "u8 \<Rightarrow> u8 \<Rightarrow> u16" where
  "cfg_char_video color data = push_bit 8 (scast color) OR scast data"

definition display_index :: "nat \<Rightarrow> nat \<Rightarrow> nat" where
  "display_index i j = i * VGA_WIDTH + j"

definition terminal_initialize :: "terminal \<Rightarrow> terminal" where
  "terminal_initialize t =
     \<lparr>tm_video_mem = VIDEO_MEM_ADDRESS,
      tm_cells = fold (\<lambda>i. fold (\<lambda>j cells. cells(display_index i j := cfg_char_video 0 0x20)) [0..<VGA_WIDTH])
                   [0..<VGA_HEIGHT] (tm_cells t),
      tm_row = 0, tm_col = 0\<rparr>"

definition terminal_putchar :: "u16 \<Rightarrow> u16 \<Rightarrow> u8 \<Rightarrow> u8 \<Rightarrow> terminal \<Rightarrow> terminal option" where
  "terminal_putchar x y c color t =
     (if tm_video_mem t = 0 then None
      else Some (t\<lparr>tm_cells := (tm_cells t)(display_index (unat y) (unat x) := cfg_char_video color c)\<rparr>))"

definition terminal_writechar :: "u8 \<Rightarrow> u8 \<Rightarrow> terminal \<Rightarrow> terminal option" where
  "terminal_writechar c color t = do {
     t1 \<leftarrow> (if c = 10 then Some (t\<lparr>tm_row := tm_row t + 1, tm_col := 0\<rparr>)
           else if c = 9 then Some (t\<lparr>tm_col := tm_col t + 4\<rparr>)
           else terminal_putchar (tm_col t) (tm_row t) c color (t\<lparr>tm_col := tm_col t + 1\<rparr>));
     Some (if tm_col t1 \<ge> 80 then t1\<lparr>tm_col := 0, tm_row := tm_row t1 + 1\<rparr> else t1) }"

text \<open>\<open>while (*(str++)) terminal_writechar(*str)\<close>, with \<open>str\<close> at the head of the list.\<close>

fun print_loop :: "u8 list \<Rightarrow> terminal \<Rightarrow> terminal option" where
  "print_loop [] t = None"
| "print_loop (c # cs) t =
     (if c \<noteq> 0 then (case cs of [] \<Rightarrow> None
        | d # _ \<Rightarrow> do { t1 \<leftarrow> terminal_writechar d WHITE_COLOR t; print_loop cs t1 })
      else Some t)"

definition print :: "u8 list \<Rightarrow> terminal \<Rightarrow> terminal option" where
  "print str t = do {
     c \<leftarrow> at_idx str 0;
     t1 \<leftarrow> terminal_writechar c WHITE_COLOR t;
     print_loop str t1 }"

section \<open>What they do\<close>

fun write_all :: "u8 list \<Rightarrow> terminal \<Rightarrow> terminal option" where
  "write_all [] t = Some t"
| "write_all (c # cs) t = do { t1 \<leftarrow> terminal_writechar c WHITE_COLOR t; write_all cs t1 }"

lemma print_loop_step:
  "c \<noteq> 0 \<Longrightarrow> print_loop (c # d # cs) t = Option.bind (terminal_writechar d WHITE_COLOR t) (print_loop (d # cs))"
  by simp

lemma print_loop_eq:
  "terminated (c # cs) \<Longrightarrow> print_loop (c # cs) t = (if c = 0 then Some t else write_all (cstr cs @ [0]) t)"
proof (induction cs arbitrary: c t)
  case Nil
  then show ?case by simp
next
  case (Cons d cs)
  show ?case
  proof (cases "c = 0")
    case False
    with Cons.prems have "terminated (d # cs)" by simp
    from Cons.IH [OF this] have IH: "print_loop (d # cs) =
        (\<lambda>t. if d = 0 then Some t else write_all (cstr cs @ [0]) t)" by (rule ext)
    show ?thesis unfolding print_loop_step [OF False] IH using False
      by (cases "terminal_writechar d WHITE_COLOR t") auto
  qed simp
qed

lemma print_eq: "terminated str \<Longrightarrow> print str t = write_all (cstr str @ [0]) t"
proof (cases str)
  case (Cons c cs)
  assume "terminated str"
  then show ?thesis
    using print_loop_eq [of c cs] unfolding Cons print_def
    by (cases "terminal_writechar c WHITE_COLOR t") (auto simp: buf)
qed simp

lemma u16_plus4: "unat (w :: u16) < 80 \<Longrightarrow> unat (w + 4) = unat w + 4" "unat (w :: u16) < 80 \<Longrightarrow> unat (w + 1) = unat w + 1"
  by (simp_all add: unat_word_ariths)

lemma terminal_writechar_ok:
  assumes "tm_video_mem t \<noteq> 0" "unat (tm_col t) < 80"
  shows "\<exists>t'. terminal_writechar c color t = Some t' \<and> tm_video_mem t' = tm_video_mem t \<and> unat (tm_col t') < 80 \<and>
    (\<forall>k. k \<noteq> display_index (unat (tm_row t)) (unat (tm_col t)) \<longrightarrow> tm_cells t' k = tm_cells t k)"
  using assms by (auto simp: terminal_writechar_def terminal_putchar_def word_le_nat_alt)

lemma write_all_ok:
  "tm_video_mem t \<noteq> 0 \<Longrightarrow> unat (tm_col t) < 80 \<Longrightarrow>
   \<exists>t'. write_all cs t = Some t' \<and> tm_video_mem t' = tm_video_mem t \<and> unat (tm_col t') < 80"
proof (induction cs arbitrary: t)
  case (Cons c cs)
  from terminal_writechar_ok [OF Cons.prems, of c WHITE_COLOR] obtain t1 where
    t1: "terminal_writechar c WHITE_COLOR t = Some t1" "tm_video_mem t1 = tm_video_mem t" "unat (tm_col t1) < 80"
    by blast
  with Cons.IH [of t1] Cons.prems show ?case by auto
qed simp

text \<open>
  The cursor as a cell number. Text without tabs and newlines fills the cells from the
  cursor on, over the ends of lines and past the last line of the screen.
\<close>

definition cursor :: "terminal \<Rightarrow> nat" where
  "cursor t = display_index (unat (tm_row t)) (unat (tm_col t))"

definition fill :: "nat \<Rightarrow> u8 list \<Rightarrow> (nat \<Rightarrow> u16) \<Rightarrow> nat \<Rightarrow> u16" where
  "fill p cs f = (\<lambda>k. if p \<le> k \<and> k < p + length cs then cfg_char_video WHITE_COLOR (cs ! (k - p)) else f k)"

lemma fill_Cons: "fill p (c # cs) f = fill (Suc p) cs (f(p := cfg_char_video WHITE_COLOR c))"
  by (auto simp: fill_def fun_eq_iff nth_Cons' Suc_diff_Suc not_less_eq_eq le_eq_less_or_eq intro!: arg_cong [where f = "(!) cs"])

lemma cursor_next:
  assumes "unat (col :: u16) < 80" "display_index (unat (row :: u16)) (unat col) + 1 < 80 * 65536"
  shows "cursor \<lparr>tm_video_mem = v, tm_cells = f, tm_row = (if col + 1 \<ge> 80 then row + 1 else row), tm_col = (if col + 1 \<ge> 80 then 0 else col + 1)\<rparr> =
    display_index (unat row) (unat col) + 1"
proof -
  note c = u16_plus4(2) [OF assms(1)]
  have r: "unat (row + 1) = unat row + 1" if "unat col = 79"
    using that assms(2) by (subst unat_add_lem [THEN iffD1]) (simp_all add: display_index_def)
  have "col + 1 \<ge> 80 \<longleftrightarrow> unat col = 79" using c assms(1) by (auto simp: word_le_nat_alt)
  then show ?thesis using c r by (auto simp: cursor_def display_index_def)
qed

lemma writechar_fills:
  assumes "tm_video_mem t \<noteq> 0" "unat (tm_col t) < 80" "c \<noteq> 9" "c \<noteq> 10" "cursor t + 1 < 80 * 65536"
  shows "\<exists>t'. terminal_writechar c WHITE_COLOR t = Some t' \<and> tm_video_mem t' = tm_video_mem t \<and> unat (tm_col t') < 80 \<and>
    cursor t' = cursor t + 1 \<and> tm_cells t' = (tm_cells t)(cursor t := cfg_char_video WHITE_COLOR c)"
  using assms cursor_next [of "tm_col t" "tm_row t" "tm_video_mem t" "(tm_cells t)(cursor t := cfg_char_video WHITE_COLOR c)"]
  by (auto simp: terminal_writechar_def terminal_putchar_def word_le_nat_alt cursor_def)

lemma write_all_fills:
  assumes "tm_video_mem t \<noteq> 0" "unat (tm_col t) < 80" "\<forall>c \<in> set cs. c \<noteq> 9 \<and> c \<noteq> 10" "cursor t + length cs < 80 * 65536"
  shows "\<exists>t'. write_all cs t = Some t' \<and> cursor t' = cursor t + length cs \<and> unat (tm_col t') < 80 \<and>
    tm_cells t' = fill (cursor t) cs (tm_cells t)"
  using assms
proof (induction cs arbitrary: t)
  case Nil
  then show ?case by (auto simp: fill_def fun_eq_iff)
next
  case (Cons c cs)
  obtain t1 where t1: "terminal_writechar c WHITE_COLOR t = Some t1" "tm_video_mem t1 = tm_video_mem t" "unat (tm_col t1) < 80"
    "cursor t1 = cursor t + 1" "tm_cells t1 = (tm_cells t)(cursor t := cfg_char_video WHITE_COLOR c)"
    using writechar_fills [OF Cons.prems(1,2), of c] Cons.prems(3,4) by auto
  then show ?case using Cons.IH [of t1] Cons.prems by (auto simp: fill_Cons fun_upd_def)
qed

text \<open>
  The linker puts the kernel image at 1 MB (\<open>linker.ld:11\<close>): a cell at or above that address
  is a piece of its code or its static variables.
\<close>

definition image_cell :: "nat \<Rightarrow> bool" where
  "image_cell k \<longleftrightarrow> 0x100000 \<le> 0xB8000 + 2 * k"

fun write_cells :: "u8 list \<Rightarrow> terminal \<Rightarrow> nat list" where
  "write_cells [] t = []"
| "write_cells (c # cs) t = (if c = 9 \<or> c = 10 then [] else [cursor t]) @
     (case terminal_writechar c WHITE_COLOR t of None \<Rightarrow> [] | Some t1 \<Rightarrow> write_cells cs t1)"

lemma writechar_frame:
  "terminal_writechar c WHITE_COLOR t = Some t1 \<Longrightarrow> k \<notin> set (if c = 9 \<or> c = 10 then [] else [cursor t]) \<Longrightarrow>
   tm_cells t1 k = tm_cells t k"
  by (auto simp: terminal_writechar_def terminal_putchar_def cursor_def option_bind_Some_iff split: if_splits)

lemma write_cells_frame:
  "write_all cs t = Some t' \<Longrightarrow> k \<notin> set (write_cells cs t) \<Longrightarrow> tm_cells t' k = tm_cells t k"
proof (induction cs arbitrary: t)
  case (Cons c cs)
  then obtain t1 where t1: "terminal_writechar c WHITE_COLOR t = Some t1" "write_all cs t1 = Some t'"
    by (auto simp: option_bind_Some_iff)
  then show ?case using writechar_frame [OF t1(1)] Cons.IH [OF t1(2)] Cons.prems(2) by simp
qed simp

lemma write_line:
  "tm_video_mem t \<noteq> 0 \<Longrightarrow> unat (tm_col t) + length line < 80 \<Longrightarrow> \<forall>c \<in> set line. c \<noteq> 9 \<and> c \<noteq> 10 \<Longrightarrow>
   \<exists>t'. write_all (line @ [10, 0]) t = Some t' \<and> tm_video_mem t' = tm_video_mem t \<and>
     tm_row t' = tm_row t + 1 \<and> tm_col t' = 1 \<and>
     write_cells (line @ [10, 0]) t = [cursor t..<cursor t + length line] @ [80 * unat (tm_row t + 1)]"
proof (induction line arbitrary: t)
  case Nil
  then show ?case
    by (simp add: terminal_writechar_def terminal_putchar_def cursor_def display_index_def word_le_nat_alt)
next
  case (Cons c cs)
  let ?t = "t\<lparr>tm_cells := (tm_cells t)(cursor t := cfg_char_video WHITE_COLOR c), tm_col := tm_col t + 1\<rparr>"
  have col: "unat (tm_col t + 1) = unat (tm_col t) + 1" using Cons.prems(2) by (intro u16_plus4(2)) simp
  then have "\<not> tm_col t + 1 \<ge> 80" using Cons.prems(2) by (simp add: word_le_nat_alt)
  then have w: "terminal_writechar c WHITE_COLOR t = Some ?t"
    using Cons.prems(1,3) by (simp add: terminal_writechar_def terminal_putchar_def cursor_def)
  have cu: "cursor ?t = cursor t + 1" using col by (simp add: cursor_def display_index_def)
  obtain t' where "write_all (cs @ [10, 0]) ?t = Some t'" "tm_video_mem t' = tm_video_mem t" "tm_row t' = tm_row t + 1"
    "tm_col t' = 1" "write_cells (cs @ [10, 0]) ?t = [cursor t + 1..<cursor t + 1 + length cs] @ [80 * unat (tm_row t + 1)]"
    using Cons.IH [of ?t] Cons.prems col unfolding cu by auto
  moreover have "[cursor t..<cursor t + length (c # cs)] = cursor t # [cursor t + 1..<cursor t + 1 + length cs]"
    by (simp add: upt_conv_Cons del: upt_Suc)
  ultimately show ?case using w Cons.prems(3) by (simp del: upt_Suc add.right_neutral)
qed

text \<open>A line of text stays below the kernel image exactly when it starts in one of the rows 0 to 1842.\<close>

lemma line_cells:
  assumes "unat (row :: u16) * 80 \<le> cu" "cu + n < unat row * 80 + 80" "0 < n"
  shows "list_all (\<lambda>k. \<not> image_cell k) ([cu..<cu + n] @ [80 * unat (row + 1)]) \<longleftrightarrow> unat row \<le> 1842"
proof
  assume r: "unat row \<le> 1842"
  then have "unat (row + 1) = unat row + 1" by (subst unat_add_lem [THEN iffD1]) simp_all
  then show "list_all (\<lambda>k. \<not> image_cell k) ([cu..<cu + n] @ [80 * unat (row + 1)])"
    using assms r by (auto simp: list_all_iff image_cell_def)
next
  assume h: "list_all (\<lambda>k. \<not> image_cell k) ([cu..<cu + n] @ [80 * unat (row + 1)])"
  then have "\<not> image_cell cu" "\<not> image_cell (80 * unat (row + 1))" using assms(3) by (auto simp: list_all_iff)
  moreover have "unat (row + 1) = unat row + 1" if "unat row = 1843"
    using that by (subst unat_add_lem [THEN iffD1]) simp_all
  ultimately show "unat row \<le> 1842" using assms(1) by (cases "unat row = 1843") (simp_all add: image_cell_def)
qed

lemma fold_fun_upd_const: "fold (\<lambda>j f. f(g j := v)) xs = (\<lambda>f k. if k \<in> g ` set xs then v else f k)"
  by (induction xs) (auto simp: fun_eq_iff)

lemma fold_rows: "fold (\<lambda>i f k. if k \<in> S i then v else f k) xs f = (\<lambda>k. if k \<in> (\<Union>i \<in> set xs. S i) then v else f k)"
  by (induction xs arbitrary: f) (auto simp: fun_eq_iff)

lemma screen_cells: "(\<Union>i \<in> {0..<25}. display_index i ` {0..<80}) = {0..<2000}"
proof (intro equalityI subsetI)
  fix k :: nat assume "k \<in> {0..<2000}"
  then have "k div 80 \<in> {0..<25}" "k mod 80 \<in> {0..<80}" "k = display_index (k div 80) (k mod 80)"
    by (auto simp: display_index_def)
  then show "k \<in> (\<Union>i \<in> {0..<25}. display_index i ` {0..<80})" by blast
qed (auto simp: display_index_def)

section \<open>Properties\<close>

text \<open>
  \<open>terminal_initialize\<close> blanks exactly the 2000 cells of the screen and puts the
  cursor in the top left corner.
\<close>

theorem terminal_initialize_clears:
  "tm_cells (terminal_initialize t) = (\<lambda>k. if k < 2000 then 0x0020 else tm_cells t k) \<and>
   tm_row (terminal_initialize t) = 0 \<and> tm_col (terminal_initialize t) = 0"
proof -
  have "(k \<in> (\<Union>i \<in> set [0..<VGA_HEIGHT]. display_index i ` set [0..<VGA_WIDTH])) \<longleftrightarrow> k < 2000" for k
    using screen_cells by simp
  moreover have "cfg_char_video 0 0x20 = 0x0020" by code_simp
  ultimately show ?thesis
    by (simp only: terminal_initialize_def fold_fun_upd_const fold_rows terminal.simps)
qed

text \<open>
  C40. Text without tabs and newlines is printed cell by cell from the cursor on, across the
  ends of lines, with one more cell for the terminating NUL, and the cursor moves by as
  many cells. No row is the last one: at the bottom of the screen the text goes on into
  the memory behind it, since nothing scrolls.
\<close>

theorem print_fills_cells:
  assumes "terminated str" "tm_video_mem t \<noteq> 0" "unat (tm_col t) < 80" "\<forall>c \<in> set (cstr str). c \<noteq> 9 \<and> c \<noteq> 10"
    "cursor t + length (cstr str) + 1 < 80 * 65536"
  shows "\<exists>t'. print str t = Some t' \<and> cursor t' = cursor t + length (cstr str) + 1 \<and> unat (tm_col t') < 80 \<and>
    tm_cells t' = fill (cursor t) (cstr str @ [0]) (tm_cells t)"
  using write_all_fills [OF assms(2,3), of "cstr str @ [0]"] assms(4,5) by (auto simp: print_eq [OF assms(1)])

definition bottom_corner :: terminal where
  "bottom_corner = \<lparr>tm_video_mem = 0xB8000, tm_cells = (\<lambda>_. 0), tm_row = 24, tm_col = 79\<rparr>"

theorem print_fills_cells_witness:
  "\<exists>t'. print [72, 105, 0] bottom_corner = Some t' \<and> cursor t' = cursor bottom_corner + length (cstr [72, 105, 0]) + 1 \<and>
    unat (tm_col t') < 80 \<and> tm_cells t' = fill (cursor bottom_corner) (cstr [72, 105, 0] @ [0]) (tm_cells bottom_corner)"
  by (rule print_fills_cells) (simp_all add: bottom_corner_def cursor_def display_index_def)

text \<open>
  \<open>print\<close> of a terminated string always returns once the terminal is set up, keeps the
  cursor column inside the line, and writes the bytes of the string followed by one more
  cell for the terminating NUL.
\<close>

theorem print_writes_string_and_nul:
  assumes "terminated str" "tm_video_mem t \<noteq> 0" "unat (tm_col t) < 80"
  shows "\<exists>t'. print str t = Some t' \<and> write_all (cstr str @ [0]) t = Some t' \<and> unat (tm_col t') < 80"
  using write_all_ok [OF assms(2,3), of "cstr str @ [0]"] print_eq [OF assms(1), of t] by auto

theorem print_writes_string_and_nul_witness:
  "\<exists>t'. print [72, 105, 10, 0] (terminal_initialize \<lparr>tm_video_mem = 0, tm_cells = (\<lambda>_. 0), tm_row = 7, tm_col = 9\<rparr>) = Some t' \<and>
     write_all (cstr [72, 105, 10, 0] @ [0]) (terminal_initialize \<lparr>tm_video_mem = 0, tm_cells = (\<lambda>_. 0), tm_row = 7, tm_col = 9\<rparr>) = Some t' \<and> unat (tm_col t') < 80"
  by (rule print_writes_string_and_nul) (simp_all add: terminal_initialize_def)

end
