(* ===== verification/Ata_Disk.thy ===== *)
theory Ata_Disk
  imports Base
begin

text \<open>
  Sector reads of \<open>src/disk/disk.c\<close> over the port I/O of \<open>src/io/io.h\<close>. The device behind
  the ports is not part of the program: its state is the type \<open>'d\<close>, and the three port
  instructions the code uses are a record of functions on it. What the driver relies on
  is the ATA PIO protocol, stated as \<open>ata_disk\<close> through the task-file registers and not
  through the driver; a concrete device that meets it closes the theory.
\<close>

section \<open>Ports and the driver\<close>

record 'd ports =
  io_insb :: "u16 \<Rightarrow> 'd \<Rightarrow> u8 \<times> 'd"
  io_insw :: "u16 \<Rightarrow> 'd \<Rightarrow> u16 \<times> 'd"
  io_outb :: "u16 \<Rightarrow> u8 \<Rightarrow> 'd \<Rightarrow> 'd"

text \<open>The only disk is the static object \<open>disk\<close>; a pointer to it, or null.\<close>

datatype disk_ptr = DISK_NULL | DISK

definition send_read_command :: "'d ports \<Rightarrow> int \<Rightarrow> int \<Rightarrow> 'd \<Rightarrow> 'd" where
  "send_read_command P lba n d =
     (let d1 = io_outb P 0x1F6 (word_of_int (drop_bit 24 lba OR 0xE0)) d;
          d2 = io_outb P 0x1F2 (word_of_int n) d1;
          d3 = io_outb P 0x1F3 (word_of_int (lba AND 0xFF)) d2;
          d4 = io_outb P 0x1F4 (word_of_int (drop_bit 8 lba)) d3;
          d5 = io_outb P 0x1F5 (word_of_int (drop_bit 16 lba)) d4 in
      io_outb P 0x1F7 0x20 d5)"

text \<open>\<open>char c = insb(0x1F7); while (!(c & 0x08)) c = insb(0x1F7);\<close>\<close>

partial_function (option) poll_ready :: "'d ports \<Rightarrow> 'd \<Rightarrow> 'd option" where
  "poll_ready pt d =
     (let c = fst (io_insb pt 0x1F7 d); d1 = snd (io_insb pt 0x1F7 d) in
      if c AND 0x08 = 0 then poll_ready pt d1 else Some d1)"

text \<open>\<open>*ptr = insw(0x1F0); ptr++\<close> for a \<open>uint16_t*\<close> at byte \<open>i\<close> of the buffer.\<close>

fun read_words :: "'d ports \<Rightarrow> nat \<Rightarrow> u8 list \<Rightarrow> nat \<Rightarrow> 'd \<Rightarrow> (u8 list \<times> 'd) option" where
  "read_words P 0 buffer i d = Some (buffer, d)"
| "read_words P (Suc k) buffer i d =
     (let (w, d1) = io_insw P 0x1F0 d in do {
        b1 \<leftarrow> put_idx buffer i (ucast w);
        b2 \<leftarrow> put_idx b1 (i + 1) (ucast (drop_bit 8 w));
        read_words P k b2 (i + 2) d1 })"

fun read_sectors :: "'d ports \<Rightarrow> nat \<Rightarrow> u8 list \<Rightarrow> nat \<Rightarrow> 'd \<Rightarrow> (u8 list \<times> 'd) option" where
  "read_sectors P 0 buffer i d = Some (buffer, d)"
| "read_sectors P (Suc b) buffer i d = do {
     d1 \<leftarrow> poll_ready P d;
     (b1, d2) \<leftarrow> read_words P 256 buffer i d1;
     read_sectors P b b1 (i + 512) d2 }"

definition disk_read_sector ::
  "'d ports \<Rightarrow> int \<Rightarrow> int \<Rightarrow> u8 list \<Rightarrow> 'd \<Rightarrow> (int \<times> u8 list \<times> 'd) option" where
  "disk_read_sector P lba n buffer d = do {
     (b, d') \<leftarrow> read_sectors P (nat n) buffer 0 (send_read_command P lba n d);
     Some (0, b, d') }"

definition disk_get :: "int \<Rightarrow> disk_ptr" where
  "disk_get index = (if index > 0 then DISK_NULL else DISK)"

definition disk_read_block ::
  "'d ports \<Rightarrow> disk_ptr \<Rightarrow> int \<Rightarrow> int \<Rightarrow> u8 list \<Rightarrow> 'd \<Rightarrow> (int \<times> u8 list \<times> 'd) option" where
  "disk_read_block P idisk lba n buffer d =
     (if idisk \<noteq> DISK then Some (- EIO, buffer, d) else disk_read_sector P lba n buffer d)"

section \<open>The ATA protocol\<close>

text \<open>
  The task file of the comment above the driver (\<open>disk.c:14-22\<close>): sector count in \<open>0x1F2\<close>,
  the address in \<open>0x1F3\<close> (low), \<open>0x1F4\<close> (mid), \<open>0x1F5\<close> (high) and the low half of \<open>0x1F6\<close>,
  whose bit 6 selects addressing by sector number and whose bit 4 selects the second drive;
  \<open>0x1F7\<close> takes commands and reads as status: busy (bit 7), data request (bit 3), error (bit 0).
\<close>

definition task_lba :: "(u16 \<Rightarrow> u8) \<Rightarrow> nat" where
  "task_lba r = unat (r 0x1F3) + 256 * unat (r 0x1F4) + 65536 * unat (r 0x1F5) + 16777216 * unat (r 0x1F6 AND 0x0F)"

definition task_file :: "'d ports \<Rightarrow> ('d \<Rightarrow> bool) \<Rightarrow> ('d \<Rightarrow> u16 \<Rightarrow> u8) \<Rightarrow> bool" where
  "task_file P idle regs \<longleftrightarrow> (\<forall>d p v. idle d \<and> 0x1F2 \<le> p \<and> p \<le> 0x1F6 \<longrightarrow>
     idle (io_outb P p v d) \<and> regs (io_outb P p v d) = (regs d)(p := v))"

text \<open>
  \<open>requests_data P d d'\<close>: from \<open>d\<close> the status reads busy, without a data request, finitely
  many times and then not busy, with a data request and no error; \<open>d'\<close> is the state after
  that read. \<open>reports_error P d\<close>: the status reads not busy, no data request, error, and
  goes on to do so; \<open>ends_in_error P d\<close>: it does so after reading busy finitely many times.
\<close>

inductive requests_data :: "'d ports \<Rightarrow> 'd \<Rightarrow> 'd \<Rightarrow> bool" for P where
  ready: "io_insb P 0x1F7 d = (c, d') \<Longrightarrow> c AND 0x89 = 0x08 \<Longrightarrow> requests_data P d d'"
| busy: "io_insb P 0x1F7 d = (c, d1) \<Longrightarrow> c AND 0x88 = 0x80 \<Longrightarrow> requests_data P d1 d' \<Longrightarrow> requests_data P d d'"

coinductive reports_error :: "'d ports \<Rightarrow> 'd \<Rightarrow> bool" for P where
  "io_insb P 0x1F7 d = (c, d') \<Longrightarrow> c AND 0x89 = 0x01 \<Longrightarrow> reports_error P d' \<Longrightarrow> reports_error P d"

inductive ends_in_error :: "'d ports \<Rightarrow> 'd \<Rightarrow> bool" for P where
  error: "reports_error P d \<Longrightarrow> ends_in_error P d"
| busy: "io_insb P 0x1F7 d = (c, d1) \<Longrightarrow> c AND 0x88 = 0x80 \<Longrightarrow> ends_in_error P d1 \<Longrightarrow> ends_in_error P d"

fun transfers :: "'d ports \<Rightarrow> u8 list \<Rightarrow> 'd \<Rightarrow> 'd \<Rightarrow> bool" where
  "transfers P [] d d' = (d' = d)"
| "transfers P [x] d d' = False"
| "transfers P (x # y # bs) d d' =
     (fst (io_insw P 0x1F0 d) = le16 x y \<and> transfers P bs (snd (io_insw P 0x1F0 d)) d')"

fun serves :: "'d ports \<Rightarrow> ('d \<Rightarrow> bool) \<Rightarrow> u8 list list \<Rightarrow> 'd \<Rightarrow> bool" where
  "serves P idle [] d = idle d"
| "serves P idle (sec # secs) d =
     (\<exists>d1 d2. requests_data P d d1 \<and> transfers P sec d1 d2 \<and> serves P idle secs d2)"

definition sector :: "(nat \<Rightarrow> u8) \<Rightarrow> nat \<Rightarrow> u8 list" where
  "sector img k = map img [512 * k..<512 * k + 512]"

text \<open>
  A read command (\<open>0x20\<close>) for the sectors from \<open>lba\<close> to before \<open>stop\<close>: what the registers of
  an idle drive must hold for it.
\<close>

definition addresses :: "(u16 \<Rightarrow> u8) \<Rightarrow> nat \<Rightarrow> nat \<Rightarrow> bool" where
  "addresses r lba stop \<longleftrightarrow> r 0x1F6 AND 0x50 = 0x40 \<and> r 0x1F2 \<noteq> 0 \<and> lba = task_lba r \<and> stop = lba + unat (r 0x1F2)"

text \<open>
  A disk of \<open>cap\<close> sectors with contents \<open>img\<close>: in an idle state (\<open>idle\<close>) a read command
  for sectors on the disk is answered with their contents, one sector per data request,
  and the device is idle again.
\<close>

definition ata_disk :: "'d ports \<Rightarrow> (nat \<Rightarrow> u8) \<Rightarrow> nat \<Rightarrow> ('d \<Rightarrow> bool) \<Rightarrow> bool" where
  "ata_disk P img cap idle \<longleftrightarrow> cap \<le> 2 ^ 28 \<and> (\<exists>regs. task_file P idle regs \<and>
     (\<forall>d lba stop. idle d \<and> addresses (regs d) lba stop \<and> stop \<le> cap \<longrightarrow>
        serves P idle (map (sector img) [lba..<stop]) (io_outb P 0x1F7 0x20 d)))"

text \<open>
  A command that goes past the end of the disk is answered with the sectors there are and
  then ends in an error (sector not found).
\<close>

definition ata_aborts :: "'d ports \<Rightarrow> (nat \<Rightarrow> u8) \<Rightarrow> nat \<Rightarrow> ('d \<Rightarrow> bool) \<Rightarrow> bool" where
  "ata_aborts P img cap idle \<longleftrightarrow> (\<exists>regs. task_file P idle regs \<and>
     (\<forall>d lba stop. idle d \<and> addresses (regs d) lba stop \<and> cap < stop \<longrightarrow>
        serves P (ends_in_error P) (map (sector img) [lba..<cap]) (io_outb P 0x1F7 0x20 d)))"

lemma length_sector [simp]: "length (sector img k) = 512"
  by (simp add: sector_def)

lemma nth_sector: "i < 512 \<Longrightarrow> sector img k ! i = img (512 * k + i)"
  by (simp add: sector_def)

section \<open>Correctness of the driver\<close>

lemma status_bits:
  fixes c :: u8
  shows "c AND 0x89 = 0x08 \<Longrightarrow> c AND 0x08 \<noteq> 0" "c AND 0x88 = 0x80 \<Longrightarrow> c AND 0x08 = 0" "c AND 0x89 = 0x01 \<Longrightarrow> c AND 0x08 = 0"
proof -
  have "c AND 0x08 = (c AND 0x89) AND 0x08" "c AND 0x08 = (c AND 0x88) AND 0x08" by (simp_all add: and.assoc)
  then show "c AND 0x89 = 0x08 \<Longrightarrow> c AND 0x08 \<noteq> 0" "c AND 0x88 = 0x80 \<Longrightarrow> c AND 0x08 = 0" "c AND 0x89 = 0x01 \<Longrightarrow> c AND 0x08 = 0"
    by simp_all
qed

lemma poll_ready_returns: "requests_data P d d' \<Longrightarrow> poll_ready P d = Some d'"
  by (induction rule: requests_data.induct) (simp_all add: poll_ready.simps status_bits)

lemma poll_ready_hangs:
  assumes "I d" "\<And>d. I d \<Longrightarrow> fst (io_insb P 0x1F7 d) AND 0x08 = 0 \<and> I (snd (io_insb P 0x1F7 d))"
  shows "poll_ready P d = None"
proof (rule ccontr)
  assume "poll_ready P d \<noteq> None"
  then obtain d' where d': "poll_ready P d = Some d'" by auto
  have "P = P \<longrightarrow> \<not> I d"
  proof (rule poll_ready.raw_induct [where P = "\<lambda>pt d d'. pt = P \<longrightarrow> \<not> I d", OF _ d'])
    fix f and pt :: "'a ports" and d d'
    assume IH: "\<And>pt d d'. f pt d = Some d' \<Longrightarrow> pt = P \<longrightarrow> \<not> I d"
      and eq: "(let c = fst (io_insb pt 0x1F7 d); d1 = snd (io_insb pt 0x1F7 d) in
          if c AND 0x08 = 0 then f pt d1 else Some d1) = Some d'"
    show "pt = P \<longrightarrow> \<not> I d" using assms(2) [of d] IH eq by (auto simp: Let_def)
  qed
  with assms(1) show False by simp
qed

lemma poll_ready_error: "reports_error P d \<Longrightarrow> poll_ready P d = None"
  by (erule poll_ready_hangs) (auto elim: reports_error.cases simp: status_bits)

lemma poll_ready_ends_in_error: "ends_in_error P d \<Longrightarrow> poll_ready P d = None"
  proof (induction rule: ends_in_error.induct)
  case (busy d c d1)
  then show ?case by (subst poll_ready.simps) (simp add: status_bits)
qed (rule poll_ready_error)

lemma ucast_le16: "ucast (le16 x y) = x" "ucast (drop_bit 8 (le16 x y)) = y"
  unfolding le16_def by (rule bit_word_eqI; auto simp: bit_simps dest: bit_imp_le_length)+

lemma read_words_transfers:
  assumes "transfers P bs d d'" "length bs = 2 * k" "i + 2 * k \<le> length buffer"
  shows "read_words P k buffer i d = Some (take i buffer @ bs @ drop (i + 2 * k) buffer, d')"
  using assms
proof (induction k arbitrary: bs i buffer d)
  case 0
  then show ?case by simp
next
  case (Suc k)
  obtain x y bs' where bs: "bs = x # y # bs'" using Suc.prems(2)
    by (metis (no_types) Suc_length_conv add_2_eq_Suc mult_Suc_right)
  obtain w d1 where w: "io_insw P 0x1F0 d = (w, d1)" by (cases "io_insw P 0x1F0 d")
  let ?b = "buffer[i := x, Suc i := y]"
  have "w = le16 x y" "transfers P bs' d1 d'" using Suc.prems(1) w by (simp_all add: bs)
  moreover have "i < length buffer" "Suc i < length buffer" using Suc.prems(3) by auto
  ultimately have "read_words P (Suc k) buffer i d = read_words P k ?b (i + 2) d1"
    using w by (simp add: buf ucast_le16)
  also have "\<dots> = Some (take (i + 2) ?b @ bs' @ drop (i + 2 + 2 * k) ?b, d')"
    using \<open>transfers P bs' d1 d'\<close> Suc.prems by (intro Suc.IH) (simp_all add: bs)
  finally show ?case using Suc.prems(3) by (simp add: bs take_Suc_conv_app_nth)
qed

lemma read_sectors_serves:
  assumes "serves P fin secs d" "length secs = n" "\<forall>s \<in> set secs. length s = 512" "i + 512 * (n + m) \<le> length buffer"
  shows "\<exists>b d'. read_sectors P (n + m) buffer i d = read_sectors P m b (i + 512 * n) d' \<and> fin d' \<and>
    b = take i buffer @ concat secs @ drop (i + 512 * n) buffer"
  using assms
proof (induction n arbitrary: secs i buffer d)
  case 0
  then show ?case by auto
next
  case (Suc n)
  then obtain sec secs' where secs: "secs = sec # secs'" by (cases secs) auto
  then obtain d1 d2 where d: "requests_data P d d1" "transfers P sec d1 d2" "serves P fin secs' d2"
    using Suc.prems(1) by auto
  let ?b = "take i buffer @ sec @ drop (i + 512) buffer"
  have w: "read_words P 256 buffer i d1 = Some (?b, d2)"
    using read_words_transfers [OF d(2), of 256 i buffer] Suc.prems by (simp add: secs)
  have ex: "\<exists>b d'. read_sectors P (n + m) ?b (i + 512) d2 = read_sectors P m b (i + 512 + 512 * n) d' \<and> fin d' \<and>
      b = take (i + 512) ?b @ concat secs' @ drop (i + 512 + 512 * n) ?b"
    by (rule Suc.IH [OF d(3)]) (use Suc.prems in \<open>auto simp: secs\<close>)
  have tk: "take (i + 512) ?b = take i buffer @ sec"
    and dr: "drop (i + 512 + 512 * n) ?b = drop (i + 512 * Suc n) buffer"
    using Suc.prems by (simp_all add: secs ac_simps)
  have e: "i + 512 + 512 * n = i + 512 * Suc n" by simp
  from ex [unfolded tk dr, unfolded e] obtain d' where
    "read_sectors P (n + m) ?b (i + 512) d2 =
      read_sectors P m (take i buffer @ concat secs @ drop (i + 512 * Suc n) buffer) (i + 512 * Suc n) d'" "fin d'"
    by (auto simp: secs)
  moreover have "read_sectors P (Suc n + m) buffer i d = read_sectors P (n + m) ?b (i + 512) d2"
    using poll_ready_returns [OF d(1)] w by simp
  ultimately show ?case by auto
qed

text \<open>What the driver writes is what the registers of the task file mean.\<close>

lemma u8_of_int: "unat (word_of_int x :: u8) = nat (x mod 256)"
  by (simp add: unat_eq_nat_uint uint_word_of_int_eq take_bit_eq_mod del: nat_uint_eq)

lemma drive_bits: "((word_of_int (x OR 0xE0) :: u8) AND 0x0F) = word_of_int (x mod 16)"
proof -
  have "(x OR 0xE0) AND 0x0F = x AND 0x0F" by (simp add: bit.conj_disj_distrib2)
  also have "\<dots> = x mod 16"
    using take_bit_eq_mask [of 4 x] by (simp add: mask_eq_exp_minus_1 take_bit_eq_mod)
  finally have e: "(x OR 0xE0) AND 0x0F = x mod 16" .
  have "(word_of_int (x OR 0xE0) :: u8) AND 0x0F = word_of_int ((x OR 0xE0) AND 0x0F)"
    by (rule bit_word_eqI) (auto simp: bit_simps)
  then show ?thesis unfolding e .
qed

lemma lba_registers:
  assumes "lba < 2 ^ 28"
  shows "unat (word_of_int (int lba AND 0xFF) :: u8) + 256 * unat (word_of_int (drop_bit 8 (int lba)) :: u8)
    + 65536 * unat (word_of_int (drop_bit 16 (int lba)) :: u8)
    + 16777216 * unat (word_of_int (drop_bit 24 (int lba) OR 0xE0) AND 0x0F :: u8) = lba"
proof -
  have a: "int lba AND 0xFF = int lba mod 256" using take_bit_eq_mask [of 8 "int lba"]
    by (simp add: mask_eq_exp_minus_1 take_bit_eq_mod)
  have "nat (int lba mod 256 mod 256) = lba mod 256" "nat (drop_bit 8 (int lba) mod 256) = lba div 256 mod 256"
    "nat (drop_bit 16 (int lba) mod 256) = lba div 65536 mod 256"
    "nat (drop_bit 24 (int lba) mod 16 mod 256) = lba div 16777216 mod 16 mod 256"
    by (simp_all add: drop_bit_eq_div nat_mod_distrib nat_div_distrib)
  moreover have "lba mod 256 + 256 * (lba div 256 mod 256) + 65536 * (lba div 65536 mod 256)
      + 16777216 * (lba div 16777216 mod 16 mod 256) = lba"
  proof -
    define q where "q = lba div 256"
    define r where "r = q div 256"
    define t where "t = r div 256"
    have q: "lba div 65536 = r" "lba div 16777216 = t"
      unfolding q_def r_def t_def by (simp_all flip: div_mult2_eq)
    have "t < 16" using assms unfolding q(2) [symmetric] by (simp add: less_mult_imp_div_less)
    moreover have "lba = lba mod 256 + 256 * q" "q = q mod 256 + 256 * r" "r = r mod 256 + 256 * t"
      unfolding q_def r_def t_def by simp_all
    ultimately show ?thesis unfolding q q_def [symmetric] by simp
  qed
  ultimately show ?thesis unfolding a drive_bits u8_of_int by simp
qed

lemma drive_select:
  assumes "lba < 2 ^ 28"
  shows "(word_of_int (drop_bit 24 (int lba) OR 0xE0) :: u8) AND 0x50 = 0x40"
proof -
  have "drop_bit 24 (int lba) = int (lba div 16777216)" by (simp add: drop_bit_eq_div zdiv_int)
  moreover have "lba div 16777216 < 16" using assms by (simp add: less_mult_imp_div_less)
  then have "lba div 16777216 \<in> set [0..<16]" by (simp only: set_upt atLeastLessThan_iff) simp
  moreover have "\<forall>k \<in> set [0..<16]. (word_of_int (int k OR 0xE0) :: u8) AND 0x50 = 0x40" by (simp add: upt_rec)
  ultimately show ?thesis by auto
qed

lemma send_read_command_writes:
  assumes "task_file P idle regs" "idle d" "lba < 2 ^ 28" "0 < n" "n < 256"
  shows "\<exists>d'. idle d' \<and> addresses (regs d') lba (lba + n) \<and> send_read_command P (int lba) (int n) d = io_outb P 0x1F7 0x20 d'"
proof -
  have w: "idle e \<Longrightarrow> 0x1F2 \<le> p \<Longrightarrow> p \<le> 0x1F6 \<Longrightarrow> idle (io_outb P p v e)"
    "idle e \<Longrightarrow> 0x1F2 \<le> p \<Longrightarrow> p \<le> 0x1F6 \<Longrightarrow> regs (io_outb P p v e) = (regs e)(p := v)" for e p v
    using assms(1) unfolding task_file_def by blast+
  have n: "unat (word_of_int (int n) :: u8) = n" using u8_of_int [of "int n"] assms(5) by simp
  then have "(word_of_int (int n) :: u8) \<noteq> 0" using assms(4) by (metis unat_0 less_irrefl)
  then show ?thesis
    using assms(2) w n drive_select [OF assms(3)] lba_registers [OF assms(3)]
    by (intro exI [where x = "io_outb P 0x1F5 (word_of_int (drop_bit 16 (int lba))) (io_outb P 0x1F4 (word_of_int (drop_bit 8 (int lba)))
          (io_outb P 0x1F3 (word_of_int (int lba AND 0xFF)) (io_outb P 0x1F2 (word_of_int (int n))
          (io_outb P 0x1F6 (word_of_int (drop_bit 24 (int lba) OR 0xE0)) d))))"])
      (simp add: addresses_def task_lba_def send_read_command_def)
qed

lemma disk_read_block_ok:
  assumes "ata_disk P img cap idle" "idle d" "0 < n" "n < 256" "lba + n \<le> cap" "512 * n \<le> length buffer"
  shows "\<exists>d'. disk_read_block P DISK (int lba) (int n) buffer d =
    Some (0, concat (map (sector img) [lba..<lba + n]) @ drop (512 * n) buffer, d') \<and> idle d'"
proof -
  obtain regs where regs: "task_file P idle regs" and serve:
      "\<And>d lba stop. idle d \<Longrightarrow> addresses (regs d) lba stop \<Longrightarrow> stop \<le> cap \<Longrightarrow>
        serves P idle (map (sector img) [lba..<stop]) (io_outb P 0x1F7 0x20 d)" and cap: "cap \<le> 2 ^ 28"
    using assms(1) unfolding ata_disk_def by blast
  obtain d1 where d1: "idle d1" "addresses (regs d1) lba (lba + n)"
      "send_read_command P (int lba) (int n) d = io_outb P 0x1F7 0x20 d1"
    using send_read_command_writes [OF regs assms(2) _ assms(3,4), of lba] assms(3,5) cap by auto
  from read_sectors_serves [OF serve [OF d1(1,2) assms(5)], of n 0 0 buffer] assms(6) show ?thesis
    by (auto simp: disk_read_block_def disk_read_sector_def d1(3))
qed

lemma disk_read_block_past_end:
  assumes "ata_aborts P img cap idle" "idle d" "0 < n" "n < 256" "lba < 2 ^ 28" "cap < lba + n" "512 * n \<le> length buffer"
  shows "disk_read_block P DISK (int lba) (int n) buffer d = None"
proof -
  obtain regs where regs: "task_file P idle regs" and serve:
      "\<And>d lba stop. idle d \<Longrightarrow> addresses (regs d) lba stop \<Longrightarrow> cap < stop \<Longrightarrow>
        serves P (ends_in_error P) (map (sector img) [lba..<cap]) (io_outb P 0x1F7 0x20 d)"
    using assms(1) unfolding ata_aborts_def by blast
  obtain d1 where d1: "idle d1" "addresses (regs d1) lba (lba + n)"
      "send_read_command P (int lba) (int n) d = io_outb P 0x1F7 0x20 d1"
    using send_read_command_writes [OF regs assms(2,5,3,4)] by auto
  have m: "n = (cap - lba) + Suc (n - (cap - lba) - 1)" using assms(3,6) by simp
  from read_sectors_serves [OF serve [OF d1(1,2) assms(6)], of "cap - lba" 0 "Suc (n - (cap - lba) - 1)" buffer] assms(7) m
  have "read_sectors P n buffer 0 (send_read_command P (int lba) (int n) d) = None"
    by (auto simp: d1(3) poll_ready_ends_in_error)
  then show ?thesis by (simp add: disk_read_block_def disk_read_sector_def)
qed

section \<open>A device that meets the protocol\<close>

text \<open>
  A drive of \<open>cap\<close> sectors with a status port that is busy for a while after each command,
  task-file registers, an error register (\<open>0x1F1\<close>), and a queue of data words. It shows that
  the hypotheses \<open>ata_disk\<close> and \<open>ata_aborts\<close> can hold.
\<close>

record sim_disk =
  sim_regs :: "u16 \<Rightarrow> u8"
  sim_busy :: nat
  sim_queue :: "u16 list"

fun words_of :: "u8 list \<Rightarrow> u16 list" where
  "words_of (x # y # bs) = le16 x y # words_of bs"
| "words_of _ = []"

definition sim_command :: "nat \<Rightarrow> (nat \<Rightarrow> u8) \<Rightarrow> sim_disk \<Rightarrow> sim_disk" where
  "sim_command cap img d =
     (let lba = task_lba (sim_regs d); stop = lba + unat (sim_regs d 0x1F2) in
      d\<lparr>sim_busy := 3, sim_regs := (sim_regs d)(0x1F1 := if stop \<le> cap then 0 else 0x10),
        sim_queue := concat (map (\<lambda>k. words_of (sector img k)) [lba..<min stop cap])\<rparr>)"

definition drive_ports :: "nat \<Rightarrow> (nat \<Rightarrow> u8) \<Rightarrow> sim_disk ports" where
  "drive_ports cap img = \<lparr>
     io_insb = (\<lambda>port d. if sim_busy d > 0 then (0x80, d\<lparr>sim_busy := sim_busy d - 1\<rparr>)
                         else (if sim_queue d \<noteq> [] then 0x48 else if sim_regs d 0x1F1 = 0 then 0x40 else 0x41, d)),
     io_insw = (\<lambda>port d. case sim_queue d of [] \<Rightarrow> (0, d) | w # ws \<Rightarrow> (w, d\<lparr>sim_queue := ws\<rparr>)),
     io_outb = (\<lambda>port v d. if port = 0x1F7 \<and> v = 0x20 then sim_command cap img d
                           else d\<lparr>sim_regs := (sim_regs d)(port := v)\<rparr>)\<rparr>"

text \<open>The drive with all the sectors 28 bits can address.\<close>

definition sim_ports :: "(nat \<Rightarrow> u8) \<Rightarrow> sim_disk ports" where
  "sim_ports img = drive_ports (2 ^ 28) img"

definition sim_idle :: "sim_disk \<Rightarrow> bool" where
  "sim_idle d \<longleftrightarrow> sim_queue d = []"

lemma drive_requests_data: "sim_queue d \<noteq> [] \<Longrightarrow> requests_data (drive_ports cap img) d (d\<lparr>sim_busy := 0\<rparr>)"
proof (induction "sim_busy d" arbitrary: d)
  case 0
  then show ?case by (intro requests_data.ready [where c = "0x48"]) (auto simp: drive_ports_def)
next
  case (Suc k)
  let ?d = "d\<lparr>sim_busy := k\<rparr>"
  have "io_insb (drive_ports cap img) 0x1F7 d = (0x80, ?d)"
    using Suc.hyps(2) by (simp add: drive_ports_def flip: Suc.hyps(2))
  moreover have "requests_data (drive_ports cap img) ?d (?d\<lparr>sim_busy := 0\<rparr>)"
    using Suc.prems by (intro Suc.hyps(1)) simp_all
  ultimately show ?case by (auto intro: requests_data.busy)
qed

lemma drive_transfers:
  "even (length bs) \<Longrightarrow> sim_queue d = words_of bs @ q \<Longrightarrow>
   transfers (drive_ports cap img) bs d (d\<lparr>sim_queue := q\<rparr>)"
proof (induction bs arbitrary: d rule: words_of.induct)
  case (1 x y bs)
  then have "transfers (drive_ports cap img) bs (d\<lparr>sim_queue := words_of bs @ q\<rparr>)
      ((d\<lparr>sim_queue := words_of bs @ q\<rparr>)\<lparr>sim_queue := q\<rparr>)"
    by (intro "1.IH") simp_all
  then show ?case using "1.prems" by (simp add: drive_ports_def)
qed simp_all

lemma words_of_sector: "words_of (sector img k) \<noteq> []"
  using length_sector [of img k] by (cases "sector img k" rule: words_of.cases) auto

lemma drive_serves:
  "sim_queue d = concat (map (\<lambda>k. words_of (sector img k)) ks) \<Longrightarrow>
   (\<And>b. fin (d\<lparr>sim_busy := b, sim_queue := []\<rparr>)) \<Longrightarrow>
   serves (drive_ports cap img) fin (map (sector img) ks) d"
proof (induction ks arbitrary: d)
  case Nil
  then have "d\<lparr>sim_busy := sim_busy d, sim_queue := []\<rparr> = d" by simp
  then show ?case using Nil(2) [of "sim_busy d"] by simp
next
  case (Cons k ks)
  let ?q = "concat (map (\<lambda>k. words_of (sector img k)) ks)"
  let ?d1 = "d\<lparr>sim_busy := 0\<rparr>"
  have "requests_data (drive_ports cap img) d ?d1" using Cons.prems words_of_sector by (intro drive_requests_data) simp
  moreover have "transfers (drive_ports cap img) (sector img k) ?d1 (?d1\<lparr>sim_queue := ?q\<rparr>)"
    using Cons.prems by (intro drive_transfers) simp_all
  moreover have "serves (drive_ports cap img) fin (map (sector img) ks) (?d1\<lparr>sim_queue := ?q\<rparr>)"
    by (rule Cons.IH) (use Cons.prems(2) in simp_all)
  ultimately show ?case by (simp only: list.map serves.simps) blast
qed


lemma drive_reports_error:
  "sim_queue d = [] \<Longrightarrow> sim_busy d = 0 \<Longrightarrow> sim_regs d 0x1F1 \<noteq> 0 \<Longrightarrow> reports_error (drive_ports cap img) d"
  by (coinduction arbitrary: d rule: reports_error.coinduct) (auto simp: drive_ports_def)

lemma drive_ends_in_error:
  "sim_queue d = [] \<Longrightarrow> sim_regs d 0x1F1 \<noteq> 0 \<Longrightarrow> ends_in_error (drive_ports cap img) d"
proof (induction "sim_busy d" arbitrary: d)
  case 0
  then show ?case by (intro ends_in_error.error drive_reports_error) simp_all
next
  case (Suc k)
  let ?d = "d\<lparr>sim_busy := k\<rparr>"
  have "io_insb (drive_ports cap img) 0x1F7 d = (0x80, ?d)"
    using Suc.hyps(2) by (simp add: drive_ports_def flip: Suc.hyps(2))
  moreover have "ends_in_error (drive_ports cap img) ?d"
    using Suc.prems by (intro Suc.hyps(1)) simp_all
  ultimately show ?case by (auto intro: ends_in_error.busy)
qed

lemma drive_task_file: "task_file (drive_ports cap img) sim_idle sim_regs"
  by (auto simp: task_file_def drive_ports_def sim_idle_def)

lemma drive_ata_disk:
  assumes "cap' \<le> cap" "cap \<le> 2 ^ 28"
  shows "ata_disk (drive_ports cap img) img cap' sim_idle"
  unfolding ata_disk_def
proof (intro conjI exI [where x = sim_regs] drive_task_file allI impI)
  fix d lba stop assume h: "sim_idle d \<and> addresses (sim_regs d) lba stop \<and> stop \<le> cap'"
  then have "sim_queue (sim_command cap img d) = concat (map (\<lambda>k. words_of (sector img k)) [lba..<stop])"
    using assms(1) by (simp add: sim_command_def addresses_def Let_def min_absorb1)
  then show "serves (drive_ports cap img) sim_idle (map (sector img) [lba..<stop]) (io_outb (drive_ports cap img) 0x1F7 0x20 d)"
    by (intro drive_serves) (simp_all add: drive_ports_def sim_idle_def)
qed (use assms in simp)

lemma drive_ata_aborts: "ata_aborts (drive_ports cap img) img cap sim_idle"
  unfolding ata_aborts_def
proof (intro conjI exI [where x = sim_regs] drive_task_file allI impI)
  fix d lba stop assume h: "sim_idle d \<and> addresses (sim_regs d) lba stop \<and> cap < stop"
  then have "sim_queue (sim_command cap img d) = concat (map (\<lambda>k. words_of (sector img k)) [lba..<cap])"
    "sim_regs (sim_command cap img d) 0x1F1 \<noteq> 0"
    by (simp_all add: sim_command_def addresses_def Let_def min_absorb2)
  then show "serves (drive_ports cap img) (ends_in_error (drive_ports cap img)) (map (sector img) [lba..<cap])
      (io_outb (drive_ports cap img) 0x1F7 0x20 d)"
    by (intro drive_serves drive_ends_in_error) (simp_all add: drive_ports_def)
qed

lemma sim_ata_disk: "cap \<le> 2 ^ 28 \<Longrightarrow> ata_disk (sim_ports img) img cap sim_idle"
  unfolding sim_ports_def by (rule drive_ata_disk) simp_all

section \<open>Properties\<close>

text \<open>
  C26. On a drive that serves the sectors it has and reports an error past its end, a read
  returns exactly when all its sectors are on the drive: the driver polls for a data
  request only, never looks at the error bit, and so never returns from a read past the end
  (it does not give \<open>-EIO\<close>).
\<close>

theorem disk_read_block_returns_iff:
  assumes "ata_disk P img cap idle" "ata_aborts P img cap idle" "idle d" "0 < n" "n < 256" "lba < 2 ^ 28"
    "512 * n \<le> length buffer"
  shows "disk_read_block P DISK (int lba) (int n) buffer d \<noteq> None \<longleftrightarrow> lba + n \<le> cap"
proof (cases "lba + n \<le> cap")
  case True
  with disk_read_block_ok [OF assms(1,3-5) True assms(7)] show ?thesis by auto
next
  case False
  with disk_read_block_past_end [OF assms(2-6) _ assms(7)] show ?thesis by simp
qed

theorem disk_read_block_returns_iff_witness:
  "disk_read_block (drive_ports 300 (\<lambda>i. of_nat (i div 512))) DISK (int 298) (int 2) (replicate 1536 0)
      \<lparr>sim_regs = (\<lambda>_. 0), sim_busy = 5, sim_queue = []\<rparr> \<noteq> None \<and>
   disk_read_block (drive_ports 300 (\<lambda>i. of_nat (i div 512))) DISK (int 298) (int 3) (replicate 1536 0)
      \<lparr>sim_regs = (\<lambda>_. 0), sim_busy = 5, sim_queue = []\<rparr> = None"
proof -
  note r = disk_read_block_returns_iff [OF drive_ata_disk [OF order_refl] drive_ata_aborts]
  let ?d = "\<lparr>sim_regs = (\<lambda>_. 0), sim_busy = 5, sim_queue = []\<rparr> :: sim_disk"
  have i: "sim_idle ?d" by (simp add: sim_idle_def)
  show ?thesis
  proof
    show "disk_read_block (drive_ports 300 (\<lambda>i. of_nat (i div 512))) DISK (int 298) (int 2) (replicate 1536 0) ?d \<noteq> None"
      by (subst r [OF _ i]) simp_all
    show "disk_read_block (drive_ports 300 (\<lambda>i. of_nat (i div 512))) DISK (int 298) (int 3) (replicate 1536 0) ?d = None"
      by (rule iffD1 [OF not_not], subst r [OF _ i]) simp_all
  qed
qed

text \<open>
  C25. On a disk that follows the ATA task-file protocol, \<open>disk_read_block\<close> returns 0 and fills the
  start of the buffer with the contents of the requested sectors, leaves the rest of the
  buffer alone, and leaves the device idle. The witness reads sectors \<open>0x1020304\<close> and
  \<open>0x1020305\<close>, whose address is different in each register, of a disk whose neighbouring
  sectors differ.
\<close>

theorem disk_read_block_correct:
  assumes "ata_disk P img cap idle" "idle d" "0 < n" "n < 256" "lba + n \<le> cap" "512 * n \<le> length buffer"
  shows "\<exists>d'. disk_read_block P DISK (int lba) (int n) buffer d =
    Some (0, concat (map (sector img) [lba..<lba + n]) @ drop (512 * n) buffer, d') \<and> idle d'"
  using assms by (rule disk_read_block_ok)

theorem disk_read_block_correct_witness:
  "\<exists>d'. disk_read_block (sim_ports (\<lambda>i. of_nat (i div 512))) DISK (int 0x1020304) (int 2) (replicate 1025 9)
      \<lparr>sim_regs = (\<lambda>_. 0), sim_busy = 5, sim_queue = []\<rparr> =
    Some (0, replicate 512 4 @ replicate 512 5 @ [9], d') \<and> sim_idle d'"
proof -
  let ?img = "\<lambda>i. of_nat (i div 512) :: u8"
  have s: "sector ?img k = replicate 512 (of_nat k)" for k
    by (rule nth_equalityI) (simp_all add: nth_sector div_add1_eq)
  have e: "(0x1020304 :: u8) = 4" "(0x1020305 :: u8) = 5" by simp_all
  show ?thesis
    using disk_read_block_correct [OF sim_ata_disk [of "2 ^ 28" ?img] , of "\<lparr>sim_regs = (\<lambda>_. 0), sim_busy = 5, sim_queue = []\<rparr>" 2 "0x1020304" "replicate 1025 9"]
    by (simp add: sim_idle_def s upt_rec e)
qed

end
