(* ===== verification/Fat16_Format.thy ===== *)
theory Fat16_Format
  imports Memory_Ops C_String
begin

text \<open>
  The on-disk structures of FAT16 in \<open>src/fs/fat/fat16.c\<close> (lines 14 to 87), how the bytes
  the kernel reads over them become their fields (the structs are packed and the machine
  is little-endian), and the routines that only look at a directory item: its printable
  name and its first cluster.
\<close>

section \<open>Constants\<close>

abbreviation (input) SAMOS_FAT16_SIGNATURE :: u8 where "SAMOS_FAT16_SIGNATURE \<equiv> 0x29"
abbreviation (input) SAMOS_FAT16_FAT_ENTRY_SIZE :: int where "SAMOS_FAT16_FAT_ENTRY_SIZE \<equiv> 2"
abbreviation (input) SAMOS_FAT16_BAD_SECTOR :: int where "SAMOS_FAT16_BAD_SECTOR \<equiv> 0xFFF7"
abbreviation (input) SAMOS_FAT16_EOC :: int where "SAMOS_FAT16_EOC \<equiv> 0xFFF8"
abbreviation (input) SAMOS_FAT16_UNUSED :: int where "SAMOS_FAT16_UNUSED \<equiv> 0"
abbreviation (input) FAT_ITEM_TYPE_DIRECTORY :: u32 where "FAT_ITEM_TYPE_DIRECTORY \<equiv> 0"
abbreviation (input) FAT_ITEM_TYPE_FILE :: u32 where "FAT_ITEM_TYPE_FILE \<equiv> 1"
abbreviation (input) DIRECTORY_FREE :: u8 where "DIRECTORY_FREE \<equiv> 0xE5"
abbreviation (input) DIRECTORY_EMPTY :: u8 where "DIRECTORY_EMPTY \<equiv> 0x00"
abbreviation (input) FAT_FILE_READ_ONLY :: u8 where "FAT_FILE_READ_ONLY \<equiv> 0x01"
abbreviation (input) FAT_FILE_VOLUME_LABEL :: u8 where "FAT_FILE_VOLUME_LABEL \<equiv> 0x08"
abbreviation (input) FAT_FILE_SUBDIRECTORY :: u8 where "FAT_FILE_SUBDIRECTORY \<equiv> 0x10"
abbreviation (input) FAT_FILE_LONG_NAME :: u8 where "FAT_FILE_LONG_NAME \<equiv> 0x0F"

section \<open>Structures\<close>

record fat_header_extended =
  fx_drive_no :: u8
  fx_win_nt_bit :: u8
  fx_signature :: u8
  fx_volume_id :: u32
  fx_volume_id_str :: "u8 list"
  fx_system_id_str :: "u8 list"

record fat_header =
  fh_short_jmp_ins :: "u8 list"
  fh_oem_identifier :: "u8 list"
  fh_bytes_per_sector :: u16
  fh_sectors_per_cluster :: u8
  fh_reserved_sectors :: u16
  fh_fat_copies :: u8
  fh_root_dir_entries :: u16
  fh_number_of_sectors :: u16
  fh_media_type :: u8
  fh_sectors_per_fat :: u16
  fh_sectors_per_track :: u16
  fh_number_of_heads :: u16
  fh_hidden_sectors :: u32
  fh_sectors_big :: u32

record fat_h =
  fh_primary :: fat_header
  fh_extended :: fat_header_extended

record fat_directory_item =
  di_filename :: "u8 list"
  di_ext :: "u8 list"
  di_attribute :: u8
  di_reserved :: u8
  di_creation_time_tens_of_sec :: u8
  di_creation_time :: u16
  di_creation_date :: u16
  di_last_access :: u16
  di_high_16_bits_first_cluster :: u16
  di_last_mod_time :: u16
  di_last_mod_date :: u16
  di_low_16_bits_first_cluster :: u16
  di_filesize :: u32

abbreviation (input) sizeof_fat_h :: int where "sizeof_fat_h \<equiv> 62"
abbreviation (input) sizeof_item :: int where "sizeof_item \<equiv> 32"

definition field16 :: "u8 list \<Rightarrow> nat \<Rightarrow> u16" where
  "field16 bs i = le16 (bs ! i) (bs ! (i + 1))"

definition field32 :: "u8 list \<Rightarrow> nat \<Rightarrow> u32" where
  "field32 bs i = le32 (bs ! i) (bs ! (i + 1)) (bs ! (i + 2)) (bs ! (i + 3))"

definition decode_header :: "u8 list \<Rightarrow> fat_h" where
  "decode_header bs = \<lparr>
     fh_primary = \<lparr>
       fh_short_jmp_ins = take 3 bs, fh_oem_identifier = take 8 (drop 3 bs),
       fh_bytes_per_sector = field16 bs 11, fh_sectors_per_cluster = bs ! 13,
       fh_reserved_sectors = field16 bs 14, fh_fat_copies = bs ! 16,
       fh_root_dir_entries = field16 bs 17, fh_number_of_sectors = field16 bs 19,
       fh_media_type = bs ! 21, fh_sectors_per_fat = field16 bs 22,
       fh_sectors_per_track = field16 bs 24, fh_number_of_heads = field16 bs 26,
       fh_hidden_sectors = field32 bs 28, fh_sectors_big = field32 bs 32\<rparr>,
     fh_extended = \<lparr>
       fx_drive_no = bs ! 36, fx_win_nt_bit = bs ! 37, fx_signature = bs ! 38,
       fx_volume_id = field32 bs 39, fx_volume_id_str = take 11 (drop 43 bs),
       fx_system_id_str = take 8 (drop 54 bs)\<rparr>\<rparr>"

definition decode_item :: "u8 list \<Rightarrow> fat_directory_item" where
  "decode_item bs = \<lparr>
     di_filename = take 8 bs, di_ext = take 3 (drop 8 bs), di_attribute = bs ! 11,
     di_reserved = bs ! 12, di_creation_time_tens_of_sec = bs ! 13,
     di_creation_time = field16 bs 14, di_creation_date = field16 bs 16,
     di_last_access = field16 bs 18, di_high_16_bits_first_cluster = field16 bs 20,
     di_last_mod_time = field16 bs 22, di_last_mod_date = field16 bs 24,
     di_low_16_bits_first_cluster = field16 bs 26, di_filesize = field32 bs 28\<rparr>"

text \<open>An array of directory items read as raw bytes.\<close>

definition decode_items :: "u8 list \<Rightarrow> fat_directory_item list" where
  "decode_items bs = map (\<lambda>i. decode_item (take 32 (drop (32 * i) bs))) [0..<length bs div 32]"

definition zero_item :: fat_directory_item where
  "zero_item = decode_item (replicate 32 0)"

definition zero_header :: fat_h where
  "zero_header = decode_header (replicate 62 0)"

text \<open>The item of a file \<open>HELLO.TXT\<close>, for the examples.\<close>

definition hello_item :: fat_directory_item where
  "hello_item = zero_item\<lparr>di_filename := [72, 69, 76, 76, 79, 32, 32, 32], di_ext := [84, 88, 84]\<rparr>"

section \<open>Operations on one item\<close>

text \<open>
  \<open>fat16_to_proper_string\<close>: the output buffer, the position \<open>*out\<close> in it and \<open>*remaining\<close>
  are threaded through; \<open>src\<close> is the field from the pointer \<open>in\<close> on.
\<close>

fun proper_string_loop ::
  "u8 list \<Rightarrow> nat \<Rightarrow> int \<Rightarrow> u8 list \<Rightarrow> nat \<Rightarrow> (u8 list \<times> nat \<times> int) option" where
  "proper_string_loop out pos remaining src 0 = Some (out, pos, remaining)"
| "proper_string_loop out pos remaining src (Suc in_len) =
     (if remaining > 1 then (case src of [] \<Rightarrow> None
        | c # src' \<Rightarrow>
            if c \<noteq> 0x00 \<and> c \<noteq> 0x20 then do {
              out' \<leftarrow> put_idx out pos c;
              proper_string_loop out' (pos + 1) (remaining - 1) src' in_len }
            else Some (out, pos, remaining))
      else Some (out, pos, remaining))"

definition fat16_to_proper_string ::
  "u8 list \<Rightarrow> nat \<Rightarrow> int \<Rightarrow> u8 list \<Rightarrow> nat \<Rightarrow> (u8 list \<times> nat \<times> int) option" where
  "fat16_to_proper_string out pos remaining src in_len = do {
     (out1, pos1, remaining1) \<leftarrow> proper_string_loop out pos remaining src in_len;
     if remaining1 > 0 then do { out2 \<leftarrow> put_idx out1 pos1 0x00; Some (out2, pos1, remaining1) }
     else Some (out1, pos1, remaining1) }"

definition fat16_get_full_relative_filename ::
  "fat_directory_item \<Rightarrow> u8 list \<Rightarrow> int \<Rightarrow> u8 list option" where
  "fat16_get_full_relative_filename it out max_len =
     (if max_len \<le> 0 then Some out
      else do {
        out0 \<leftarrow> Option.bind (memset (Some out) 0x00 (word_of_int max_len)) id;
        (out1, pos, remaining) \<leftarrow> fat16_to_proper_string out0 0 max_len (di_filename it) 8;
        e \<leftarrow> at_idx (di_ext it) 0;
        if remaining > 1 \<and> e \<noteq> 0x00 \<and> e \<noteq> 0x20 then do {
          out2 \<leftarrow> put_idx out1 pos 0x2E;
          (out3, _, _) \<leftarrow> fat16_to_proper_string out2 (pos + 1) (remaining - 1) (di_ext it) 3;
          Some out3 }
        else Some out1 })"

text \<open>\<open>(high << 16) | low\<close> is an \<open>int\<close>: a high half of \<open>0x8000\<close> or more makes it negative.\<close>

definition fat16_get_first_cluster :: "fat_directory_item \<Rightarrow> int" where
  "fat16_get_first_cluster it =
     i32 (push_bit 16 (uint (di_high_16_bits_first_cluster it))) OR uint (di_low_16_bits_first_cluster it)"

section \<open>The names they make\<close>

definition trim :: "u8 list \<Rightarrow> u8 list" where
  "trim cs = takeWhile (\<lambda>c. c \<noteq> 0x00 \<and> c \<noteq> 0x20) cs"

text \<open>The name of an item as a path component: the trimmed name, and the extension if it has one.\<close>

definition item_name :: "fat_directory_item \<Rightarrow> u8 list" where
  "item_name it = trim (di_filename it) @ (if trim (di_ext it) = [] then [] else 0x2E # trim (di_ext it))"

definition item_shape :: "fat_directory_item \<Rightarrow> bool" where
  "item_shape it \<longleftrightarrow> length (di_filename it) = 8 \<and> length (di_ext it) = 3"

lemma length_trim: "length (trim cs) \<le> length cs"
  by (simp add: trim_def length_takeWhile_le)

lemma trim_no_nul: "0 \<notin> set (trim cs)"
  by (auto simp: trim_def dest: set_takeWhileD)

lemma proper_string_loop_eq:
  "int n < remaining \<Longrightarrow> n \<le> length src \<Longrightarrow> pos + n \<le> length out \<Longrightarrow>
   proper_string_loop out pos remaining src n =
     (let t = trim (take n src) in
      Some (take pos out @ t @ drop (pos + length t) out, pos + length t, remaining - int (length t)))"
proof (induction n arbitrary: out pos remaining src)
  case 0
  then show ?case by (simp add: trim_def)
next
  case (Suc n)
  then obtain c src' where src: "src = c # src'" by (cases src) auto
  show ?case
  proof (cases "c \<noteq> 0x00 \<and> c \<noteq> 0x20")
    case True
    have "proper_string_loop (out[pos := c]) (pos + 1) (remaining - 1) src' n =
       (let t = trim (take n src') in Some (take (pos + 1) (out[pos := c]) @ t @
          drop (pos + 1 + length t) (out[pos := c]), pos + 1 + length t, remaining - 1 - int (length t)))"
      by (rule Suc.IH) (use Suc.prems in \<open>auto simp: src\<close>)
    with True Suc.prems show ?thesis
      by (simp add: src buf Let_def trim_def take_Suc_conv_app_nth)
  next
    case False
    with Suc.prems show ?thesis by (auto simp: src trim_def)
  qed
qed

lemma fat16_to_proper_string_eq:
  assumes "int n < remaining" "length src = n" "pos + n < length out"
  shows "fat16_to_proper_string out pos remaining src n =
    Some (take pos out @ trim src @ 0 # drop (Suc (pos + length (trim src))) out,
          pos + length (trim src), remaining - int (length (trim src)))"
proof -
  have l: "length (trim src) \<le> n" using length_trim [of src] assms(2) by simp
  then have "pos + length (trim src) < length out" using assms(3) by simp
  then have "(take pos out @ trim src @ drop (pos + length (trim src)) out)[pos + length (trim src) := 0] =
      take pos out @ trim src @ 0 # drop (Suc (pos + length (trim src))) out"
    by (simp add: list_update_append Cons_nth_drop_Suc [symmetric])
  with l assms show ?thesis
    by (simp add: fat16_to_proper_string_def proper_string_loop_eq Let_def buf)
qed

lemma trim_Nil_iff: "trim (c # cs) = [] \<longleftrightarrow> c = 0x00 \<or> c = 0x20"
  by (auto simp: trim_def)

lemma full_name_spec:
  assumes "item_shape it" "13 \<le> m" "m < 2147483648" "length out = nat m"
  shows "\<exists>out'. fat16_get_full_relative_filename it out m = Some out' \<and> length out' = length out \<and>
    terminated out' \<and> cstr out' = item_name it"
proof -
  let ?a = "trim (di_filename it)" and ?b = "trim (di_ext it)"
  obtain e es where e: "di_ext it = e # es" using assms(1) by (cases "di_ext it") (auto simp: item_shape_def)
  have la: "length ?a \<le> 8" and lb: "length ?b \<le> 3"
    using length_trim [of "di_filename it"] length_trim [of "di_ext it"] assms(1) by (auto simp: item_shape_def)
  have "unat (word_of_int m :: u32) = nat m" using assms(2,3) by (simp add: unat_of_int_small)
  then have z: "Option.bind (memset (Some out) 0 (word_of_int m)) id = Some (replicate (nat m) 0)"
    using assms(4) by (simp add: memset_def memset_loop_fill)
  let ?o1 = "?a @ 0 # replicate (nat m - Suc (length ?a)) 0"
  have 1: "fat16_to_proper_string (replicate (nat m) 0) 0 m (di_filename it) 8 =
      Some (?o1, length ?a, m - int (length ?a))"
    using fat16_to_proper_string_eq [of 8 m "di_filename it" 0 "replicate (nat m) 0"] assms
    by (simp add: item_shape_def)
  have rem: "m - int (length ?a) > 1" using la assms(2) by simp
  show ?thesis
  proof (cases "?b = []")
    case True
    then have "\<not> (e \<noteq> 0x00 \<and> e \<noteq> 0x20)" by (simp add: e trim_Nil_iff)
    then have "fat16_get_full_relative_filename it out m = Some ?o1"
      using z 1 assms(2) e by (auto simp: fat16_get_full_relative_filename_def buf)
    moreover have "length ?o1 = length out" using la assms by simp
    ultimately show ?thesis
      using True by (simp add: item_name_def terminated_append0 cstr_append0 trim_no_nul)
  next
    case False
    then have ne: "e \<noteq> 0x00 \<and> e \<noteq> 0x20" by (simp add: e trim_Nil_iff)
    let ?o2 = "?o1[length ?a := 0x2E]"
    have o2: "put_idx ?o1 (length ?a) 0x2E = Some ?o2" by (simp add: buf)
    have l2: "length ?o2 = nat m" using la assms(2) by simp
    let ?o3 = "(?a @ 0x2E # ?b) @ 0 # drop (Suc (length ?a + 1 + length ?b)) ?o2"
    have "take (length ?a + 1) ?o2 = ?a @ [0x2E]" by simp
    then have 2: "fat16_to_proper_string ?o2 (length ?a + 1) (m - int (length ?a) - 1) (di_ext it) 3 =
        Some (?o3, length ?a + 1 + length ?b, m - int (length ?a) - 1 - int (length ?b))"
      using fat16_to_proper_string_eq [of 3 "m - int (length ?a) - 1" "di_ext it" "length ?a + 1" ?o2]
        la l2 assms(1,2) by (simp add: item_shape_def)
    have "fat16_get_full_relative_filename it out m = Some ?o3"
      using z 1 rem ne 2 o2 assms(2) e by (simp add: fat16_get_full_relative_filename_def buf)
    moreover have "length ?o3 = length out" using la lb l2 assms(2,4) by simp
    moreover have "0 \<notin> set (?a @ 0x2E # ?b)" by (simp add: trim_no_nul)
    ultimately show ?thesis
      using False cstr_append0 terminated_append0 by (fastforce simp: item_name_def)
  qed
qed

section \<open>Properties\<close>

text \<open>
  C38. With a buffer of at least 13 bytes, \<open>fat16_get_full_relative_filename\<close> always
  returns, keeps the buffer's size, and leaves in it the terminated name: the file name up
  to its first pad byte, and a dot and the extension when the extension is not blank.
\<close>

theorem fat16_full_name_correct:
  assumes "item_shape it" "13 \<le> m" "m < 2147483648" "length out = nat m"
  shows "\<exists>out'. fat16_get_full_relative_filename it out m = Some out' \<and> length out' = length out \<and>
    terminated out' \<and> cstr out' = item_name it"
  using assms by (rule full_name_spec)

theorem fat16_full_name_correct_witness:
  "\<exists>out'. fat16_get_full_relative_filename hello_item (replicate 108 9) 108 = Some out' \<and>
     length out' = length (replicate 108 (9 :: u8)) \<and> terminated out' \<and> cstr out' = item_name hello_item"
  by (rule fat16_full_name_correct) (simp_all add: hello_item_def zero_item_def decode_item_def item_shape_def)

end
