(* ===== verification/Kernel_State.thy ===== *)
theory Kernel_State
  imports Block_Heap Terminal Ata_Disk Fat16_Format Memory_Ops
begin

text \<open>
  The memory of the running kernel. Static objects are fields of one record. Objects on
  the kernel heap are typed: \<open>ks_objs\<close> maps the address of an allocation to the struct or
  array the code uses it as, and the block table of \<open>Block_Heap\<close> decides the addresses.
  A dereference of an address with no object, or with one of another type, has no result.
  Memory that carries no object is bytes (\<open>ks_raw\<close>), and the objects \<open>kzalloc\<close> hands out are
  read off the bytes it leaves (section ``Objects as bytes'').

  The second half models \<open>src/memory/heap/kheap.c\<close>: \<open>kmalloc\<close>, \<open>kzalloc\<close> and \<open>kfree\<close>.
\<close>

section \<open>Objects\<close>

text \<open>A \<open>struct filesystem*\<close>: null, or the only filesystem object of the program.\<close>

datatype fs_ptr = FS_NULL | FAT16_FS

text \<open>\<open>src/disk/disk.h\<close>, \<open>src/disk/streamer.h\<close>\<close>

record disk =
  dk_id :: int
  dk_type :: u32
  dk_sector_size :: int
  dk_filesystem :: fs_ptr
  dk_fs_private :: u32

record disk_stream =
  ds_pos :: int
  ds_disk :: disk_ptr

text \<open>\<open>src/fs/pparser.h\<close>\<close>

record path_root =
  pr_drive_no :: int
  pr_first :: u32

record part_path =
  pp_part :: u32
  pp_next :: u32

text \<open>\<open>src/fs/fat/fat16.c\<close>; the union in \<open>fat_item\<close> holds one pointer of two types.\<close>

record fat_directory =
  fd_item :: u32
  fd_total :: int
  fd_sector_pos :: int
  fd_ending_sector_pos :: int

record fat_item =
  fi_shared :: u32
  fi_type :: u32

record fat_file_descriptor =
  ff_item :: u32
  ff_pos :: u32

record fat_private =
  fp_header :: fat_h
  fp_root_directory :: fat_directory
  fp_cluster_read_stream :: u32
  fp_fat_read_stream :: u32
  fp_directory_stream :: u32

text \<open>\<open>src/fs/file.h\<close>\<close>

record file_descriptor =
  fl_index :: int
  fl_filesystem :: fs_ptr
  fl_private :: u32
  fl_disk :: disk_ptr

datatype obj =
    OBytes "u8 list"
  | OWords "u32 list"
  | ORoot path_root
  | OPart part_path
  | OStream disk_stream
  | OPrivate fat_private
  | OItems "fat_directory_item list"
  | ODirectory fat_directory
  | OFatItem fat_item
  | OFatFile fat_file_descriptor
  | OFile file_descriptor
  | OChunk u32

record 'd kst =
  ks_heap :: heap
  ks_objs :: "u32 \<Rightarrow> obj option"
  ks_dev :: 'd
  ks_disk :: disk
  ks_filesystems :: "fs_ptr list"
  ks_file_descriptors :: "u32 list"
  ks_term :: terminal
  ks_raw :: "u32 \<Rightarrow> u8"

text \<open>
  The kernel's memory when \<open>kernel_main\<close> starts: statics are zero, the heap is not set up,
  and the memory it will manage holds anything but zeros.
\<close>

definition boot_state :: "'d \<Rightarrow> 'd kst" where
  "boot_state d = \<lparr>
     ks_heap = fresh_heap 0 0, ks_objs = Map.empty, ks_dev = d,
     ks_disk = \<lparr>dk_id = 0, dk_type = 0, dk_sector_size = 0, dk_filesystem = FS_NULL, dk_fs_private = 0\<rparr>,
     ks_filesystems = replicate SAMOS_MAX_FILESYSTEMS FS_NULL,
     ks_file_descriptors = replicate SAMOS_MAX_FILE_DESCRIPTORS 0,
     ks_term = \<lparr>tm_video_mem = 0, tm_cells = (\<lambda>_. 0), tm_row = 0, tm_col = 0\<rparr>, ks_raw = (\<lambda>_. 0xAA)\<rparr>"

section \<open>Objects as bytes\<close>

text \<open>
  How the compiler lays the structs out: 32-bit fields, little-endian, in order. A pointer
  to a struct of one static object is that object when it is not null.
\<close>

definition int_at :: "u8 list \<Rightarrow> nat \<Rightarrow> int" where
  "int_at b i = sint (field32 b i)"

definition disk_at :: "u8 list \<Rightarrow> nat \<Rightarrow> disk_ptr" where
  "disk_at b i = (if field32 b i = 0 then DISK_NULL else DISK)"

definition fs_at :: "u8 list \<Rightarrow> nat \<Rightarrow> fs_ptr" where
  "fs_at b i = (if field32 b i = 0 then FS_NULL else FAT16_FS)"

definition fat_directory_at :: "u8 list \<Rightarrow> nat \<Rightarrow> fat_directory" where
  "fat_directory_at b i = \<lparr>fd_item = field32 b i, fd_total = int_at b (i + 4), fd_sector_pos = int_at b (i + 8),
     fd_ending_sector_pos = int_at b (i + 12)\<rparr>"

definition as_bytes :: "u8 list \<Rightarrow> obj" where
  "as_bytes b = OBytes b"

definition as_words :: "u8 list \<Rightarrow> obj" where
  "as_words b = OWords (map (\<lambda>k. field32 b (4 * k)) [0..<length b div 4])"

definition as_root :: "u8 list \<Rightarrow> obj" where
  "as_root b = ORoot \<lparr>pr_drive_no = int_at b 0, pr_first = field32 b 4\<rparr>"

definition as_part :: "u8 list \<Rightarrow> obj" where
  "as_part b = OPart \<lparr>pp_part = field32 b 0, pp_next = field32 b 4\<rparr>"

definition as_stream :: "u8 list \<Rightarrow> obj" where
  "as_stream b = OStream \<lparr>ds_pos = int_at b 0, ds_disk = disk_at b 4\<rparr>"

text \<open>The header is 62 bytes; the directory after it is aligned to 4 bytes.\<close>

definition as_private :: "u8 list \<Rightarrow> obj" where
  "as_private b = OPrivate \<lparr>fp_header = decode_header (take 62 b), fp_root_directory = fat_directory_at b 64,
     fp_cluster_read_stream = field32 b 80, fp_fat_read_stream = field32 b 84, fp_directory_stream = field32 b 88\<rparr>"

definition as_items :: "u8 list \<Rightarrow> obj" where
  "as_items b = OItems (decode_items b)"

definition as_directory :: "u8 list \<Rightarrow> obj" where
  "as_directory b = ODirectory (fat_directory_at b 0)"

definition as_fat_item :: "u8 list \<Rightarrow> obj" where
  "as_fat_item b = OFatItem \<lparr>fi_shared = field32 b 0, fi_type = field32 b 4\<rparr>"

definition as_fat_file :: "u8 list \<Rightarrow> obj" where
  "as_fat_file b = OFatFile \<lparr>ff_item = field32 b 0, ff_pos = field32 b 4\<rparr>"

definition as_file :: "u8 list \<Rightarrow> obj" where
  "as_file b = OFile \<lparr>fl_index = int_at b 0, fl_filesystem = fs_at b 4, fl_private = field32 b 8, fl_disk = disk_at b 12\<rparr>"

definition as_chunk :: "u8 list \<Rightarrow> obj" where
  "as_chunk b = OChunk (field32 b 0)"

section \<open>Reading and writing objects\<close>

definition obj_bytes :: "'d kst \<Rightarrow> u32 \<Rightarrow> u8 list option" where
  "obj_bytes s p = (case ks_objs s p of Some (OBytes x) \<Rightarrow> Some x | _ \<Rightarrow> None)"

definition obj_words :: "'d kst \<Rightarrow> u32 \<Rightarrow> u32 list option" where
  "obj_words s p = (case ks_objs s p of Some (OWords x) \<Rightarrow> Some x | _ \<Rightarrow> None)"

definition obj_root :: "'d kst \<Rightarrow> u32 \<Rightarrow> path_root option" where
  "obj_root s p = (case ks_objs s p of Some (ORoot x) \<Rightarrow> Some x | _ \<Rightarrow> None)"

definition obj_part :: "'d kst \<Rightarrow> u32 \<Rightarrow> part_path option" where
  "obj_part s p = (case ks_objs s p of Some (OPart x) \<Rightarrow> Some x | _ \<Rightarrow> None)"

definition obj_stream :: "'d kst \<Rightarrow> u32 \<Rightarrow> disk_stream option" where
  "obj_stream s p = (case ks_objs s p of Some (OStream x) \<Rightarrow> Some x | _ \<Rightarrow> None)"

definition obj_private :: "'d kst \<Rightarrow> u32 \<Rightarrow> fat_private option" where
  "obj_private s p = (case ks_objs s p of Some (OPrivate x) \<Rightarrow> Some x | _ \<Rightarrow> None)"

definition obj_items :: "'d kst \<Rightarrow> u32 \<Rightarrow> fat_directory_item list option" where
  "obj_items s p = (case ks_objs s p of Some (OItems x) \<Rightarrow> Some x | _ \<Rightarrow> None)"

definition obj_directory :: "'d kst \<Rightarrow> u32 \<Rightarrow> fat_directory option" where
  "obj_directory s p = (case ks_objs s p of Some (ODirectory x) \<Rightarrow> Some x | _ \<Rightarrow> None)"

definition obj_fat_item :: "'d kst \<Rightarrow> u32 \<Rightarrow> fat_item option" where
  "obj_fat_item s p = (case ks_objs s p of Some (OFatItem x) \<Rightarrow> Some x | _ \<Rightarrow> None)"

definition obj_fat_file :: "'d kst \<Rightarrow> u32 \<Rightarrow> fat_file_descriptor option" where
  "obj_fat_file s p = (case ks_objs s p of Some (OFatFile x) \<Rightarrow> Some x | _ \<Rightarrow> None)"

definition obj_file :: "'d kst \<Rightarrow> u32 \<Rightarrow> file_descriptor option" where
  "obj_file s p = (case ks_objs s p of Some (OFile x) \<Rightarrow> Some x | _ \<Rightarrow> None)"

definition store :: "u32 \<Rightarrow> obj \<Rightarrow> 'd kst \<Rightarrow> 'd kst" where
  "store p x s = s\<lparr>ks_objs := (ks_objs s)(p \<mapsto> x)\<rparr>"

named_theorems deref "reading objects"

lemma obj_iff [deref]:
  "obj_bytes s p = Some a \<longleftrightarrow> ks_objs s p = Some (OBytes a)"
  "obj_words s p = Some b \<longleftrightarrow> ks_objs s p = Some (OWords b)"
  "obj_root s p = Some c \<longleftrightarrow> ks_objs s p = Some (ORoot c)"
  "obj_part s p = Some d \<longleftrightarrow> ks_objs s p = Some (OPart d)"
  "obj_stream s p = Some e \<longleftrightarrow> ks_objs s p = Some (OStream e)"
  "obj_private s p = Some f \<longleftrightarrow> ks_objs s p = Some (OPrivate f)"
  "obj_items s p = Some g \<longleftrightarrow> ks_objs s p = Some (OItems g)"
  "obj_directory s p = Some i \<longleftrightarrow> ks_objs s p = Some (ODirectory i)"
  "obj_fat_item s p = Some j \<longleftrightarrow> ks_objs s p = Some (OFatItem j)"
  "obj_fat_file s p = Some k \<longleftrightarrow> ks_objs s p = Some (OFatFile k)"
  "obj_file s p = Some l \<longleftrightarrow> ks_objs s p = Some (OFile l)"
  by (auto simp: obj_bytes_def obj_words_def obj_root_def obj_part_def obj_stream_def
      obj_private_def obj_items_def obj_directory_def obj_fat_item_def obj_fat_file_def
      obj_file_def split: option.splits obj.splits)

lemma obj_Some [deref]:
  "ks_objs s p = Some (OBytes a) \<Longrightarrow> obj_bytes s p = Some a"
  "ks_objs s p = Some (OWords b) \<Longrightarrow> obj_words s p = Some b"
  "ks_objs s p = Some (ORoot c) \<Longrightarrow> obj_root s p = Some c"
  "ks_objs s p = Some (OPart d) \<Longrightarrow> obj_part s p = Some d"
  "ks_objs s p = Some (OStream e) \<Longrightarrow> obj_stream s p = Some e"
  "ks_objs s p = Some (OPrivate f) \<Longrightarrow> obj_private s p = Some f"
  "ks_objs s p = Some (OItems g) \<Longrightarrow> obj_items s p = Some g"
  "ks_objs s p = Some (ODirectory i) \<Longrightarrow> obj_directory s p = Some i"
  "ks_objs s p = Some (OFatItem j) \<Longrightarrow> obj_fat_item s p = Some j"
  "ks_objs s p = Some (OFatFile k) \<Longrightarrow> obj_fat_file s p = Some k"
  "ks_objs s p = Some (OFile l) \<Longrightarrow> obj_file s p = Some l"
  by (simp_all add: obj_iff)

lemma obj_null [deref]:
  "ks_objs s p = None \<Longrightarrow> obj_bytes s p = None \<and> obj_root s p = None \<and> obj_part s p = None \<and>
     obj_stream s p = None \<and> obj_private s p = None \<and> obj_fat_item s p = None \<and> obj_file s p = None"
  by (simp add: obj_bytes_def obj_root_def obj_part_def obj_stream_def obj_private_def
      obj_fat_item_def obj_file_def)

lemma ks_store [simp]:
  "ks_heap (store p x s) = ks_heap s" "ks_dev (store p x s) = ks_dev s" "ks_disk (store p x s) = ks_disk s"
  "ks_filesystems (store p x s) = ks_filesystems s" "ks_term (store p x s) = ks_term s"
  "ks_file_descriptors (store p x s) = ks_file_descriptors s"
  "ks_objs (store p x s) = (ks_objs s)(p \<mapsto> x)"
  by (simp_all add: store_def)

lemma store_same: "ks_objs s p = Some x \<Longrightarrow> store p x s = s"
  by (simp add: store_def fun_upd_idem)

lemma store_store [simp]: "store p x (store p y s) = store p x s"
  by (simp add: store_def)

section \<open>The kernel heap\<close>

text \<open>
  \<open>kheap_init\<close>: the table lies at \<open>SAMOS_HEAP_TABLE_ADDR\<close>, whose bytes at that time are
  \<open>raw\<close>. A failure prints a message and never returns.
\<close>

definition kheap_init :: "u8 list \<Rightarrow> 'd kst \<Rightarrow> 'd kst option" where
  "kheap_init raw s =
     (let total_heap_entries = SAMOS_HEAP_SIZE_BYTES sdiv 4096;
          tab = \<lparr>ht_entries = Some raw, ht_total = word_of_int total_heap_entries\<rparr>;
          stop = SAMOS_HEAP_START_ADDR + word_of_int SAMOS_HEAP_SIZE_BYTES in do {
        (res, hp) \<leftarrow> heap_create (Some (ks_heap s)) SAMOS_HEAP_START_ADDR stop (Some tab);
        if res < 0 then None
        else do { h \<leftarrow> hp; Some (s\<lparr>ks_heap := h\<rparr>) } })"

definition kmalloc :: "u32 \<Rightarrow> 'd kst \<Rightarrow> (u32 \<times> 'd kst) option" where
  "kmalloc n s = do {
     (p, h) \<leftarrow> heap_malloc (ks_heap s) n;
     Some (p, s\<lparr>ks_heap := h\<rparr>) }"

text \<open>
  \<open>kfree\<close>; the object at a freed address is gone, so that a use after the free has no
  result.
\<close>

definition kfree :: "u32 \<Rightarrow> 'd kst \<Rightarrow> 'd kst option" where
  "kfree p s = do {
     h \<leftarrow> heap_free (ks_heap s) p;
     Some (s\<lparr>ks_heap := h, ks_objs := (ks_objs s)(p := None)\<rparr>) }"

text \<open>
  \<open>kzalloc\<close>: the \<open>memset\<close> overwrites the bytes at the new address, and \<open>view\<close> is the type
  the caller uses them as.
\<close>

definition raw_bytes :: "'d kst \<Rightarrow> u32 \<Rightarrow> nat \<Rightarrow> u8 list" where
  "raw_bytes s p n = map (\<lambda>i. ks_raw s (p + word_of_nat i)) [0..<n]"

definition kzalloc :: "u32 \<Rightarrow> (u8 list \<Rightarrow> obj) \<Rightarrow> 'd kst \<Rightarrow> (u32 \<times> 'd kst) option" where
  "kzalloc n view s = do {
     (p, s1) \<leftarrow> kmalloc n s;
     if p = 0 then Some (0, s1)
     else do {
       ptr \<leftarrow> memset (Some (raw_bytes s1 p (unat n))) 0x00 n;
       bytes \<leftarrow> ptr;
       Some (p, store p (view bytes) s1) } }"

text \<open>What this comes to: an allocation that carries the object of \<open>n\<close> zero bytes.\<close>

definition zalloc :: "u32 \<Rightarrow> obj \<Rightarrow> 'd kst \<Rightarrow> (u32 \<times> 'd kst) option" where
  "zalloc n zero s = do {
     (p, s1) \<leftarrow> kmalloc n s;
     if p = 0 then Some (0, s1) else Some (p, store p zero s1) }"

lemma memset_raw: "memset (Some (raw_bytes s p (unat n))) 0 n = Some (Some (replicate (unat n) 0))"
  by (simp add: memset_def memset_loop_fill raw_bytes_def)

lemma kzalloc_zalloc: "kzalloc n view s = zalloc n (view (replicate (unat n) 0)) s"
  by (cases "kmalloc n s") (auto simp: kzalloc_def zalloc_def memset_raw)

lemma field_zero: "i + 3 < n \<Longrightarrow> field32 (replicate n 0) i = 0"
  by (simp add: field32_def le32_def)

lemma decode_items_zero: "decode_items (replicate (32 * n) 0) = replicate n zero_item"
  by (rule nth_equalityI) (simp_all add: decode_items_def zero_item_def min_def)

lemma kzalloc_items:
  "unat n = 32 * k \<Longrightarrow> kzalloc n as_items s = zalloc n (OItems (replicate k zero_item)) s"
  by (simp add: kzalloc_zalloc as_items_def decode_items_zero)

text \<open>The zeroed structs.\<close>

lemma kzalloc_views [simp]:
  "kzalloc 8 as_root s = zalloc 8 (ORoot \<lparr>pr_drive_no = 0, pr_first = 0\<rparr>) s"
  "kzalloc 8 as_part s = zalloc 8 (OPart \<lparr>pp_part = 0, pp_next = 0\<rparr>) s"
  "kzalloc 8 as_stream s = zalloc 8 (OStream \<lparr>ds_pos = 0, ds_disk = DISK_NULL\<rparr>) s"
  "kzalloc 8 as_fat_item s = zalloc 8 (OFatItem \<lparr>fi_shared = 0, fi_type = 0\<rparr>) s"
  "kzalloc 8 as_fat_file s = zalloc 8 (OFatFile \<lparr>ff_item = 0, ff_pos = 0\<rparr>) s"
  "kzalloc 16 as_file s = zalloc 16 (OFile \<lparr>fl_index = 0, fl_filesystem = FS_NULL, fl_private = 0, fl_disk = DISK_NULL\<rparr>) s"
  "kzalloc 4 as_chunk s = zalloc 4 (OChunk 0) s"
  "kzalloc 108 as_bytes s = zalloc 108 (OBytes (replicate 108 0)) s"
  "kzalloc 4096 as_bytes s = zalloc 4096 (OBytes (replicate 4096 0)) s"
  by (simp_all add: kzalloc_zalloc as_root_def as_part_def as_stream_def as_fat_item_def as_fat_file_def as_file_def
      as_chunk_def as_bytes_def int_at_def disk_at_def fs_at_def field_zero)

lemma kzalloc_words [simp]: "kzalloc 4096 as_words s = zalloc 4096 (OWords (replicate 1024 0)) s"
proof -
  have "map (\<lambda>k. field32 (replicate 4096 0) (4 * k)) [0..<1024] = replicate 1024 0"
    by (rule nth_equalityI) (simp_all add: field_zero)
  then show ?thesis by (simp add: kzalloc_zalloc as_words_def)
qed

lemma kzalloc_directory:
  "kzalloc 16 as_directory s =
     zalloc 16 (ODirectory \<lparr>fd_item = 0, fd_total = 0, fd_sector_pos = 0, fd_ending_sector_pos = 0\<rparr>) s"
  by (simp add: kzalloc_zalloc as_directory_def fat_directory_at_def int_at_def field_zero)

lemma kzalloc_private:
  "kzalloc 92 as_private s = zalloc 92 (OPrivate \<lparr>fp_header = zero_header,
     fp_root_directory = \<lparr>fd_item = 0, fd_total = 0, fd_sector_pos = 0, fd_ending_sector_pos = 0\<rparr>,
     fp_cluster_read_stream = 0, fp_fat_read_stream = 0, fp_directory_stream = 0\<rparr>) s"
  by (simp add: kzalloc_zalloc as_private_def fat_directory_at_def int_at_def field_zero zero_header_def)

section \<open>The heap invariant of the kernel\<close>

text \<open>
  \<open>heap_ok s B\<close>: the heap owns exactly the addresses of \<open>B\<close>, and these are the addresses
  that carry an object.
\<close>

definition heap_ok :: "'d kst \<Rightarrow> (u32 \<Rightarrow> nat option) \<Rightarrow> bool" where
  "heap_ok s B \<longleftrightarrow> heap_owns (ks_heap s) B \<and> (\<forall>p. B p = None \<longleftrightarrow> ks_objs s p = None)"

lemma heap_ok_null: "heap_ok s B \<Longrightarrow> ks_objs s 0 = None"
  using kernel.null_not_owned by (auto simp: heap_ok_def)

lemma heap_ok_store: "heap_ok s B \<Longrightarrow> ks_objs s p \<noteq> None \<Longrightarrow> heap_ok (store p x s) B"
  by (auto simp: heap_ok_def)

lemma heap_ok_restore: "heap_ok (store p x s) B \<Longrightarrow> heap_ok (store p y s) B"
  by (auto simp: heap_ok_def)

lemma zalloc_cases:
  assumes "heap_ok s B"
  obtains (null) "zalloc n z s = Some (0, s)"
  | (fresh) p h' where "zalloc n z s = Some (p, store p z (s\<lparr>ks_heap := h'\<rparr>))" "p \<noteq> 0"
      "unat p < 2147483648" "ks_objs s p = None" "B p = None"
      "heap_ok (store p z (s\<lparr>ks_heap := h'\<rparr>)) (B(p \<mapsto> blocks_of n))" "same_frame (ks_heap s) h'"
proof -
  from assms have o: "heap_owns (ks_heap s) B" by (simp add: heap_ok_def)
  from heap_owns_alloc [OF o, of n] show thesis
  proof (elim disjE exE conjE)
    fix p h' assume h: "heap_malloc (ks_heap s) n = Some (p, h')" "p \<noteq> 0" "unat p < 2147483648"
      "B p = None" "heap_owns h' (B(p \<mapsto> blocks_of n))" "same_frame (ks_heap s) h'"
    show thesis
      by (rule fresh [of p h'])
        (use h assms in \<open>auto simp: zalloc_def kmalloc_def heap_ok_def store_def\<close>)
  next
    assume "heap_malloc (ks_heap s) n = Some (0, ks_heap s)"
    then show thesis by (intro null) (simp add: zalloc_def kmalloc_def)
  qed
qed

lemma zalloc_one_block:
  assumes "heap_ok s B" "0 < unat n" "unat n \<le> 4096" "0 < free_count (ks_heap s)"
  obtains p h' where "zalloc n z s = Some (p, store p z (s\<lparr>ks_heap := h'\<rparr>))" "p \<noteq> 0"
      "unat p < 2147483648" "ks_objs s p = None" "B p = None"
      "heap_ok (store p z (s\<lparr>ks_heap := h'\<rparr>)) (B(p \<mapsto> 1))" "same_frame (ks_heap s) h'"
      "free_count (ks_heap s) = Suc (free_count h')"
proof -
  obtain q h where q: "heap_malloc (ks_heap s) n = Some (q, h)" "q \<noteq> 0" "free_count (ks_heap s) = Suc (free_count h)"
    using heap_owns_one_block [OF _ assms(2,3,4), of B] assms(1) unfolding heap_ok_def by blast
  have k: "blocks_of n = 1" using assms(2,3) by (simp add: blocks_of_def div_nat_eqI)
  show thesis
    using assms(1)
  proof (cases rule: zalloc_cases [of s B n z])
    case null
    then show thesis using q by (simp add: zalloc_def kmalloc_def)
  next
    case (fresh p h')
    then have "h' = h \<and> p = q" using q by (auto simp: zalloc_def kmalloc_def store_def dest: arg_cong [of _ _ ks_heap])
    then show thesis using fresh q k that [of p h'] by simp
  qed
qed

definition released :: "u32 \<Rightarrow> heap \<Rightarrow> 'd kst \<Rightarrow> 'd kst" where
  "released p h s = s\<lparr>ks_heap := h, ks_objs := (ks_objs s)(p := None)\<rparr>"

lemma kfree_ok:
  assumes "heap_ok s B"
  obtains h' where "kfree p s = Some (released p h' s)" "heap_ok (released p h' s) (B(p := None))"
    "same_frame (ks_heap s) h'"
proof -
  have o: "heap_owns (ks_heap s) B" using assms by (simp add: heap_ok_def)
  obtain h' where h': "heap_free (ks_heap s) p = Some h'" "heap_owns h' (B(p := None))"
    "h' = ks_heap s \<or> same_frame (ks_heap s) h'"
    using kernel.release_returns [OF o, of p] by blast
  then have "same_frame (ks_heap s) h'" by (auto simp: same_frame_def)
  with h' assms show thesis
    by (intro that [of h']) (auto simp: kfree_def heap_ok_def released_def)
qed

text \<open>Two heaps with the same frame that own the same map are the same heap.\<close>

lemma heap_ok_unique:
  "heap_ok s B \<Longrightarrow> heap_ok s' B \<Longrightarrow> same_frame (ks_heap s) (ks_heap s') \<Longrightarrow> ks_heap s' = ks_heap s"
  unfolding heap_ok_def by (metis kernel.rep_unique)

lemma same_frame_refl [simp]: "same_frame h h"
  by (simp add: same_frame_def)

lemma same_frame_trans: "same_frame h h' \<Longrightarrow> same_frame h' h'' \<Longrightarrow> same_frame h h''"
  by (simp add: same_frame_def)

lemma heap_ok_None: "heap_ok s B \<Longrightarrow> B p = None \<longleftrightarrow> ks_objs s p = None"
  by (simp add: heap_ok_def)

lemma kfree_unowned:
  assumes "heap_ok s B" "B p = None"
  shows "kfree p s = Some s"
proof -
  have "heap_free (ks_heap s) p = Some (ks_heap s)"
    using assms kernel.release_other [of "ks_heap s" B p] by (simp add: heap_ok_def)
  moreover have "(ks_objs s)(p := None) = ks_objs s"
    using assms by (simp add: heap_ok_def fun_upd_idem)
  ultimately show ?thesis by (simp add: kfree_def)
qed

lemma kfree_null: "heap_ok s B \<Longrightarrow> kfree 0 s = Some s"
  by (simp add: kfree_unowned heap_ok_None heap_ok_null)

text \<open>
  An allocation that is freed leaves no trace, whatever happened in between to the
  objects that were there before, as long as the heap still owns just that allocation
  more than at the start.
\<close>

lemma kfree_last:
  assumes "heap_ok s B" "B p = None" "heap_ok t (B(p \<mapsto> k))" "same_frame (ks_heap s) (ks_heap t)"
  shows "kfree p t = Some (released p (ks_heap s) t) \<and> heap_ok (released p (ks_heap s) t) B"
  using assms(3)
proof (rule kfree_ok [of _ _ p])
  fix h' assume h: "kfree p t = Some (released p h' t)"
    "heap_ok (released p h' t) ((B(p \<mapsto> k))(p := None))" "same_frame (ks_heap t) h'"
  have "(B(p \<mapsto> k))(p := None) = B" using assms(2) by (simp add: fun_upd_idem)
  moreover from this have "h' = ks_heap s"
    using heap_ok_unique [OF assms(1), of "released p h' t"] h(2,3) assms(4)
    by (simp add: released_def same_frame_trans)
  ultimately show ?thesis using h by simp
qed

lemma zalloc_kfree:
  assumes "heap_ok s B" "zalloc n z s = Some (p, s')"
  shows "kfree p s' = Some s"
  using assms(1)
proof (cases rule: zalloc_cases [of s B n z])
  case null
  then show ?thesis using assms kfree_null by auto
next
  case (fresh q h')
  then have "kfree q s' = Some (released q (ks_heap s) s')"
    using kfree_last [OF assms(1) fresh(5,6)] assms(2) by (simp add: store_def)
  moreover have "released q (ks_heap s) s' = s"
    using fresh(1,4) assms(2) by (auto simp: released_def store_def fun_upd_idem)
  ultimately show ?thesis using fresh(1) assms(2) by simp
qed

section \<open>Changes confined to some addresses\<close>

text \<open>
  \<open>grown s X s'\<close>: from \<open>s\<close> to \<open>s'\<close> only the heap and the objects at addresses of \<open>X\<close>
  changed; \<open>with_blocks B X\<close>: one more block allocated at each of them.
\<close>

definition grown :: "'d kst \<Rightarrow> u32 set \<Rightarrow> 'd kst \<Rightarrow> bool" where
  "grown s X s' \<longleftrightarrow> (\<exists>h ob. s' = s\<lparr>ks_heap := h, ks_objs := ob\<rparr> \<and> same_frame (ks_heap s) h \<and>
     (\<forall>p. p \<notin> X \<longrightarrow> ob p = ks_objs s p))"

definition with_blocks :: "(u32 \<Rightarrow> nat option) \<Rightarrow> u32 set \<Rightarrow> u32 \<Rightarrow> nat option" where
  "with_blocks B X = (\<lambda>p. if p \<in> X then Some 1 else B p)"

lemma grown_refl: "grown s X s"
  unfolding grown_def by (intro exI [of _ "ks_heap s"] exI [of _ "ks_objs s"]) simp

lemma grown_trans: "grown s X s' \<Longrightarrow> grown s' Y s'' \<Longrightarrow> grown s (X \<union> Y) s''"
  by (fastforce simp: grown_def elim: same_frame_trans)

lemma grown_mono: "grown s X s' \<Longrightarrow> X \<subseteq> Y \<Longrightarrow> grown s Y s'"
  by (fastforce simp: grown_def)

lemma grown_store: "grown s {p} (store p x s)"
  unfolding grown_def store_def
  by (intro exI [of _ "ks_heap s"] exI [of _ "(ks_objs s)(p \<mapsto> x)"]) simp

lemma grown_zalloc: "same_frame (ks_heap s) h \<Longrightarrow> grown s {p} (store p x (s\<lparr>ks_heap := h\<rparr>))"
  unfolding grown_def store_def
  by (intro exI [of _ h] exI [of _ "(ks_objs s)(p \<mapsto> x)"]) simp

lemma grown_released: "same_frame (ks_heap s) h \<Longrightarrow> grown s {p} (released p h s)"
  unfolding grown_def released_def
  by (intro exI [of _ h] exI [of _ "(ks_objs s)(p := None)"]) simp

lemma grown_frame: "grown s X s' \<Longrightarrow> same_frame (ks_heap s) (ks_heap s')"
  by (auto simp: grown_def)

lemma grown_objs: "grown s X s' \<Longrightarrow> p \<notin> X \<Longrightarrow> ks_objs s' p = ks_objs s p"
  by (auto simp: grown_def)

lemma grown_rest: "grown s X s' \<Longrightarrow> ks_dev s' = ks_dev s \<and> ks_disk s' = ks_disk s \<and>
   ks_filesystems s' = ks_filesystems s \<and> ks_file_descriptors s' = ks_file_descriptors s \<and> ks_term s' = ks_term s"
  by (auto simp: grown_def)

lemma grown_shrink: "grown s (insert x X) t \<Longrightarrow> ks_objs t x = ks_objs s x \<Longrightarrow> grown s X t"
  unfolding grown_def by (elim exE conjE, rule exI, rule exI) auto

lemma with_blocks_empty [simp]: "with_blocks B {} = B"
  by (simp add: with_blocks_def)

lemma with_blocks_insert: "(with_blocks B X)(p \<mapsto> 1) = with_blocks B (insert p X)"
  by (auto simp: with_blocks_def fun_eq_iff)

lemma with_blocks_remove: "B p = None \<Longrightarrow> (with_blocks B X)(p := None) = with_blocks B (X - {p})"
  by (auto simp: with_blocks_def fun_eq_iff)

lemma with_blocks_None: "with_blocks B X p = None \<longleftrightarrow> p \<notin> X \<and> B p = None"
  by (simp add: with_blocks_def)

lemma kfree_block:
  assumes "heap_ok s (with_blocks B X)" "B p = None"
  obtains h where "kfree p s = Some (released p h s)" "heap_ok (released p h s) (with_blocks B (X - {p}))"
    "same_frame (ks_heap s) h" "grown s {p} (released p h s)"
proof (rule kfree_ok [OF assms(1), of p])
  fix h assume "kfree p s = Some (released p h s)" "heap_ok (released p h s) ((with_blocks B X)(p := None))"
    "same_frame (ks_heap s) h"
  then show thesis using that [of h] with_blocks_remove [of B p X] assms(2) grown_released [of s h p] by simp
qed

lemma released_simps [simp]:
  "ks_heap (released p h s) = h" "ks_dev (released p h s) = ks_dev s" "ks_disk (released p h s) = ks_disk s"
  "ks_objs (released p h s) = (ks_objs s)(p := None)"
  by (simp_all add: released_def)

lemma free_count_blocks:
  assumes "finite A" "heap_ok s B" "heap_ok t (with_blocks B A)" "same_frame (ks_heap s) (ks_heap t)" "\<forall>a \<in> A. B a = None"
  shows "free_count (ks_heap s) = free_count (ks_heap t) + card A"
  using assms
proof (induction A arbitrary: t rule: finite_induct)
  case empty
  then show ?case using heap_ok_unique [OF empty.prems(1), of t] by simp
next
  case (insert a A)
  have a: "B a = None" using insert.prems(4) by simp
  have D: "insert a A - {a} = A" using insert.hyps by auto
  obtain h where h: "kfree a t = Some (released a h t)" "heap_ok (released a h t) (with_blocks B (insert a A - {a}))"
    "same_frame (ks_heap t) h"
    by (rule kfree_block [OF insert.prems(2) a])
  have "heap_free (ks_heap t) a = Some h"
    using h(1) by (auto simp: kfree_def released_def option_bind_Some_iff dest: arg_cong [of _ _ ks_heap])
  moreover have "heap_owns (ks_heap t) ((with_blocks B A)(a \<mapsto> 1))"
    using insert.prems(2) by (simp only: heap_ok_def with_blocks_insert)
  ultimately have "free_count h = Suc (free_count (ks_heap t))" by (intro heap_owns_free_count)
  moreover have "free_count (ks_heap s) = free_count (ks_heap (released a h t)) + card A"
    using h(2,3) insert.prems same_frame_trans [of "ks_heap s" "ks_heap t" h] unfolding D
    by (intro insert.IH) auto
  ultimately show ?case using insert.hyps by simp
qed

text \<open>An allocation of one block succeeds exactly when there is a free block.\<close>

lemma zalloc_one_cases:
  assumes "heap_ok s B" "0 < unat n" "unat n \<le> 4096"
  obtains (null) "zalloc n z s = Some (0, s)" "free_count (ks_heap s) = 0"
  | (fresh) p h' where "zalloc n z s = Some (p, store p z (s\<lparr>ks_heap := h'\<rparr>))" "p \<noteq> 0"
      "unat p < 2147483648" "ks_objs s p = None" "B p = None"
      "heap_ok (store p z (s\<lparr>ks_heap := h'\<rparr>)) (with_blocks B {p})" "same_frame (ks_heap s) h'"
      "free_count (ks_heap s) = Suc (free_count h')"
proof (cases "free_count (ks_heap s) = 0")
  case True
  from assms(1) show thesis
  proof (cases rule: zalloc_cases [of s B n z])
    case null
    then show thesis using True by (rule that(1))
  next
    case (fresh p h')
    have "blocks_of n = 1" using assms(2,3) by (simp add: blocks_of_def div_nat_eqI)
    then have "heap_ok (store p z (s\<lparr>ks_heap := h'\<rparr>)) (with_blocks B {p})"
      using fresh(6) with_blocks_insert [of B "{}" p] by simp
    from free_count_blocks [OF _ assms(1) this] fresh(5,7) True show thesis by simp
  qed
next
  case False
  then have "0 < free_count (ks_heap s)" by simp
  with assms show thesis
  proof (rule zalloc_one_block [of s B n z])
    fix p h' assume k: "zalloc n z s = Some (p, store p z (s\<lparr>ks_heap := h'\<rparr>))" "p \<noteq> 0"
      "unat p < 2147483648" "ks_objs s p = None" "B p = None"
      "heap_ok (store p z (s\<lparr>ks_heap := h'\<rparr>)) (B(p \<mapsto> 1))" "same_frame (ks_heap s) h'"
      "free_count (ks_heap s) = Suc (free_count h')"
    then show thesis using that(2) [of p h'] with_blocks_insert [of B "{}" p] by simp
  qed
qed

text \<open>When every new allocation is gone again, the state is the one before.\<close>

lemma grown_back:
  assumes "grown s X s'" "heap_ok s B" "heap_ok s' B" "\<forall>p \<in> X. B p = None"
  shows "s' = s"
proof -
  from assms(1) obtain h ob where s': "s' = s\<lparr>ks_heap := h, ks_objs := ob\<rparr>" "same_frame (ks_heap s) h"
    "\<forall>p. p \<notin> X \<longrightarrow> ob p = ks_objs s p"
    by (auto simp: grown_def)
  have "h = ks_heap s" using heap_ok_unique [OF assms(2,3)] s' by simp
  moreover have "ob p = ks_objs s p" for p
    using s' assms(4) heap_ok_None [OF assms(2), of p] heap_ok_None [OF assms(3), of p]
    by (cases "p \<in> X") auto
  then have "ob = ks_objs s" by blast
  ultimately show ?thesis using s'(1) by simp
qed

section \<open>Properties\<close>

text \<open>
  \<open>kheap_init\<close> succeeds whatever the table memory held, as long as it is the 25600
  bytes the kernel sets aside: the kernel heap then is 100 MB of free blocks from
  \<open>0x01000000\<close> on, and no block is allocated.
\<close>

theorem kheap_init_fresh:
  assumes "length raw = 25600" "ks_objs s = Map.empty"
  shows "kheap_init raw s = Some (s\<lparr>ks_heap := fresh_heap 0x01000000 25600\<rparr>) \<and>
    heap_ok (s\<lparr>ks_heap := fresh_heap 0x01000000 25600\<rparr>) Map.empty"
proof
  let ?t = "\<lparr>ht_entries = Some raw, ht_total = 25600\<rparr>"
  have "heap_create (Some (ks_heap s)) 0x01000000 0x07400000 (Some ?t) =
      Some (0, Some (fresh_heap 0x01000000 (length raw)))"
    using assms(1) by (intro heap_create_ok [THEN conjunct1, of _ _ _ raw]) (simp_all add: validate_alignment_def)
  then show "kheap_init raw s = Some (s\<lparr>ks_heap := fresh_heap 0x01000000 25600\<rparr>)"
    using assms(1) by (simp add: kheap_init_def signed_divide_int_def)
  show "heap_ok (s\<lparr>ks_heap := fresh_heap 0x01000000 25600\<rparr>) Map.empty"
    using assms(2) by (simp add: heap_ok_def fresh_heap_owns validate_alignment_def)
qed

theorem kheap_init_fresh_witness:
  "kheap_init (replicate 25600 0xAA) (boot_state ()) =
     Some ((boot_state ())\<lparr>ks_heap := fresh_heap 0x01000000 25600\<rparr>) \<and>
   heap_ok ((boot_state ())\<lparr>ks_heap := fresh_heap 0x01000000 25600\<rparr>) Map.empty"
  by (rule kheap_init_fresh) (simp_all add: boot_state_def)

text \<open>
  C22. In a kernel whose heap is in order, \<open>kzalloc\<close> either returns null and changes
  nothing, or returns an address that carried no object and is not read as an error by
  \<open>ISERR\<close>; whatever the memory there held before, its \<open>n\<close> bytes now are zero, as what type
  (\<open>view\<close>) the caller may read them. It changes nothing else, keeps the heap in order, and
  freeing the address restores the state exactly.
\<close>

theorem kzalloc_correct:
  assumes "heap_ok s B"
  shows "kzalloc n view s = Some (0, s) \<or>
    (\<exists>p t. kzalloc n view s = Some (p, t) \<and> p \<noteq> 0 \<and> 0 \<le> to_int p \<and> ks_objs s p = None \<and>
       ks_objs t p = Some (view (replicate (unat n) 0)) \<and> (\<forall>q. q \<noteq> p \<longrightarrow> ks_objs t q = ks_objs s q) \<and>
       heap_ok t (B(p \<mapsto> blocks_of n)) \<and> kfree p t = Some s)"
  using assms
proof (cases rule: zalloc_cases [of s B n "view (replicate (unat n) 0)"])
  case (fresh p h')
  then show ?thesis using zalloc_kfree [OF assms fresh(1)] by (auto simp: to_int_small kzalloc_zalloc)
qed (simp add: kzalloc_zalloc)

text \<open>A list of three words on a heap whose memory is full of \<open>0xAA\<close>, in a kernel with room for it.\<close>

theorem kzalloc_correct_witness:
  "let s = (boot_state ())\<lparr>ks_heap := fresh_heap 0x01000000 25600\<rparr> in
   ks_raw s 0x01000000 = 0xAA \<and> kzalloc 12 as_words s \<noteq> Some (0, s) \<and>
   (\<exists>p t. kzalloc 12 as_words s = Some (p, t) \<and> ks_objs t p = Some (OWords [0, 0, 0]) \<and> kfree p t = Some s)"
proof -
  let ?s = "(boot_state ())\<lparr>ks_heap := fresh_heap 0x01000000 25600\<rparr>"
  have ok: "heap_ok ?s Map.empty" by (simp add: heap_ok_def boot_state_def fresh_heap_owns validate_alignment_def)
  have v: "as_words (replicate (unat (12 :: u32)) 0) = OWords [0, 0, 0]" by (simp add: as_words_def field_zero upt_rec)
  have "0 < free_count (ks_heap ?s)" by (simp add: free_count_def fresh_heap_def)
  then have "kzalloc 12 as_words ?s \<noteq> Some (0, ?s)"
    unfolding kzalloc_zalloc by (rule_tac zalloc_one_block [OF ok, of 12 "as_words (replicate (unat (12 :: u32)) 0)"]) auto
  with kzalloc_correct [OF ok, of 12 as_words] show ?thesis unfolding v Let_def by (auto simp: boot_state_def)
qed

end
