(* ===== verification/Disk_Streamer.thy ===== *)
theory Disk_Streamer
  imports Kernel_State
begin

text \<open>
  \<open>src/disk/streamer.c\<close>: a byte position on the disk, read through a one-sector buffer on
  the stack. The bytes \<open>diskstreamer_read\<close> stores from \<open>out\<close> on are returned as a list, in
  the order they are stored; the caller puts them into its object. A subscript outside the
  local sector buffer has no result.
\<close>

section \<open>Operations\<close>

definition diskstreamer_new :: "int \<Rightarrow> 'd kst \<Rightarrow> (u32 \<times> 'd kst) option" where
  "diskstreamer_new disk_id s =
     (let d = disk_get disk_id in
      if d = DISK_NULL then Some (0, s)
      else do {
        (streamer, s1) \<leftarrow> kzalloc 8 as_stream s;
        st \<leftarrow> obj_stream s1 streamer;
        let s2 = store streamer (OStream (st\<lparr>ds_pos := 0, ds_disk := d\<rparr>)) s1;
        Some (streamer, s2) })"

definition diskstreamer_seek :: "u32 \<Rightarrow> int \<Rightarrow> 'd kst \<Rightarrow> (int \<times> 'd kst) option" where
  "diskstreamer_seek stream pos s = do {
     st \<leftarrow> obj_stream s stream;
     Some (0, store stream (OStream (st\<lparr>ds_pos := pos\<rparr>)) s) }"

text \<open>\<open>for (i = 0; i < total_to_read; i++) *(char*)out++ = buf[offset + i];\<close>\<close>

fun stream_copy :: "u8 list \<Rightarrow> int \<Rightarrow> nat \<Rightarrow> nat \<Rightarrow> u8 list option" where
  "stream_copy buffer offset i 0 = Some []"
| "stream_copy buffer offset i (Suc k) = do {
     c \<leftarrow> at_int buffer (offset + int i);
     cs \<leftarrow> stream_copy buffer offset (Suc i) k;
     Some (c # cs) }"

function diskstreamer_read :: "'d ports \<Rightarrow> u32 \<Rightarrow> int \<Rightarrow> 'd kst \<Rightarrow> (int \<times> u8 list \<times> 'd kst) option" where
  "diskstreamer_read P stream n s = do {
     st \<leftarrow> obj_stream s stream;
     sec \<leftarrow> c_div (ds_pos st) SAMOS_SECTOR_SIZE;
     offset \<leftarrow> c_mod (ds_pos st) SAMOS_SECTOR_SIZE;
     (res, buffer, d) \<leftarrow> disk_read_block P (ds_disk st) sec 1 (replicate 512 0) (ks_dev s);
     let s1 = s\<lparr>ks_dev := d\<rparr>;
     if res < 0 then Some (res, [], s1)
     else do {
       let total_to_read = (if n > SAMOS_SECTOR_SIZE then SAMOS_SECTOR_SIZE else n);
       bytes \<leftarrow> stream_copy buffer offset 0 (nat total_to_read);
       let s2 = store stream (OStream (st\<lparr>ds_pos := i32 (ds_pos st + total_to_read)\<rparr>)) s1;
       if n > SAMOS_SECTOR_SIZE then do {
         (res', bytes', s3) \<leftarrow> diskstreamer_read P stream (n - SAMOS_SECTOR_SIZE) s2;
         Some (res', bytes @ bytes', s3) }
       else Some (res, bytes, s2) } }"
  by pat_completeness auto
termination
  by (relation "measure (\<lambda>(P, stream, n, s). nat n)") auto

declare diskstreamer_read.simps [simp del]

definition diskstreamer_close :: "u32 \<Rightarrow> 'd kst \<Rightarrow> 'd kst option" where
  "diskstreamer_close stream s = kfree stream s"

section \<open>What a read returns\<close>

definition slice :: "(nat \<Rightarrow> u8) \<Rightarrow> nat \<Rightarrow> nat \<Rightarrow> u8 list" where
  "slice img a n = map img [a..<a + n]"

lemma length_slice [simp]: "length (slice img a n) = n"
  by (simp add: slice_def)

lemma slice_append: "slice img a m @ slice img (a + m) n = slice img a (m + n)"
  by (simp add: slice_def upt_add_eq_append [of a "a + m" n, simplified] flip: map_append add.assoc)

text \<open>The disk is attached, follows the protocol and is idle.\<close>

definition disk_ready :: "'d ports \<Rightarrow> (nat \<Rightarrow> u8) \<Rightarrow> nat \<Rightarrow> ('d \<Rightarrow> bool) \<Rightarrow> 'd kst \<Rightarrow> bool" where
  "disk_ready P img cap idle s \<longleftrightarrow> ata_disk P img cap idle \<and> idle (ks_dev s)"

definition stream_at :: "'d kst \<Rightarrow> u32 \<Rightarrow> bool" where
  "stream_at s p \<longleftrightarrow> (\<exists>q. ks_objs s p = Some (OStream \<lparr>ds_pos = q, ds_disk = DISK\<rparr>))"

text \<open>The state after I/O through the stream at \<open>p\<close>.\<close>

definition moved :: "u32 \<Rightarrow> int \<Rightarrow> 'd \<Rightarrow> 'd kst \<Rightarrow> 'd kst" where
  "moved p q d s = store p (OStream \<lparr>ds_pos = q, ds_disk = DISK\<rparr>) (s\<lparr>ks_dev := d\<rparr>)"

lemma moved_moved [simp]: "moved p q d (moved p q' d' s) = moved p q d s"
  by (simp add: moved_def store_def)

lemma moved_simps [simp]:
  "ks_dev (moved p q d s) = d" "ks_disk (moved p q d s) = ks_disk s" "ks_heap (moved p q d s) = ks_heap s"
  "ks_filesystems (moved p q d s) = ks_filesystems s"
  "ks_file_descriptors (moved p q d s) = ks_file_descriptors s" "ks_term (moved p q d s) = ks_term s"
  "ks_objs (moved p q d s) = (ks_objs s)(p \<mapsto> OStream \<lparr>ds_pos = q, ds_disk = DISK\<rparr>)"
  by (simp_all add: moved_def store_def)

lemma moved_ready: "disk_ready P img cap idle s \<Longrightarrow> idle d \<Longrightarrow> disk_ready P img cap idle (moved p q d s)"
  by (simp add: disk_ready_def)

lemma moved_stream: "stream_at (moved p q d s) p" "stream_at s r \<Longrightarrow> stream_at (moved p q d s) r"
  by (auto simp: stream_at_def)

lemma moved_heap_ok: "heap_ok s B \<Longrightarrow> stream_at s p \<Longrightarrow> heap_ok (moved p q d s) B"
  by (auto simp: heap_ok_def stream_at_def)

lemma diskstreamer_seek_ok:
  "stream_at s p \<Longrightarrow> diskstreamer_seek p q s = Some (0, moved p q (ks_dev s) s)"
  by (auto simp: diskstreamer_seek_def stream_at_def obj_stream_def moved_def store_def)

lemma stream_copy_eq:
  "0 \<le> offset \<Longrightarrow> nat offset + i + k \<le> length buffer \<Longrightarrow>
   stream_copy buffer offset i k = Some (take k (drop (nat offset + i) buffer))"
proof (induction k arbitrary: i)
  case (Suc k)
  then have "stream_copy buffer offset (Suc i) k = Some (take k (drop (nat offset + Suc i) buffer))"
    by (intro Suc.IH) auto
  moreover have "nat (offset + int i) = nat offset + i" using Suc.prems(1) by simp
  ultimately show ?case
    using Suc.prems by (simp add: buf flip: Cons_nth_drop_Suc [of "nat offset + i" buffer])
qed simp

lemma stream_copy_outside:
  "0 \<le> offset \<Longrightarrow> nat offset + i + k > length buffer \<Longrightarrow> 0 < k \<Longrightarrow> stream_copy buffer offset i k = None"
proof (induction k arbitrary: i)
  case (Suc k)
  show ?case
  proof (cases "nat offset + i < length buffer")
    case True
    then have "0 < k" "nat offset + Suc i + k > length buffer" using Suc.prems(2) by auto
    then show ?thesis using Suc.IH [of "Suc i"] Suc.prems(1) by (cases "at_int buffer (offset + int i)") auto
  next
    case False
    then have "at_int buffer (offset + int i) = None" using Suc.prems(1) by (auto simp: at_int_def at_idx_def)
    then show ?thesis by simp
  qed
qed simp

lemma slice_sector:
  assumes "a mod 512 + n \<le> 512"
  shows "take n (drop (a mod 512) (sector img (a div 512))) = slice img a n"
proof -
  have "512 * (a div 512) + a mod 512 = a" by simp
  with assms show ?thesis
    by (auto simp: slice_def nth_sector intro!: nth_equalityI simp flip: add.assoc)
qed

text \<open>One step of the read: the sector of the position is fetched.\<close>

lemma stream_sector:
  assumes "disk_ready P img cap idle s" "pos div 512 < cap" "pos < 2147483648"
  shows "\<exists>d. disk_read_block P DISK (int (pos div 512)) 1 (replicate 512 0) (ks_dev s) =
      Some (0, sector img (pos div 512), d) \<and> idle d"
    "c_div (int pos) 512 = Some (int (pos div 512))" "c_mod (int pos) 512 = Some (int (pos mod 512))"
  using disk_read_block_ok [of P img cap idle "ks_dev s" 1 "pos div 512" "replicate 512 0"] assms
    c_div_pos [of "int pos" 512] c_mod_pos [of "int pos" 512]
  by (simp_all add: disk_ready_def zdiv_int zmod_int)

lemma read_within_sector:
  assumes "disk_ready P img cap idle s" "ks_objs s p = Some (OStream \<lparr>ds_pos = int pos, ds_disk = DISK\<rparr>)"
    "pos div 512 < cap" "pos mod 512 + n \<le> 512" "pos + n < 2147483648"
  shows "\<exists>d. diskstreamer_read P p (int n) s = Some (0, slice img pos n, moved p (int (pos + n)) d s) \<and> idle d"
proof -
  have pos: "pos < 2147483648" using assms(5) by simp
  note sec = stream_sector [OF assms(1,3) pos]
  obtain d where d: "disk_read_block P DISK (int (pos div 512)) 1 (replicate 512 0) (ks_dev s) =
      Some (0, sector img (pos div 512), d)" "idle d"
    using sec(1) by blast
  have st: "obj_stream s p = Some \<lparr>ds_pos = int pos, ds_disk = DISK\<rparr>" using assms(2) by (simp add: deref)
  have "n \<le> 512" using assms(4) by simp
  moreover have "stream_copy (sector img (pos div 512)) (int (pos mod 512)) 0 n = Some (slice img pos n)"
    using stream_copy_eq [of "int (pos mod 512)" 0 n] slice_sector assms(4) by simp
  moreover have "i32 (int pos + int n) = int (pos + n)" using assms(5) by (simp add: i32_id)
  ultimately have "diskstreamer_read P p (int n) s = Some (0, slice img pos n, moved p (int (pos + n)) d s)"
    unfolding diskstreamer_read.simps [of P p "int n" s] st
    by (simp add: sec(2,3) d(1) moved_def store_def)
  then show ?thesis using d(2) by blast
qed

lemma read_first_sector:
  assumes "disk_ready P img cap idle s" "ks_objs s p = Some (OStream \<lparr>ds_pos = int pos, ds_disk = DISK\<rparr>)"
    "pos div 512 < cap" "pos mod 512 = 0" "512 < n" "pos + n < 2147483648"
  shows "\<exists>d. idle d \<and> diskstreamer_read P p (int n) s =
    map_option (\<lambda>(r, bs, t). (r, slice img pos 512 @ bs, t))
      (diskstreamer_read P p (int (n - 512)) (moved p (int (pos + 512)) d s))"
proof -
  have pos: "pos < 2147483648" using assms(6) by simp
  note sec = stream_sector [OF assms(1,3) pos]
  obtain d where d: "disk_read_block P DISK (int (pos div 512)) 1 (replicate 512 0) (ks_dev s) =
      Some (0, sector img (pos div 512), d)" "idle d"
    using sec(1) by blast
  have st: "obj_stream s p = Some \<lparr>ds_pos = int pos, ds_disk = DISK\<rparr>" using assms(2) by (simp add: deref)
  have c: "stream_copy (sector img (pos div 512)) 0 0 512 = Some (slice img pos 512)"
    using stream_copy_eq [of 0 0 512] slice_sector [of pos 512 img] assms(4) by simp
  have i: "i32 (int pos + 512) = int (pos + 512)" using assms(5,6) by (simp add: i32_id)
  have n: "int n - 512 = int (n - 512)" using assms(5) by simp
  have "diskstreamer_read P p (int n) s =
    map_option (\<lambda>(r, bs, t). (r, slice img pos 512 @ bs, t))
      (diskstreamer_read P p (int (n - 512)) (moved p (int (pos + 512)) d s))"
    unfolding diskstreamer_read.simps [of P p "int n" s] st
    using assms(4,5) c i n
    by (simp add: sec(2,3) d(1) moved_def store_def map_option_case split: option.split prod.split)
  with d(2) show ?thesis by blast
qed

lemma read_aligned:
  assumes "disk_ready P img cap idle s" "ks_objs s p = Some (OStream \<lparr>ds_pos = int pos, ds_disk = DISK\<rparr>)"
    "pos mod 512 = 0" "pos div 512 < cap" "pos + n \<le> 512 * cap" "pos + n < 2147483648"
  shows "\<exists>d. diskstreamer_read P p (int n) s = Some (0, slice img pos n, moved p (int (pos + n)) d s) \<and> idle d"
  using assms
proof (induction n arbitrary: pos s rule: less_induct)
  case (less n)
  show ?case
  proof (cases "n \<le> 512")
    case True
    then show ?thesis using less.prems by (intro read_within_sector) simp_all
  next
    case False
    then obtain d where d: "idle d" "diskstreamer_read P p (int n) s =
        map_option (\<lambda>(r, bs, t). (r, slice img pos 512 @ bs, t))
          (diskstreamer_read P p (int (n - 512)) (moved p (int (pos + 512)) d s))"
      using read_first_sector [OF less.prems(1,2,4,3) _ less.prems(6)] by auto
    have "\<exists>d'. diskstreamer_read P p (int (n - 512)) (moved p (int (pos + 512)) d s) =
        Some (0, slice img (pos + 512) (n - 512), moved p (int (pos + 512 + (n - 512))) d' (moved p (int (pos + 512)) d s)) \<and> idle d'"
      using less.prems False d(1) by (intro less.IH moved_ready) auto
    then obtain d' where "diskstreamer_read P p (int (n - 512)) (moved p (int (pos + 512)) d s) =
        Some (0, slice img (pos + 512) (n - 512), moved p (int (pos + n)) d' s)" "idle d'"
      using False by auto
    with d(2) show ?thesis using slice_append [of img pos 512 "n - 512"] False by auto
  qed
qed

lemma read_outside:
  assumes "disk_ready P img cap idle s" "ks_objs s p = Some (OStream \<lparr>ds_pos = int pos, ds_disk = DISK\<rparr>)"
    "pos div 512 < cap" "pos mod 512 + min n 512 > 512" "pos < 2147483648"
  shows "diskstreamer_read P p (int n) s = None"
proof -
  note sec = stream_sector [OF assms(1,3,5)]
  obtain d where d: "disk_read_block P DISK (int (pos div 512)) 1 (replicate 512 0) (ks_dev s) =
      Some (0, sector img (pos div 512), d)"
    using sec(1) by blast
  have st: "obj_stream s p = Some \<lparr>ds_pos = int pos, ds_disk = DISK\<rparr>" using assms(2) by (simp add: deref)
  have c: "stream_copy (sector img (pos div 512)) (int (pos mod 512)) 0 (min n 512) = None"
    using assms(4) mod_less_divisor [of 512 pos] by (intro stream_copy_outside) auto
  show ?thesis
  proof (cases "512 < n")
    case True
    then have "min n 512 = 512" by simp
    with True c show ?thesis
      unfolding diskstreamer_read.simps [of P p "int n" s] st by (simp add: sec(2,3) d)
  next
    case False
    then have "min n 512 = n" by simp
    with False c show ?thesis
      unfolding diskstreamer_read.simps [of P p "int n" s] st by (simp add: sec(2,3) d)
  qed
qed

section \<open>Properties\<close>

text \<open>
  C24. On a disk that follows the protocol, a read of \<open>n\<close> bytes from a stream positioned
  at the start of a sector, or that stays inside one sector, returns 0 and stores exactly
  the next \<open>n\<close> bytes of the disk, and moves the position by \<open>n\<close>.
\<close>

theorem diskstreamer_read_correct:
  assumes "disk_ready P img cap idle s" "ks_objs s p = Some (OStream \<lparr>ds_pos = int pos, ds_disk = DISK\<rparr>)"
    "pos div 512 < cap" "pos + n \<le> 512 * cap" "pos + n < 2147483648"
    "pos mod 512 = 0 \<or> pos mod 512 + n \<le> 512"
  shows "\<exists>d. diskstreamer_read P p (int n) s = Some (0, slice img pos n, moved p (int (pos + n)) d s) \<and> idle d"
  using assms(6)
proof (elim disjE)
  assume "pos mod 512 = 0"
  then show ?thesis by (rule read_aligned [OF assms(1,2) _ assms(3,4,5)])
next
  assume "pos mod 512 + n \<le> 512"
  then show ?thesis by (rule read_within_sector [OF assms(1,2,3) _ assms(5)])
qed

text \<open>
  C35. A read that starts inside a sector and would cross its end (or is longer than a
  sector) reads past the 512-byte buffer on the stack: it has no defined result.
\<close>

theorem diskstreamer_read_crossing_overruns:
  assumes "disk_ready P img cap idle s" "ks_objs s p = Some (OStream \<lparr>ds_pos = int pos, ds_disk = DISK\<rparr>)"
    "pos div 512 < cap" "pos mod 512 \<noteq> 0" "pos mod 512 + n > 512" "pos < 2147483648"
  shows "diskstreamer_read P p (int n) s = None"
  using assms by (intro read_outside) auto

text \<open>A kernel with one stream on a simulated disk, for the examples.\<close>

definition stream_state :: "int \<Rightarrow> sim_disk kst" where
  "stream_state q = (boot_state \<lparr>sim_regs = (\<lambda>_. 0), sim_busy = 0, sim_queue = []\<rparr>)
     \<lparr>ks_objs := Map.empty(0x01000000 \<mapsto> OStream \<lparr>ds_pos = q, ds_disk = DISK\<rparr>)\<rparr>"

lemma stream_state_ready: "disk_ready (sim_ports img) img 100 sim_idle (stream_state q)"
  by (simp add: disk_ready_def sim_ata_disk stream_state_def boot_state_def sim_idle_def)

theorem diskstreamer_read_correct_witness:
  "\<exists>d. diskstreamer_read (sim_ports (\<lambda>_. 7)) 0x01000000 (int 1000) (stream_state (int 1024)) =
     Some (0, slice (\<lambda>_. 7) 1024 1000, moved 0x01000000 (int (1024 + 1000)) d (stream_state (int 1024))) \<and> sim_idle d"
  by (rule diskstreamer_read_correct [OF stream_state_ready]) (simp_all add: stream_state_def)

theorem diskstreamer_read_crossing_overruns_witness:
  "diskstreamer_read (sim_ports (\<lambda>_. 7)) 0x01000000 (int 8) (stream_state (int 508)) = None"
  by (rule diskstreamer_read_crossing_overruns [OF stream_state_ready, where pos = 508]) (simp_all add: stream_state_def)

end
