(* ===== verification/Fat16_Chain.thy ===== *)
theory Fat16_Chain
  imports Disk_Streamer
begin

text \<open>
  Reading through the file allocation table: \<open>src/fs/fat/fat16.c\<close>, lines 353 to 494. A
  file is a chain of clusters linked by the 16-bit entries of the table; the routines here
  find the cluster of an offset, split a read at cluster and sector ends, and count the
  entries of a directory stored in a chain. The bytes a routine stores from \<open>out\<close> on are
  returned as a list.

  The second half states what a mounted volume is (\<open>mounted\<close>), what the chain of a cluster
  is (\<open>chain_at\<close>, \<open>contents\<close>) and proves that the reads return the contents of the chain.
\<close>

section \<open>Operations\<close>

definition disk_of :: "disk_ptr \<Rightarrow> 'd kst \<Rightarrow> disk option" where
  "disk_of p s = (if p = DISK then Some (ks_disk s) else None)"

definition fat16_sector_to_absolute :: "disk \<Rightarrow> int \<Rightarrow> int" where
  "fat16_sector_to_absolute d sec = i32 (sec * dk_sector_size d)"

definition fat16_cluster_to_sector :: "fat_private \<Rightarrow> int \<Rightarrow> int" where
  "fat16_cluster_to_sector fp cluster =
     i32 (fd_ending_sector_pos (fp_root_directory fp) +
       i32 (i32 (cluster - 2) * uint (fh_sectors_per_cluster (fh_primary (fp_header fp)))))"

definition fat16_get_first_fat_sector :: "fat_private \<Rightarrow> u32" where
  "fat16_get_first_fat_sector fp = ucast (fh_reserved_sectors (fh_primary (fp_header fp)))"

definition fat16_get_fat_entry :: "'d ports \<Rightarrow> disk_ptr \<Rightarrow> int \<Rightarrow> 'd kst \<Rightarrow> (int \<times> 'd kst) option" where
  "fat16_get_fat_entry P dk cluster s = do {
     d \<leftarrow> disk_of dk s;
     fp \<leftarrow> obj_private s (dk_fs_private d);
     let stream = fp_fat_read_stream fp;
     if stream = 0 then Some (- 1, s)
     else do {
       let fat_table_position = fat16_get_first_fat_sector fp * word_of_int (dk_sector_size d);
       (res, s1) \<leftarrow> diskstreamer_seek stream
         (to_int (fat_table_position + word_of_int (i32 (cluster * SAMOS_FAT16_FAT_ENTRY_SIZE)))) s;
       if res < 0 then Some (res, s1)
       else do {
         (res', bytes, s2) \<leftarrow> diskstreamer_read P stream 2 s1;
         if res' < 0 then Some (res', s2)
         else Some (uint (field16 bytes 0), s2) } } }"

partial_function (option) stream_read_loop ::
  "'d ports \<Rightarrow> disk_ptr \<Rightarrow> u32 \<Rightarrow> int \<Rightarrow> int \<Rightarrow> int \<Rightarrow> 'd kst \<Rightarrow> (int \<times> u8 list \<times> 'd kst) option" where
  "stream_read_loop P dk stream pos tot total_read s =
     (if total_read < tot then do {
        d \<leftarrow> disk_of dk s;
        let current_pos = i32 (pos + total_read);
        sector_offset \<leftarrow> c_mod current_pos (dk_sector_size d);
        let bytes_left_in_sector = i32 (dk_sector_size d - sector_offset);
        let bytes_left = i32 (tot - total_read);
        let bytes_to_read = (if bytes_left > bytes_left_in_sector then bytes_left_in_sector else bytes_left);
        (res, s1) \<leftarrow> diskstreamer_seek stream current_pos s;
        if res \<noteq> SAMOS_ALL_OK then Some (res, [], s1)
        else do {
          (res', bytes, s2) \<leftarrow> diskstreamer_read P stream bytes_to_read s1;
          if res' \<noteq> SAMOS_ALL_OK then Some (res', bytes, s2)
          else do {
            (res'', rest, s3) \<leftarrow> stream_read_loop P dk stream pos tot (i32 (total_read + bytes_to_read)) s2;
            Some (res'', bytes @ rest, s3) } } }
      else Some (SAMOS_ALL_OK, [], s))"

definition fat16_stream_read ::
  "'d ports \<Rightarrow> disk_ptr \<Rightarrow> u32 \<Rightarrow> int \<Rightarrow> int \<Rightarrow> 'd kst \<Rightarrow> (int \<times> u8 list \<times> 'd kst) option" where
  "fat16_stream_read P dk stream pos tot s = stream_read_loop P dk stream pos tot 0 s"

definition cluster_bytes :: "fat_private \<Rightarrow> disk \<Rightarrow> int" where
  "cluster_bytes fp d = i32 (uint (fh_sectors_per_cluster (fh_primary (fp_header fp))) * dk_sector_size d)"

fun get_cluster_loop :: "'d ports \<Rightarrow> disk_ptr \<Rightarrow> nat \<Rightarrow> int \<Rightarrow> 'd kst \<Rightarrow> (int \<times> 'd kst) option" where
  "get_cluster_loop P dk 0 cluster_to_use s = Some (cluster_to_use, s)"
| "get_cluster_loop P dk (Suc n) cluster_to_use s = do {
     (entry, s1) \<leftarrow> fat16_get_fat_entry P dk cluster_to_use s;
     if entry < 0 then Some (entry, s1)
     else if entry = SAMOS_FAT16_UNUSED \<or> entry = SAMOS_FAT16_BAD_SECTOR \<or>
        entry \<ge> 0xFFF0 \<and> entry < SAMOS_FAT16_EOC \<or> entry \<ge> SAMOS_FAT16_EOC
     then Some (- EIO, s1)
     else get_cluster_loop P dk n entry s1 }"

definition fat16_get_cluster_for_offset ::
  "'d ports \<Rightarrow> disk_ptr \<Rightarrow> int \<Rightarrow> int \<Rightarrow> 'd kst \<Rightarrow> (int \<times> 'd kst) option" where
  "fat16_get_cluster_for_offset P dk starting_cluster offset s = do {
     d \<leftarrow> disk_of dk s;
     fp \<leftarrow> obj_private s (dk_fs_private d);
     clusters_ahead \<leftarrow> c_div offset (cluster_bytes fp d);
     get_cluster_loop P dk (nat clusters_ahead) starting_cluster s }"

partial_function (option) fat16_read_internal_from_stream ::
  "'d ports \<Rightarrow> disk_ptr \<Rightarrow> u32 \<Rightarrow> int \<Rightarrow> int \<Rightarrow> int \<Rightarrow> 'd kst \<Rightarrow> (int \<times> u8 list \<times> 'd kst) option" where
  "fat16_read_internal_from_stream P dk stream cluster offset tot s = do {
     d \<leftarrow> disk_of dk s;
     fp \<leftarrow> obj_private s (dk_fs_private d);
     let size_of_cluster_bytes = cluster_bytes fp d;
     (cluster_to_use, s1) \<leftarrow> fat16_get_cluster_for_offset P dk cluster offset s;
     if cluster_to_use < 0 then Some (cluster_to_use, [], s1)
     else do {
       offset_from_cluster \<leftarrow> c_mod offset size_of_cluster_bytes;
       let starting_sector = fat16_cluster_to_sector fp cluster_to_use;
       let starting_pos = i32 (i32 (starting_sector * dk_sector_size d) + offset_from_cluster);
       let bytes_left_in_cluster = i32 (size_of_cluster_bytes - offset_from_cluster);
       let total_to_read = (if tot > bytes_left_in_cluster then bytes_left_in_cluster else tot);
       (res, bytes, s2) \<leftarrow> fat16_stream_read P dk stream starting_pos total_to_read s1;
       if res \<noteq> SAMOS_ALL_OK then Some (res, bytes, s2)
       else do {
         let tot' = i32 (tot - total_to_read);
         if tot' > 0 then do {
           (res', rest, s3) \<leftarrow> fat16_read_internal_from_stream P dk stream cluster (i32 (offset + total_to_read)) tot' s2;
           Some (res', bytes @ rest, s3) }
         else Some (res, bytes, s2) } } }"

definition fat16_read_internal ::
  "'d ports \<Rightarrow> disk_ptr \<Rightarrow> int \<Rightarrow> int \<Rightarrow> int \<Rightarrow> 'd kst \<Rightarrow> (int \<times> u8 list \<times> 'd kst) option" where
  "fat16_read_internal P dk starting_cluster offset tot s = do {
     d \<leftarrow> disk_of dk s;
     fp \<leftarrow> obj_private s (dk_fs_private d);
     fat16_read_internal_from_stream P dk (fp_cluster_read_stream fp) starting_cluster offset tot s }"

text \<open>The loop \<open>while(1)\<close>; the local \<open>item\<close> is overwritten by every read.\<close>

partial_function (option) directory_cluster_loop ::
  "'d ports \<Rightarrow> disk_ptr \<Rightarrow> int \<Rightarrow> int \<Rightarrow> 'd kst \<Rightarrow> (int \<times> 'd kst) option" where
  "directory_cluster_loop P dk starting_cluster offset s = do {
     (res, bytes, s1) \<leftarrow> fat16_read_internal P dk starting_cluster offset sizeof_item s;
     if res \<noteq> SAMOS_ALL_OK then Some (res, s1)
     else do {
       c \<leftarrow> at_idx bytes 0;
       if c = DIRECTORY_EMPTY
       then Some (to_int (word_of_int offset div word_of_int sizeof_item), s1)
       else directory_cluster_loop P dk starting_cluster (i32 (offset + sizeof_item)) s1 } }"

definition fat16_get_total_items_for_directory_cluster ::
  "'d ports \<Rightarrow> disk_ptr \<Rightarrow> int \<Rightarrow> 'd kst \<Rightarrow> (int \<times> 'd kst) option" where
  "fat16_get_total_items_for_directory_cluster P dk starting_cluster s =
     directory_cluster_loop P dk starting_cluster 0 s"

section \<open>State changes of a read\<close>

text \<open>
  \<open>io_only s t\<close>: from \<open>s\<close> to \<open>t\<close> only the device and the positions of streams changed.
\<close>

definition io_only :: "'d kst \<Rightarrow> 'd kst \<Rightarrow> bool" where
  "io_only s t \<longleftrightarrow> (\<exists>d ob. t = s\<lparr>ks_dev := d, ks_objs := ob\<rparr> \<and>
     (\<forall>p. ob p = ks_objs s p \<or> stream_at s p \<and> stream_at t p))"

lemma io_only_refl [simp]: "io_only s s"
  unfolding io_only_def by (intro exI [of _ "ks_dev s"] exI [of _ "ks_objs s"]) simp

lemma stream_at_cong: "ks_objs s p = ks_objs t p \<Longrightarrow> stream_at s p = stream_at t p"
  by (simp add: stream_at_def)

lemma io_only_trans:
  assumes "io_only s t" "io_only t u"
  shows "io_only s u"
proof -
  from assms obtain d ob d' ob' where t: "t = s\<lparr>ks_dev := d, ks_objs := ob\<rparr>" "u = t\<lparr>ks_dev := d', ks_objs := ob'\<rparr>"
    and o: "\<And>p. ob p = ks_objs s p \<or> stream_at s p \<and> stream_at t p"
      "\<And>p. ob' p = ks_objs t p \<or> stream_at t p \<and> stream_at u p"
    unfolding io_only_def by blast
  have "ob' p = ks_objs s p \<or> stream_at s p \<and> stream_at u p" for p
  proof -
    have "stream_at t p = stream_at s p" if "ob p = ks_objs s p"
      using that t by (intro stream_at_cong) simp
    moreover have "stream_at u p = stream_at t p" if "ob' p = ks_objs t p"
      using that t by (intro stream_at_cong) simp
    ultimately show ?thesis using o(1) [of p] o(2) [of p] t by auto
  qed
  then show ?thesis using t unfolding io_only_def
    by (intro exI [of _ d'] exI [of _ ob']) simp
qed

lemma io_only_moved: "stream_at s p \<Longrightarrow> io_only s (moved p q d s)"
  unfolding io_only_def
  by (intro exI [of _ d] exI [of _ "(ks_objs s)(p \<mapsto> OStream \<lparr>ds_pos = q, ds_disk = DISK\<rparr>)"])
    (auto simp: moved_def store_def stream_at_def)

lemma io_only_cases: "io_only s t \<Longrightarrow> ks_objs t p = ks_objs s p \<or> stream_at s p \<and> stream_at t p"
  by (auto simp: io_only_def)

lemma io_only_stream: "io_only s t \<Longrightarrow> stream_at s p \<Longrightarrow> stream_at t p"
  using io_only_cases [of s t p] stream_at_cong by metis

lemma io_only_objs: "io_only s t \<Longrightarrow> ks_objs s p = Some x \<Longrightarrow> (\<forall>q. x \<noteq> OStream q) \<Longrightarrow> ks_objs t p = Some x"
  using io_only_cases [of s t p] by (auto simp: stream_at_def)

lemma io_only_simps:
  assumes "io_only s t"
  shows "ks_heap t = ks_heap s" "ks_disk t = ks_disk s" "ks_filesystems t = ks_filesystems s"
    "ks_file_descriptors t = ks_file_descriptors s" "ks_term t = ks_term s"
  using assms by (auto simp: io_only_def)

lemma io_only_dom: "io_only s t \<Longrightarrow> ks_objs t p = None \<longleftrightarrow> ks_objs s p = None"
  using io_only_cases [of s t p] by (auto simp: stream_at_def)

lemma io_only_heap_ok: "io_only s t \<Longrightarrow> heap_ok s B \<Longrightarrow> heap_ok t B"
  by (simp add: heap_ok_def io_only_simps io_only_dom)

text \<open>
  \<open>evolved s X t\<close>: memory was allocated and freed, disk and device may have changed, but
  outside \<open>X\<close> the objects are those of \<open>s\<close>, up to the positions of streams.
\<close>

definition evolved :: "'d kst \<Rightarrow> u32 set \<Rightarrow> 'd kst \<Rightarrow> bool" where
  "evolved s X t \<longleftrightarrow> same_frame (ks_heap s) (ks_heap t) \<and> ks_filesystems t = ks_filesystems s \<and>
     ks_file_descriptors t = ks_file_descriptors s \<and> ks_term t = ks_term s \<and>
     (\<forall>p. p \<notin> X \<longrightarrow> ks_objs t p = ks_objs s p \<or> stream_at s p \<and> stream_at t p)"

lemma evolved_refl: "evolved s X s"
  by (simp add: evolved_def)

lemma evolved_mono: "evolved s X t \<Longrightarrow> X \<subseteq> Y \<Longrightarrow> evolved s Y t"
  by (auto simp: evolved_def)

lemma evolved_cases: "evolved s X t \<Longrightarrow> p \<notin> X \<Longrightarrow> ks_objs t p = ks_objs s p \<or> stream_at s p \<and> stream_at t p"
  by (simp add: evolved_def)

lemma evolved_trans:
  assumes "evolved s X t" "evolved t Y u"
  shows "evolved s (X \<union> Y) u"
proof -
  have "ks_objs u p = ks_objs s p \<or> stream_at s p \<and> stream_at u p" if "p \<notin> X \<union> Y" for p
    using evolved_cases [OF assms(1), of p] evolved_cases [OF assms(2), of p] that
      stream_at_cong [of s p t] stream_at_cong [of t p u] by auto
  then show ?thesis using assms same_frame_trans by (auto simp: evolved_def)
qed

lemma evolved_sym: "evolved s X t \<Longrightarrow> evolved t X s"
  using evolved_cases [of s X t] by (auto simp: evolved_def same_frame_def)

lemma grown_evolved: "grown s X t \<Longrightarrow> evolved s X t"
  using grown_rest [of s X t] grown_frame [of s X t] grown_objs [of s X t] by (auto simp: evolved_def)

lemma io_only_evolved: "io_only s t \<Longrightarrow> evolved s {} t"
  using io_only_cases [of s t] by (auto simp: evolved_def io_only_simps)

lemma evolved_objs:
  "evolved s X t \<Longrightarrow> p \<notin> X \<Longrightarrow> ks_objs s p = Some x \<Longrightarrow> (\<forall>q. x \<noteq> OStream q) \<Longrightarrow> ks_objs t p = Some x"
  using evolved_cases [of s X t p] by (auto simp: stream_at_def)

lemma evolved_stream: "evolved s X t \<Longrightarrow> p \<notin> X \<Longrightarrow> stream_at s p \<Longrightarrow> stream_at t p"
  using evolved_cases [of s X t p] stream_at_cong [of s p t] by auto

lemma evolved_frame: "evolved s X t \<Longrightarrow> same_frame (ks_heap s) (ks_heap t)"
  by (simp add: evolved_def)

lemma evolved_shrink: "evolved s (insert x X) t \<Longrightarrow> ks_objs t x = ks_objs s x \<Longrightarrow> evolved s X t"
  by (auto simp: evolved_def)

lemma evolved_disk: "evolved s X (s\<lparr>ks_disk := d\<rparr>)"
  by (simp add: evolved_def)

text \<open>Positioning a stream and reading inside one sector.\<close>

lemma seek_read:
  assumes "disk_ready P img cap idle s" "stream_at s p" "pos div 512 < cap" "pos mod 512 + n \<le> 512"
    "pos + n < 2147483648"
  shows "\<exists>s1 t. diskstreamer_seek p (int pos) s = Some (0, s1) \<and>
    diskstreamer_read P p (int n) s1 = Some (0, slice img pos n, t) \<and> io_only s t \<and> disk_ready P img cap idle t"
proof -
  let ?s1 = "moved p (int pos) (ks_dev s) s"
  have idle: "idle (ks_dev s)" using assms(1) by (simp add: disk_ready_def)
  have "\<exists>d. diskstreamer_read P p (int n) ?s1 = Some (0, slice img pos n, moved p (int (pos + n)) d ?s1) \<and> idle d"
    by (rule read_within_sector [OF moved_ready [OF assms(1) idle]]) (use assms in auto)
  then obtain d where "diskstreamer_read P p (int n) ?s1 = Some (0, slice img pos n, moved p (int (pos + n)) d s)" "idle d"
    by auto
  then show ?thesis
    using diskstreamer_seek_ok [OF assms(2)] io_only_moved [OF assms(2)] moved_ready [OF assms(1)] by blast
qed

lemma if_less_min: "(if int a > int b then int b else int a) = int (min a b)"
  by (simp add: min_def)

lemma stream_read_loop_step:
  assumes "total_read < tot" "c_mod (i32 (pos + total_read)) (dk_sector_size (ks_disk s)) = Some off"
    "(if i32 (tot - total_read) > i32 (dk_sector_size (ks_disk s) - off)
      then i32 (dk_sector_size (ks_disk s) - off) else i32 (tot - total_read)) = m"
    "diskstreamer_seek p (i32 (pos + total_read)) s = Some (0, s1)"
    "diskstreamer_read P p m s1 = Some (0, bytes, s2)"
    "stream_read_loop P DISK p pos tot (i32 (total_read + m)) s2 = Some (r, rest, s3)"
  shows "stream_read_loop P DISK p pos tot total_read s = Some (r, bytes @ rest, s3)"
  using assms by (subst stream_read_loop.simps) (simp add: disk_of_def Let_def)

lemma stream_read_loop_ok:
  assumes "disk_ready P img cap idle s" "dk_sector_size (ks_disk s) = 512" "stream_at s p"
    "k \<le> n" "pos + n \<le> 512 * cap" "pos + n < 2147483648"
  shows "\<exists>t. stream_read_loop P DISK p (int pos) (int n) (int k) s = Some (0, slice img (pos + k) (n - k), t) \<and>
    io_only s t \<and> disk_ready P img cap idle t"
  using assms
proof (induction "n - k" arbitrary: k s rule: less_induct)
  case less
  show ?case
  proof (cases "k < n")
    case False
    then show ?thesis using less.prems by (subst stream_read_loop.simps) (auto simp: slice_def)
  next
    case True
    let ?q = "pos + k" and ?m = "min (n - k) (512 - (pos + k) mod 512)"
    have m: "0 < ?m" "?q mod 512 + ?m \<le> 512" "k + ?m \<le> n" using True by auto
    have q: "?q div 512 < cap" using True less.prems(5) by (auto simp: less_mult_imp_div_less)
    obtain s1 t1 where r: "diskstreamer_seek p (int ?q) s = Some (0, s1)"
      "diskstreamer_read P p (int ?m) s1 = Some (0, slice img ?q ?m, t1)" "io_only s t1" "disk_ready P img cap idle t1"
      using seek_read [OF less.prems(1,3) q m(2)] m(3) less.prems(6) by auto
    have "n - (k + ?m) < n - k" using m(1) True by linarith
    then have "\<exists>t. stream_read_loop P DISK p (int pos) (int n) (int (k + ?m)) t1 =
        Some (0, slice img (pos + (k + ?m)) (n - (k + ?m)), t) \<and> io_only t1 t \<and> disk_ready P img cap idle t"
      by (rule less.hyps)
        (use r less.prems m(3) io_only_stream [OF r(3)] in \<open>auto simp: io_only_simps [OF r(3)]\<close>)
    then obtain t where t: "stream_read_loop P DISK p (int pos) (int n) (int (k + ?m)) t1 =
        Some (0, slice img (pos + (k + ?m)) (n - (k + ?m)), t)" "io_only t1 t" "disk_ready P img cap idle t"
      by blast
    have i: "i32 (int pos + int k) = int ?q" "i32 (int n - int k) = int (n - k)"
      "i32 (512 - int (?q mod 512)) = int (512 - ?q mod 512)" "i32 (int k + int ?m) = int (k + ?m)"
      using True less.prems(6) m(3) by (simp_all add: i32_id of_nat_diff less_imp_le)
    have cm: "c_mod (int ?q) 512 = Some (int (?q mod 512))" using c_mod_pos [of "int ?q" 512] by (simp add: zmod_int)
    have "stream_read_loop P DISK p (int pos) (int n) (int k) s =
        Some (0, slice img ?q ?m @ slice img (pos + (k + ?m)) (n - (k + ?m)), t)"
      by (rule stream_read_loop_step [of _ _ _ _ "int (?q mod 512)" "int ?m" _ s1 _ _ t1])
        (use True [folded of_nat_less_iff [where 'a = int]] r(1,2) t(1) in
          \<open>simp_all only: less.prems(2) i cm if_less_min\<close>)
    moreover have "slice img ?q ?m @ slice img (pos + (k + ?m)) (n - (k + ?m)) = slice img ?q (n - k)"
      using slice_append [of img ?q ?m "n - (k + ?m)"] m(3) by (simp add: add.assoc)
    ultimately show ?thesis using io_only_trans [OF r(3) t(2)] t(3) by simp
  qed
qed

section \<open>Volumes and chains\<close>

definition reserved :: "fat_private \<Rightarrow> nat" where
  "reserved fp = unat (fh_reserved_sectors (fh_primary (fp_header fp)))"

definition spc :: "fat_private \<Rightarrow> nat" where
  "spc fp = unat (fh_sectors_per_cluster (fh_primary (fp_header fp)))"

definition data_start :: "fat_private \<Rightarrow> nat" where
  "data_start fp = nat (fd_ending_sector_pos (fp_root_directory fp))"

text \<open>The entry of a cluster in the first copy of the table, and the chain it starts.\<close>

definition fat_next :: "(nat \<Rightarrow> u8) \<Rightarrow> fat_private \<Rightarrow> nat \<Rightarrow> nat" where
  "fat_next img fp c = unat (le16 (img (512 * reserved fp + 2 * c)) (img (512 * reserved fp + 2 * c + 1)))"

definition chain_end :: "nat \<Rightarrow> bool" where
  "chain_end e \<longleftrightarrow> e = 0 \<or> 0xFFF0 \<le> e"

fun chain_at :: "(nat \<Rightarrow> nat) \<Rightarrow> nat \<Rightarrow> nat \<Rightarrow> nat option" where
  "chain_at nx c 0 = Some c"
| "chain_at nx c (Suc i) = (if chain_end (nx c) then None else chain_at nx (nx c) i)"

definition cluster_pos :: "fat_private \<Rightarrow> nat \<Rightarrow> nat" where
  "cluster_pos fp c = 512 * (data_start fp + (c - 2) * spc fp)"

definition contents :: "(nat \<Rightarrow> u8) \<Rightarrow> fat_private \<Rightarrow> nat \<Rightarrow> nat \<Rightarrow> u8" where
  "contents img fp c k =
     (case chain_at (fat_next img fp) c (k div (512 * spc fp)) of
        Some c' \<Rightarrow> img (cluster_pos fp c' + k mod (512 * spc fp))
      | None \<Rightarrow> 0)"

text \<open>The chain from \<open>c\<close> has a cluster on the disk for each of its first \<open>n\<close> bytes.\<close>

definition chain_covers :: "(nat \<Rightarrow> u8) \<Rightarrow> fat_private \<Rightarrow> nat \<Rightarrow> nat \<Rightarrow> nat \<Rightarrow> bool" where
  "chain_covers img fp cap c n \<longleftrightarrow> c < 65536 \<and> (\<forall>i. i * (512 * spc fp) < n \<longrightarrow>
     (\<exists>c'. chain_at (fat_next img fp) c i = Some c' \<and> 2 \<le> c' \<and> data_start fp + (c' - 1) * spc fp \<le> cap))"

definition mounted ::
  "'d ports \<Rightarrow> (nat \<Rightarrow> u8) \<Rightarrow> nat \<Rightarrow> ('d \<Rightarrow> bool) \<Rightarrow> fat_private \<Rightarrow> 'd kst \<Rightarrow> bool" where
  "mounted P img cap idle fp s \<longleftrightarrow> disk_ready P img cap idle s \<and> cap < 4194304 \<and>
     dk_sector_size (ks_disk s) = 512 \<and> ks_objs s (dk_fs_private (ks_disk s)) = Some (OPrivate fp) \<and>
     stream_at s (fp_cluster_read_stream fp) \<and> stream_at s (fp_fat_read_stream fp) \<and>
     stream_at s (fp_directory_stream fp) \<and> fp_fat_read_stream fp \<noteq> 0 \<and>
     0 < spc fp \<and> 0 \<le> fd_ending_sector_pos (fp_root_directory fp) \<and> reserved fp + 256 \<le> cap"

lemma mounted_io:
  assumes "mounted P img cap idle fp s" "io_only s t" "disk_ready P img cap idle t"
  shows "mounted P img cap idle fp t"
  using assms io_only_stream [OF assms(2)] io_only_objs [OF assms(2)]
  by (auto simp: mounted_def io_only_simps [OF assms(2)])

lemma reserved_bound: "reserved fp < 65536"
  using unsigned_less [of "fh_reserved_sectors (fh_primary (fp_header fp))", where 'a = nat] by (simp add: reserved_def)

lemma spc_bound: "spc fp < 256"
  using unsigned_less [of "fh_sectors_per_cluster (fh_primary (fp_header fp))", where 'a = nat] by (simp add: spc_def)

lemma fat_next_bound: "fat_next img fp c < 65536"
  using unsigned_less [of "le16 (img (512 * reserved fp + 2 * c)) (img (512 * reserved fp + 2 * c + 1))", where 'a = nat]
  by (simp add: fat_next_def)

lemma fat_entry_position:
  assumes "c < 65536"
  shows "to_int (fat16_get_first_fat_sector fp * word_of_int 512 + word_of_int (i32 (int c * 2))) =
    int (512 * reserved fp + 2 * c)"
proof -
  have r: "fat16_get_first_fat_sector fp = word_of_int (int (reserved fp))"
    by (simp only: fat16_get_first_fat_sector_def reserved_def ucast_eq uint_nat)
  have i: "i32 (int c * 2) = int c * 2" using assms by (intro i32_id) auto
  have e: "fat16_get_first_fat_sector fp * word_of_int 512 + word_of_int (i32 (int c * 2)) =
      word_of_int (int (512 * reserved fp + 2 * c))"
    unfolding r i of_int_mult [symmetric] of_int_add [symmetric]
    by (rule arg_cong [of _ _ word_of_int]) simp
  have "int (512 * reserved fp + 2 * c) < 2147483648" using assms reserved_bound [of fp] by simp
  then show ?thesis unfolding e by (intro to_int_of_int) linarith+
qed

lemma fat_entry_ok:
  assumes "mounted P img cap idle fp s" "c < 65536"
  shows "\<exists>t. fat16_get_fat_entry P DISK (int c) s = Some (int (fat_next img fp c), t) \<and>
    io_only s t \<and> mounted P img cap idle fp t"
proof -
  let ?pos = "512 * reserved fp + 2 * c"
  have m: "disk_ready P img cap idle s" "stream_at s (fp_fat_read_stream fp)" "fp_fat_read_stream fp \<noteq> 0"
    "dk_sector_size (ks_disk s) = 512" "ks_objs s (dk_fs_private (ks_disk s)) = Some (OPrivate fp)"
    "reserved fp + 256 \<le> cap"
    using assms(1) by (auto simp: mounted_def)
  have "?pos mod 512 = 2 * (c mod 256)" using mult_mod_right [of 2 c 256] by simp
  moreover have "c mod 256 < 256" by simp
  ultimately have off: "?pos mod 512 + 2 \<le> 512" by linarith
  have "?pos div 512 < cap" using assms(2) m(6) by (simp add: less_mult_imp_div_less)
  moreover have "?pos + 2 < 2147483648" using assms(2) reserved_bound [of fp] by simp
  ultimately obtain s1 t where r: "diskstreamer_seek (fp_fat_read_stream fp) (int ?pos) s = Some (0, s1)"
    "diskstreamer_read P (fp_fat_read_stream fp) (int 2) s1 = Some (0, slice img ?pos 2, t)"
    "io_only s t" "disk_ready P img cap idle t"
    using seek_read [OF m(1,2) _ off] by blast
  have "slice img ?pos 2 ! 0 = img ?pos" "slice img ?pos 2 ! (0 + 1) = img (?pos + 1)"
    by (simp_all add: slice_def)
  then have "uint (field16 (slice img ?pos 2) 0) = int (fat_next img fp c)"
    by (simp only: field16_def fat_next_def uint_nat)
  then have "fat16_get_fat_entry P DISK (int c) s = Some (int (fat_next img fp c), t)"
    using r(1,2) m(3,4,5) fat_entry_position [OF assms(2), of fp]
    by (simp add: fat16_get_fat_entry_def disk_of_def deref Let_def)
  then show ?thesis using r(3) mounted_io [OF assms(1) r(3,4)] by blast
qed

lemma get_cluster_loop_ok:
  assumes "mounted P img cap idle fp s" "c < 65536"
  shows "\<exists>t. get_cluster_loop P DISK n (int c) s =
      Some (case chain_at (fat_next img fp) c n of Some c' \<Rightarrow> int c' | None \<Rightarrow> - EIO, t) \<and>
    io_only s t \<and> mounted P img cap idle fp t"
  using assms
proof (induction n arbitrary: c s)
  case 0
  then show ?case by simp
next
  case (Suc n)
  obtain s1 where e: "fat16_get_fat_entry P DISK (int c) s = Some (int (fat_next img fp c), s1)"
    "io_only s s1" "mounted P img cap idle fp s1"
    using fat_entry_ok [OF Suc.prems] by blast
  show ?case
  proof (cases "chain_end (fat_next img fp c)")
    case True
    then show ?thesis using e by (auto simp: chain_end_def)
  next
    case False
    then have "get_cluster_loop P DISK (Suc n) (int c) s = get_cluster_loop P DISK n (int (fat_next img fp c)) s1"
      using e(1) by (auto simp: chain_end_def)
    with False Suc.IH [OF e(3) fat_next_bound] show ?thesis
      using io_only_trans [OF e(2)] by fastforce
  qed
qed

section \<open>Reading a chain\<close>

lemma uint_spc: "uint (fh_sectors_per_cluster (fh_primary (fp_header fp))) = int (spc fp)"
  by (simp only: spc_def uint_nat)

lemma cluster_bytes_eq: "mounted P img cap idle fp s \<Longrightarrow> cluster_bytes fp (ks_disk s) = int (512 * spc fp)"
  using spc_bound [of fp] unfolding cluster_bytes_def uint_spc by (simp add: mounted_def i32_id)

lemma cluster_for_offset_ok:
  assumes "mounted P img cap idle fp s" "c < 65536" "off < 2147483648"
  shows "\<exists>t. fat16_get_cluster_for_offset P DISK (int c) (int off) s =
      Some (case chain_at (fat_next img fp) c (off div (512 * spc fp)) of Some c' \<Rightarrow> int c' | None \<Rightarrow> - EIO, t) \<and>
    io_only s t \<and> mounted P img cap idle fp t"
proof -
  have "0 < spc fp" "ks_objs s (dk_fs_private (ks_disk s)) = Some (OPrivate fp)"
    using assms(1) by (auto simp: mounted_def)
  moreover have "c_div (int off) (int (512 * spc fp)) = Some (int off div int (512 * spc fp))"
    using calculation assms(3) by (intro c_div_pos) auto
  moreover have "nat (int off div int (512 * spc fp)) = off div (512 * spc fp)"
    unfolding zdiv_int [symmetric] by (rule nat_int)
  ultimately show ?thesis
    using get_cluster_loop_ok [OF assms(1,2), of "off div (512 * spc fp)"] cluster_bytes_eq [OF assms(1)]
    unfolding fat16_get_cluster_for_offset_def by (simp add: disk_of_def deref)
qed

lemma chain_at_bound: "chain_at (fat_next img fp) c i = Some c' \<Longrightarrow> c < 65536 \<Longrightarrow> c' < 65536"
  by (induction i arbitrary: c) (auto simp: fat_next_bound split: if_splits)

lemma cluster_sector_eq:
  assumes "2 \<le> c" "c < 65536" "data_start fp + (c - 1) * spc fp \<le> cap" "cap < 4194304"
    "0 \<le> fd_ending_sector_pos (fp_root_directory fp)"
  shows "fat16_cluster_to_sector fp (int c) = int (data_start fp + (c - 2) * spc fp)"
    "cluster_pos fp c + 512 * spc fp \<le> 512 * cap"
proof -
  have "(c - 2) * spc fp + spc fp = Suc (c - 2) * spc fp" by simp
  also have "Suc (c - 2) = c - 1" using assms(1) by simp
  finally have c: "(c - 2) * spc fp + spc fp = (c - 1) * spc fp" .
  then have le: "data_start fp + ((c - 2) * spc fp + spc fp) \<le> cap" using assms(3) by simp
  then show "cluster_pos fp c + 512 * spc fp \<le> 512 * cap" by (simp add: cluster_pos_def)
  have "fd_ending_sector_pos (fp_root_directory fp) = int (data_start fp)"
    using assms(5) by (simp add: data_start_def)
  moreover have "i32 (int c - 2) = int (c - 2)" using assms(1,2) by (subst i32_id) auto
  moreover have "int (c - 2) * int (spc fp) = int ((c - 2) * spc fp)" by simp
  moreover have "i32 (int ((c - 2) * spc fp)) = int ((c - 2) * spc fp)"
    using le assms(4) by (intro i32_id) linarith+
  moreover have "i32 (int (data_start fp) + int ((c - 2) * spc fp)) = int (data_start fp + (c - 2) * spc fp)"
    using le assms(4) by (subst i32_id) linarith+
  ultimately show "fat16_cluster_to_sector fp (int c) = int (data_start fp + (c - 2) * spc fp)"
    unfolding fat16_cluster_to_sector_def uint_spc by metis
qed

lemma read_internal_step:
  assumes "ks_objs s (dk_fs_private (ks_disk s)) = Some (OPrivate fp)"
    "fat16_get_cluster_for_offset P DISK cluster off s = Some (c', s1)" "0 \<le> c'"
    "c_mod off (cluster_bytes fp (ks_disk s)) = Some o'"
    "i32 (i32 (fat16_cluster_to_sector fp c' * dk_sector_size (ks_disk s)) + o') = pos"
    "(if tot > i32 (cluster_bytes fp (ks_disk s) - o') then i32 (cluster_bytes fp (ks_disk s) - o') else tot) = m"
    "fat16_stream_read P DISK stream pos m s1 = Some (0, bytes, s2)"
  shows "fat16_read_internal_from_stream P DISK stream cluster off tot s =
    (if i32 (tot - m) > 0 then
       map_option (\<lambda>(r, rest, u). (r, bytes @ rest, u))
         (fat16_read_internal_from_stream P DISK stream cluster (i32 (off + m)) (i32 (tot - m)) s2)
     else Some (0, bytes, s2))"
  using assms by (subst fat16_read_internal_from_stream.simps)
    (simp add: disk_of_def deref Let_def map_option_case split: option.split)

lemma contents_slice:
  assumes "chain_at (fat_next img fp) c (off div (512 * spc fp)) = Some c'"
    "off mod (512 * spc fp) + m \<le> 512 * spc fp"
  shows "slice (contents img fp c) off m = slice img (cluster_pos fp c' + off mod (512 * spc fp)) m"
proof -
  let ?z = "512 * spc fp"
  have "contents img fp c (off + j) = img (cluster_pos fp c' + off mod ?z + j)" if j: "j < m" for j
  proof -
    have e: "off + j = (off mod ?z + j) + off div ?z * ?z" by (metis add.commute add.left_commute div_mult_mod_eq)
    have l: "off mod ?z + j < ?z" using assms(2) j by simp
    have "(off + j) div ?z = off div ?z" "(off + j) mod ?z = off mod ?z + j"
      by (subst e, use l in simp)+
    then show ?thesis using assms(1) by (simp add: contents_def add.assoc)
  qed
  then show ?thesis by (auto simp: slice_def intro: nth_equalityI)
qed

lemma read_internal_ok:
  assumes "mounted P img cap idle fp s" "stream_at s p" "0 < n" "off + n < 2147483648"
    "chain_covers img fp cap c (off + n)"
  shows "\<exists>t. fat16_read_internal_from_stream P DISK p (int c) (int off) (int n) s =
      Some (0, slice (contents img fp c) off n, t) \<and> io_only s t \<and> mounted P img cap idle fp t"
  using assms
proof (induction n arbitrary: off s rule: less_induct)
  case (less n)
  let ?z = "512 * spc fp"
  let ?o = "off mod ?z" and ?m = "min n (512 * spc fp - off mod (512 * spc fp))"
  have m: "cap < 4194304" "dk_sector_size (ks_disk s) = 512"
    "ks_objs s (dk_fs_private (ks_disk s)) = Some (OPrivate fp)" "0 < spc fp"
    "0 \<le> fd_ending_sector_pos (fp_root_directory fp)"
    using less.prems(1) by (auto simp: mounted_def)
  have oz: "?o < ?z" using m(4) by simp
  have "off div ?z * ?z < off + n" using less.prems(3) div_mult_mod_eq [of off ?z] by linarith
  then obtain c' where c': "chain_at (fat_next img fp) c (off div ?z) = Some c'" "2 \<le> c'"
    "data_start fp + (c' - 1) * spc fp \<le> cap" and c: "c < 65536"
    using less.prems(5) by (auto simp: chain_covers_def)
  note sec = cluster_sector_eq [OF c'(2) chain_at_bound [OF c'(1) c] c'(3) m(1,5)]
  let ?pos = "cluster_pos fp c' + ?o"
  have mz: "?o + ?m \<le> ?z" "0 < ?m" "?m \<le> n" using oz less.prems(3) by auto
  then have pm: "?pos + ?m \<le> 512 * cap" "?pos + ?m < 2147483648" using sec(2) m(1) by linarith+
  have "off < 2147483648" using less.prems(4) by simp
  then obtain s1 where 1: "fat16_get_cluster_for_offset P DISK (int c) (int off) s = Some (int c', s1)"
    "io_only s s1" "mounted P img cap idle fp s1"
    using cluster_for_offset_ok [OF less.prems(1) c] c'(1) by fastforce
  have ready: "disk_ready P img cap idle s1" "dk_sector_size (ks_disk s1) = 512" using 1(3) by (auto simp: mounted_def)
  have "\<exists>t. stream_read_loop P DISK p (int ?pos) (int ?m) (int 0) s1 = Some (0, slice img (?pos + 0) (?m - 0), t) \<and>
      io_only s1 t \<and> disk_ready P img cap idle t"
    by (rule stream_read_loop_ok [OF ready io_only_stream [OF 1(2) less.prems(2)] _ pm]) simp
  then obtain s2 where 2: "fat16_stream_read P DISK p (int ?pos) (int ?m) s1 = Some (0, slice (contents img fp c) off ?m, s2)"
    "io_only s1 s2" "disk_ready P img cap idle s2"
    using contents_slice [OF c'(1) mz(1)] by (auto simp: fat16_stream_read_def)
  have io2: "io_only s s2" "mounted P img cap idle fp s2" by (rule io_only_trans [OF 1(2) 2(2)], rule mounted_io [OF 1(3) 2(2,3)])
  have cb: "cluster_bytes fp (ks_disk s) = int ?z" by (rule cluster_bytes_eq [OF less.prems(1)])
  have cm: "c_mod (int off) (cluster_bytes fp (ks_disk s)) = Some (int ?o)"
    unfolding cb zmod_int by (rule c_mod_pos) (use m(4) in simp_all)
  have "int (data_start fp + (c' - 2) * spc fp) * 512 = int (cluster_pos fp c')" by (simp add: cluster_pos_def)
  moreover have "i32 (int (cluster_pos fp c')) = int (cluster_pos fp c')" "i32 (int (cluster_pos fp c') + int ?o) = int ?pos"
    using pm(2) by (subst i32_id; linarith)+
  ultimately have sp: "i32 (i32 (fat16_cluster_to_sector fp (int c') * dk_sector_size (ks_disk s)) + int ?o) = int ?pos"
    unfolding m(2) sec(1) by metis
  have iz: "i32 (int ?z - int ?o) = int (?z - ?o)"
    using oz spc_bound [of fp] by (subst i32_id) linarith+
  have im: "(if int n > i32 (cluster_bytes fp (ks_disk s) - int ?o)
      then i32 (cluster_bytes fp (ks_disk s) - int ?o) else int n) = int ?m"
    unfolding cb iz by (rule if_less_min)
  have ir: "i32 (int n - int ?m) = int (n - ?m)" "i32 (int off + int ?m) = int (off + ?m)"
    using mz(3) less.prems(4) by (subst i32_id; linarith)+
  note step = read_internal_step [OF m(3) 1(1) _ cm sp im 2(1), unfolded ir]
  show ?case
  proof (cases "n - ?m = 0")
    case True
    then have "?m = n" using mz(3) by linarith
    then show ?thesis using step io2 by auto
  next
    case False
    then have "n - ?m < n" "0 < n - ?m" using mz(2) by linarith+
    then have "\<exists>t. fat16_read_internal_from_stream P DISK p (int c) (int (off + ?m)) (int (n - ?m)) s2 =
        Some (0, slice (contents img fp c) (off + ?m) (n - ?m), t) \<and> io_only s2 t \<and> mounted P img cap idle fp t"
      using less.prems(4,5) mz(3) io_only_stream [OF io2(1) less.prems(2)] io2(2) by (intro less.IH) auto
    then obtain t where t: "fat16_read_internal_from_stream P DISK p (int c) (int (off + ?m)) (int (n - ?m)) s2 =
        Some (0, slice (contents img fp c) (off + ?m) (n - ?m), t)" "io_only s2 t" "mounted P img cap idle fp t"
      by blast
    have "slice (contents img fp c) off ?m @ slice (contents img fp c) (off + ?m) (n - ?m) = slice (contents img fp c) off n"
      using slice_append [of "contents img fp c" off ?m "n - ?m"] mz(3) by simp
    moreover have "0 < int (n - ?m)" using False by linarith
    ultimately show ?thesis using step t io_only_trans [OF io2(1)] by auto
  qed
qed

lemma fat16_read_ok:
  assumes "mounted P img cap idle fp s" "0 < n" "off + n < 2147483648" "chain_covers img fp cap c (off + n)"
  shows "\<exists>t. fat16_read_internal P DISK (int c) (int off) (int n) s =
      Some (0, slice (contents img fp c) off n, t) \<and> io_only s t \<and> mounted P img cap idle fp t"
proof -
  have "ks_objs s (dk_fs_private (ks_disk s)) = Some (OPrivate fp)" "stream_at s (fp_cluster_read_stream fp)"
    using assms(1) by (auto simp: mounted_def)
  with read_internal_ok [OF assms(1) _ assms(2-4)] show ?thesis
    by (simp add: fat16_read_internal_def disk_of_def deref)
qed

lemma fat16_read_broken:
  assumes "mounted P img cap idle fp s" "c < 65536" "off < 2147483648"
    "chain_at (fat_next img fp) c (off div (512 * spc fp)) = None"
  shows "\<exists>t. fat16_read_internal P DISK (int c) (int off) n s = Some (- EIO, [], t) \<and>
    io_only s t \<and> mounted P img cap idle fp t"
proof -
  have "ks_objs s (dk_fs_private (ks_disk s)) = Some (OPrivate fp)" using assms(1) by (simp add: mounted_def)
  with cluster_for_offset_ok [OF assms(1-3)] assms(4) show ?thesis
    by (auto simp: fat16_read_internal_def fat16_read_internal_from_stream.simps disk_of_def deref)
qed

section \<open>Counting the entries of a directory\<close>

lemma entry_count: "k < 67108864 \<Longrightarrow> to_int (word_of_int (int (32 * k)) div word_of_int 32) = int k"
proof -
  assume k: "k < 67108864"
  have "unat (word_of_int (int (32 * k)) div word_of_int 32 :: u32) = 32 * k div 32"
    unfolding unat_div using k by (simp only: unat_of_int_small) simp
  then have u: "unat (word_of_int (int (32 * k)) div word_of_int 32 :: u32) = k" by simp
  then show ?thesis using k to_int_small [of "word_of_int (int (32 * k)) div word_of_int 32"] by simp
qed

lemma directory_loop_step:
  assumes "mounted P img cap idle fp s" "32 * k + 32 < 2147483648" "chain_covers img fp cap c (32 * k + 32)"
  shows "\<exists>t. directory_cluster_loop P DISK (int c) (int (32 * k)) s =
      (if contents img fp c (32 * k) = 0 then Some (int k, t)
       else directory_cluster_loop P DISK (int c) (int (32 * Suc k)) t) \<and>
    io_only s t \<and> mounted P img cap idle fp t"
proof -
  obtain t where t: "fat16_read_internal P DISK (int c) (int (32 * k)) (int 32) s =
      Some (0, slice (contents img fp c) (32 * k) 32, t)" "io_only s t" "mounted P img cap idle fp t"
    using fat16_read_ok [OF assms(1) _ assms(2,3)] by auto
  have "at_idx (slice (contents img fp c) (32 * k) 32) 0 = Some (contents img fp c (32 * k))"
    by (simp add: at_idx_def slice_def)
  moreover have "i32 (int (32 * k) + 32) = int (32 * Suc k)" using assms(2) by (simp add: i32_id)
  moreover have "k < 67108864" using assms(2) by simp
  ultimately have "directory_cluster_loop P DISK (int c) (int (32 * k)) s =
      (if contents img fp c (32 * k) = 0 then Some (int k, t)
       else directory_cluster_loop P DISK (int c) (int (32 * Suc k)) t)"
    using t(1) entry_count [of k] by (subst directory_cluster_loop.simps) simp
  with t show ?thesis by blast
qed

lemma directory_loop_walk:
  assumes "mounted P img cap idle fp s" "32 * k + 32 * n < 2147483648" "chain_covers img fp cap c (32 * k + 32 * n)"
    "\<forall>j. k \<le> j \<and> j < k + n \<longrightarrow> contents img fp c (32 * j) \<noteq> 0"
  shows "\<exists>t. directory_cluster_loop P DISK (int c) (int (32 * k)) s =
      directory_cluster_loop P DISK (int c) (int (32 * (k + n))) t \<and> io_only s t \<and> mounted P img cap idle fp t"
  using assms
proof (induction n arbitrary: k s)
  case 0
  then show ?case by auto
next
  case (Suc n)
  have cov: "chain_covers img fp cap c (32 * k + 32)"
    using Suc.prems(3) by (auto simp: chain_covers_def)
  obtain s1 where s1: "directory_cluster_loop P DISK (int c) (int (32 * k)) s =
      directory_cluster_loop P DISK (int c) (int (32 * Suc k)) s1" "io_only s s1" "mounted P img cap idle fp s1"
    using directory_loop_step [OF Suc.prems(1) _ cov] Suc.prems(2,4) by auto
  have "\<exists>t. directory_cluster_loop P DISK (int c) (int (32 * Suc k)) s1 =
      directory_cluster_loop P DISK (int c) (int (32 * (Suc k + n))) t \<and> io_only s1 t \<and> mounted P img cap idle fp t"
    using Suc.prems s1(3) by (intro Suc.IH) (auto simp: algebra_simps)
  then show ?case using s1 io_only_trans [OF s1(2)] by auto
qed

lemma directory_count_ok:
  assumes "mounted P img cap idle fp s" "32 * n + 32 < 2147483648" "chain_covers img fp cap c (32 * n + 32)"
    "\<forall>j < n. contents img fp c (32 * j) \<noteq> 0" "contents img fp c (32 * n) = 0"
  shows "\<exists>t. fat16_get_total_items_for_directory_cluster P DISK (int c) s = Some (int n, t) \<and>
    io_only s t \<and> mounted P img cap idle fp t"
proof -
  have "chain_covers img fp cap c (32 * n)" using assms(3) by (auto simp: chain_covers_def)
  then obtain s1 where s1: "directory_cluster_loop P DISK (int c) 0 s = directory_cluster_loop P DISK (int c) (int (32 * n)) s1"
    "io_only s s1" "mounted P img cap idle fp s1"
    using directory_loop_walk [OF assms(1), of 0 n c] assms(2,4) by auto
  with directory_loop_step [OF s1(3) assms(2,3)] assms(5) io_only_trans [OF s1(2)] show ?thesis
    by (auto simp: fat16_get_total_items_for_directory_cluster_def)
qed

lemma directory_count_full:
  assumes "mounted P img cap idle fp s" "32 * n < 2147483648" "chain_covers img fp cap c (32 * n)"
    "\<forall>j < n. contents img fp c (32 * j) \<noteq> 0" "chain_at (fat_next img fp) c (32 * n div (512 * spc fp)) = None"
  shows "\<exists>t. fat16_get_total_items_for_directory_cluster P DISK (int c) s = Some (- EIO, t) \<and>
    io_only s t \<and> mounted P img cap idle fp t"
proof -
  obtain s1 where s1: "directory_cluster_loop P DISK (int c) 0 s = directory_cluster_loop P DISK (int c) (int (32 * n)) s1"
    "io_only s s1" "mounted P img cap idle fp s1"
    using directory_loop_walk [OF assms(1), of 0 n c] assms(2,3,4) by auto
  have c: "c < 65536" using assms(3) by (simp add: chain_covers_def)
  have "\<exists>t. directory_cluster_loop P DISK (int c) (int (32 * n)) s1 = Some (- EIO, t) \<and> io_only s1 t \<and> mounted P img cap idle fp t"
    using fat16_read_broken [OF s1(3) c assms(2,5), of 32] by (subst directory_cluster_loop.simps) auto
  with s1 io_only_trans [OF s1(2)] show ?thesis
    by (auto simp: fat16_get_total_items_for_directory_cluster_def)
qed

section \<open>A small volume\<close>

text \<open>
  A disk image with a FAT16 header, one table entry chain \<open>2 \<rightarrow> 3\<close>, the directory cluster
  4 with one entry, the directory cluster 5 filled to its end, and a root directory that
  holds \<open>HELLO.TXT\<close> (700 bytes, cluster 2) and the directory \<open>D\<close> (cluster 4); and a
  kernel on which it is mounted. It closes the hypotheses of the properties below.
\<close>

definition demo_bytes :: "(nat \<times> u8) list" where
  "demo_bytes = [(13, 1), (14, 1), (16, 1), (17, 16), (22, 0x2A), (23, 1), (38, 0x29),
     (516, 3), (518, 0xF8), (519, 0xFF), (520, 0xF8), (521, 0xFF), (522, 0xF8), (523, 0xFF),
     (153088, 72), (153089, 69), (153090, 76), (153091, 76), (153092, 79), (153093, 32), (153094, 32),
     (153095, 32), (153096, 84), (153097, 88), (153098, 84), (153114, 2), (153116, 0xBC), (153117, 2),
     (153120, 68), (153121, 32), (153128, 32), (153131, 0x10), (153146, 4), (154624, 65)]"

definition demo_img :: "nat \<Rightarrow> u8" where
  "demo_img i = (case map_of demo_bytes i of Some b \<Rightarrow> b | None \<Rightarrow> if 155136 \<le> i then 7 else 0)"

definition demo_fp :: fat_private where
  "demo_fp = \<lparr>fp_header = decode_header (slice demo_img 0 62),
     fp_root_directory = \<lparr>fd_item = 0x01004000, fd_total = 2, fd_sector_pos = 299, fd_ending_sector_pos = 300\<rparr>,
     fp_cluster_read_stream = 0x01001000, fp_fat_read_stream = 0x01002000, fp_directory_stream = 0x01003000\<rparr>"

definition demo_heap :: heap where
  "demo_heap = \<lparr>hp_table = \<lparr>ht_entries = Some (replicate 5 0x41 @ replicate 15 0), ht_total = 20\<rparr>, hp_saddr = 0x01000000\<rparr>"

definition demo_owned :: "u32 \<Rightarrow> nat option" where
  "demo_owned = Map.empty(0x01000000 \<mapsto> 1, 0x01001000 \<mapsto> 1, 0x01002000 \<mapsto> 1, 0x01003000 \<mapsto> 1, 0x01004000 \<mapsto> 1)"

definition demo_state :: "sim_disk kst" where
  "demo_state = (boot_state \<lparr>sim_regs = (\<lambda>_. 0), sim_busy = 0, sim_queue = []\<rparr>)
     \<lparr>ks_heap := demo_heap,
      ks_disk := \<lparr>dk_id = 0, dk_type = 0, dk_sector_size = 512, dk_filesystem = FAT16_FS, dk_fs_private = 0x01000000\<rparr>,
      ks_objs := Map.empty(0x01000000 \<mapsto> OPrivate demo_fp,
        0x01001000 \<mapsto> OStream \<lparr>ds_pos = 0, ds_disk = DISK\<rparr>, 0x01002000 \<mapsto> OStream \<lparr>ds_pos = 0, ds_disk = DISK\<rparr>,
        0x01003000 \<mapsto> OStream \<lparr>ds_pos = 0, ds_disk = DISK\<rparr>,
        0x01004000 \<mapsto> OItems (decode_items (slice demo_img 153088 512)))\<rparr>"

lemma demo_img_simps [simp]:
  "demo_img (numeral k) = (case map_of demo_bytes (numeral k) of Some b \<Rightarrow> b | None \<Rightarrow> if 155136 \<le> (numeral k :: nat) then 7 else 0)"
  by (simp add: demo_img_def)

lemma slice_nth [simp]: "i < n \<Longrightarrow> slice img a n ! i = img (a + i)"
  by (simp add: slice_def)

lemma demo_geometry: "spc demo_fp = 1" "reserved demo_fp = 1" "data_start demo_fp = 300"
  by (simp_all add: spc_def reserved_def data_start_def demo_fp_def decode_header_def field16_def le16_def demo_bytes_def)

lemma demo_fat:
  "fat_next demo_img demo_fp 2 = 3" "fat_next demo_img demo_fp 3 = 65528"
  "fat_next demo_img demo_fp 4 = 65528" "fat_next demo_img demo_fp 5 = 65528"
  by (simp_all add: fat_next_def demo_geometry le16_def demo_bytes_def)

lemma demo_mounted: "mounted (sim_ports demo_img) demo_img 4000 sim_idle demo_fp demo_state"
proof -
  have "disk_ready (sim_ports demo_img) demo_img 4000 sim_idle demo_state"
    by (simp add: disk_ready_def sim_ata_disk demo_state_def boot_state_def sim_idle_def)
  then show ?thesis unfolding mounted_def demo_geometry
    by (simp add: demo_state_def stream_at_def demo_fp_def)
qed

lemma demo_heap_ok: "heap_ok demo_state demo_owned"
proof -
  let ?h = "\<lambda>k. \<lparr>hp_table = \<lparr>ht_entries = Some (replicate k 0x41 @ replicate (20 - k) 0), ht_total = 20\<rparr>, hp_saddr = 0x01000000\<rparr>"
  have r: "heap_malloc (?h 0) 92 = Some (0x01000000, ?h 1)" "heap_malloc (?h 1) 8 = Some (0x01001000, ?h 2)"
    "heap_malloc (?h 2) 8 = Some (0x01002000, ?h 3)" "heap_malloc (?h 3) 8 = Some (0x01003000, ?h 4)"
    "heap_malloc (?h 4) 512 = Some (0x01004000, ?h 5)"
    by code_simp+
  have b: "blocks_of 92 = 1" "blocks_of 8 = 1" "blocks_of 512 = 1" by code_simp+
  have "?h 0 = fresh_heap 0x01000000 20" by (simp add: fresh_heap_def)
  then have "heap_owns (?h 0) Map.empty" by (simp add: fresh_heap_owns validate_alignment_def)
  from kernel.alloc_rep [OF this r(1)] have "heap_owns (?h 1) (Map.empty(0x01000000 \<mapsto> 1))" by (simp add: b)
  from kernel.alloc_rep [OF this r(2)] have "heap_owns (?h 2) (Map.empty(0x01000000 \<mapsto> 1, 0x01001000 \<mapsto> 1))" by (simp add: b)
  from kernel.alloc_rep [OF this r(3)] have "heap_owns (?h 3) (Map.empty(0x01000000 \<mapsto> 1, 0x01001000 \<mapsto> 1, 0x01002000 \<mapsto> 1))"
    by (simp add: b)
  from kernel.alloc_rep [OF this r(4)] have "heap_owns (?h 4)
      (Map.empty(0x01000000 \<mapsto> 1, 0x01001000 \<mapsto> 1, 0x01002000 \<mapsto> 1, 0x01003000 \<mapsto> 1))"
    by (simp add: b)
  from kernel.alloc_rep [OF this r(5)] have "heap_owns demo_heap demo_owned"
    by (simp add: b demo_heap_def demo_owned_def)
  then show ?thesis by (simp add: heap_ok_def demo_state_def demo_owned_def)
qed

lemma demo_chain_covers:
  "n \<le> 1024 \<Longrightarrow> chain_covers demo_img demo_fp 4000 2 n" "n \<le> 512 \<Longrightarrow> chain_covers demo_img demo_fp 4000 4 n"
  "n \<le> 512 \<Longrightarrow> chain_covers demo_img demo_fp 4000 5 n"
proof -
  have i: "\<exists>c'. chain_at nx c i = Some c' \<and> P c'"
    if "i * 512 < n" "n \<le> 1024" "P c" "\<not> chain_end (nx c)" "P (nx c)" for i c P and nx :: "nat \<Rightarrow> nat"
  proof -
    have "i = 0 \<or> i = 1" using that(1,2) by linarith
    then show ?thesis using that(3-5) by auto
  qed
  show "n \<le> 1024 \<Longrightarrow> chain_covers demo_img demo_fp 4000 2 n"
    unfolding chain_covers_def demo_geometry mult_1_right
    using i [of _ "\<lambda>c'. 2 \<le> c' \<and> 300 + (c' - 1) \<le> 4000" 2] by (simp add: demo_fat chain_end_def)
  have z: "i * 512 < n \<Longrightarrow> n \<le> 512 \<Longrightarrow> chain_at nx c i = Some c" for i c and nx :: "nat \<Rightarrow> nat"
    by (cases i) auto
  show "n \<le> 512 \<Longrightarrow> chain_covers demo_img demo_fp 4000 4 n"
    unfolding chain_covers_def demo_geometry mult_1_right by (simp add: z)
  show "n \<le> 512 \<Longrightarrow> chain_covers demo_img demo_fp 4000 5 n"
    unfolding chain_covers_def demo_geometry mult_1_right by (simp add: z)
qed

lemma chain_at_numeral:
  "chain_at nx c 1 = (if chain_end (nx c) then None else Some (nx c))"
  "chain_at nx c 2 = (if chain_end (nx c) then None else chain_at nx (nx c) 1)"
  by (simp_all add: numeral_2_eq_2)

section \<open>Properties\<close>

text \<open>
  C9. On a mounted volume whose table links enough clusters, a read of \<open>n\<close> bytes at an
  offset of a chain always returns 0 and stores exactly these bytes of the chain's
  contents, however the range crosses sectors and clusters; only the device and stream
  positions change, and the volume stays mounted.
\<close>

theorem fat16_read_internal_correct:
  assumes "mounted P img cap idle fp s" "0 < n" "off + n < 2147483648" "chain_covers img fp cap c (off + n)"
  shows "\<exists>t. fat16_read_internal P DISK (int c) (int off) (int n) s =
      Some (0, slice (contents img fp c) off n, t) \<and> io_only s t \<and> mounted P img cap idle fp t"
  using assms by (rule fat16_read_ok)

theorem fat16_read_internal_correct_witness:
  "\<exists>t. fat16_read_internal (sim_ports demo_img) DISK (int 2) (int 100) (int 600) demo_state =
      Some (0, slice (contents demo_img demo_fp 2) 100 600, t) \<and> io_only demo_state t \<and>
      mounted (sim_ports demo_img) demo_img 4000 sim_idle demo_fp t"
  by (rule fat16_read_internal_correct [OF demo_mounted]) (simp_all add: demo_chain_covers)

text \<open>
  C33. A read at an offset behind the end of the chain, or behind a free, reserved or bad
  entry in it, returns \<open>-EIO\<close> and stores nothing.
\<close>

theorem fat16_read_internal_broken_chain:
  assumes "mounted P img cap idle fp s" "c < 65536" "off < 2147483648"
    "chain_at (fat_next img fp) c (off div (512 * spc fp)) = None"
  shows "\<exists>t. fat16_read_internal P DISK (int c) (int off) n s = Some (- EIO, [], t) \<and>
    io_only s t \<and> mounted P img cap idle fp t"
  using assms by (rule fat16_read_broken)

theorem fat16_read_internal_broken_chain_witness:
  "\<exists>t. fat16_read_internal (sim_ports demo_img) DISK (int 2) (int 1030) 4 demo_state = Some (- EIO, [], t) \<and>
    io_only demo_state t \<and> mounted (sim_ports demo_img) demo_img 4000 sim_idle demo_fp t"
  by (rule fat16_read_internal_broken_chain [OF demo_mounted])
    (simp_all add: demo_geometry demo_fat chain_end_def chain_at_numeral del: One_nat_def)

text \<open>
  C27. The endless loop that counts a directory's entries ends on every directory that has
  a blank entry inside its chain, with the number of entries before the first blank one.
\<close>

theorem directory_items_counted:
  assumes "mounted P img cap idle fp s" "32 * n + 32 < 2147483648" "chain_covers img fp cap c (32 * n + 32)"
    "\<forall>j < n. contents img fp c (32 * j) \<noteq> 0" "contents img fp c (32 * n) = 0"
  shows "\<exists>t. fat16_get_total_items_for_directory_cluster P DISK (int c) s = Some (int n, t) \<and>
    io_only s t \<and> mounted P img cap idle fp t"
  using assms by (rule directory_count_ok)

theorem directory_items_counted_witness:
  "\<exists>t. fat16_get_total_items_for_directory_cluster (sim_ports demo_img) DISK (int 4) demo_state = Some (int 1, t) \<and>
    io_only demo_state t \<and> mounted (sim_ports demo_img) demo_img 4000 sim_idle demo_fp t"
  by (rule directory_items_counted [OF demo_mounted])
    (simp_all add: demo_chain_covers contents_def demo_geometry cluster_pos_def demo_bytes_def)

text \<open>
  A directory whose entries fill its chain to the last byte has no blank entry; the
  count then runs off the end of the chain and the directory is reported as \<open>-EIO\<close>.
\<close>

theorem full_directory_not_counted:
  assumes "mounted P img cap idle fp s" "32 * n < 2147483648" "chain_covers img fp cap c (32 * n)"
    "\<forall>j < n. contents img fp c (32 * j) \<noteq> 0" "chain_at (fat_next img fp) c (32 * n div (512 * spc fp)) = None"
  shows "\<exists>t. fat16_get_total_items_for_directory_cluster P DISK (int c) s = Some (- EIO, t) \<and>
    io_only s t \<and> mounted P img cap idle fp t"
  using assms by (rule directory_count_full)

theorem full_directory_not_counted_witness:
  "\<exists>t. fat16_get_total_items_for_directory_cluster (sim_ports demo_img) DISK (int 5) demo_state = Some (- EIO, t) \<and>
    io_only demo_state t \<and> mounted (sim_ports demo_img) demo_img 4000 sim_idle demo_fp t"
proof (rule full_directory_not_counted [OF demo_mounted])
  show "\<forall>j < 16. contents demo_img demo_fp 5 (32 * j) \<noteq> 0"
    by (simp add: contents_def demo_geometry cluster_pos_def demo_img_def demo_bytes_def)
qed (simp_all add: demo_chain_covers demo_geometry demo_fat chain_end_def chain_at_numeral del: One_nat_def)

end
