(* ===== verification/Fat16_Mount.thy ===== *)
theory Fat16_Mount
  imports Fat16_Chain
begin

text \<open>
  Binding FAT16 to a disk: \<open>src/fs/fat/fat16.c\<close>, lines 138 to 309. \<open>fat16_resolve\<close> allocates the
  private data and its streams, reads and checks the header, loads the root directory, and
  on every error takes all of it back.
\<close>

section \<open>Operations\<close>

definition zero_directory :: fat_directory where
  "zero_directory = \<lparr>fd_item = 0, fd_total = 0, fd_sector_pos = 0, fd_ending_sector_pos = 0\<rparr>"

definition zero_private :: fat_private where
  "zero_private = \<lparr>fp_header = zero_header, fp_root_directory = zero_directory,
     fp_cluster_read_stream = 0, fp_fat_read_stream = 0, fp_directory_stream = 0\<rparr>"

lemma kzalloc_zero_objects [simp]:
  "kzalloc 16 as_directory s = zalloc 16 (ODirectory zero_directory) s"
  "kzalloc 92 as_private s = zalloc 92 (OPrivate zero_private) s"
  "kzalloc 32 as_items s = zalloc 32 (OItems [zero_item]) s"
  by (simp_all add: kzalloc_directory kzalloc_private kzalloc_items [where k = 1] zero_directory_def zero_private_def)

text \<open>\<open>fat16_init\<close> writes the name into the static \<open>fat16_fs\<close>; \<open>name\<close> is its 20-byte field.\<close>

definition fat16_init :: "u8 list \<Rightarrow> (fs_ptr \<times> u8 list) option" where
  "fat16_init name = do {
     name' \<leftarrow> strcpy name [0x46, 0x41, 0x54, 0x31, 0x36, 0x00];
     Some (FAT16_FS, name') }"

definition fat16_init_private :: "disk_ptr \<Rightarrow> u32 \<Rightarrow> 'd kst \<Rightarrow> 'd kst option" where
  "fat16_init_private dk priv s = do {
     _ \<leftarrow> obj_private s priv;
     let s0 = store priv (OPrivate zero_private) s;
     d \<leftarrow> disk_of dk s0;
     (a, s1) \<leftarrow> diskstreamer_new (dk_id d) s0;
     fp1 \<leftarrow> obj_private s1 priv;
     let s1' = store priv (OPrivate (fp1\<lparr>fp_cluster_read_stream := a\<rparr>)) s1;
     (b, s2) \<leftarrow> diskstreamer_new (dk_id d) s1';
     fp2 \<leftarrow> obj_private s2 priv;
     let s2' = store priv (OPrivate (fp2\<lparr>fp_fat_read_stream := b\<rparr>)) s2;
     (c, s3) \<leftarrow> diskstreamer_new (dk_id d) s2';
     fp3 \<leftarrow> obj_private s3 priv;
     Some (store priv (OPrivate (fp3\<lparr>fp_directory_stream := c\<rparr>)) s3) }"

definition fat16_free_root_directory :: "u32 \<Rightarrow> 'd kst \<Rightarrow> 'd kst option" where
  "fat16_free_root_directory priv s =
     (if priv = 0 then Some s
      else do {
        fp \<leftarrow> obj_private s priv;
        if fd_item (fp_root_directory fp) = 0 then Some s
        else do {
          s1 \<leftarrow> kfree (fd_item (fp_root_directory fp)) s;
          fp1 \<leftarrow> obj_private s1 priv;
          Some (store priv (OPrivate (fp1\<lparr>fp_root_directory := (fp_root_directory fp1)\<lparr>fd_item := 0\<rparr>\<rparr>)) s1) } })"

definition close_if :: "u32 \<Rightarrow> 'd kst \<Rightarrow> 'd kst option" where
  "close_if stream s = (if stream \<noteq> 0 then diskstreamer_close stream s else Some s)"

definition fat16_free_private :: "u32 \<Rightarrow> 'd kst \<Rightarrow> 'd kst option" where
  "fat16_free_private priv s =
     (if priv = 0 then Some s
      else do {
        s1 \<leftarrow> fat16_free_root_directory priv s;
        fp1 \<leftarrow> obj_private s1 priv;
        s2 \<leftarrow> close_if (fp_cluster_read_stream fp1) s1;
        fp2 \<leftarrow> obj_private s2 priv;
        s3 \<leftarrow> close_if (fp_fat_read_stream fp2) s2;
        fp3 \<leftarrow> obj_private s3 priv;
        s4 \<leftarrow> close_if (fp_directory_stream fp3) s3;
        kfree priv s4 })"

text \<open>The loop of \<open>fat16_get_total_items_for_directory\<close>; \<open>n\<close> is \<open>max_items - i\<close>.\<close>

fun total_items_loop :: "'d ports \<Rightarrow> u32 \<Rightarrow> nat \<Rightarrow> int \<Rightarrow> 'd kst \<Rightarrow> (int \<times> 'd kst) option" where
  "total_items_loop P stream 0 i s = Some (i, s)"
| "total_items_loop P stream (Suc n) i s = do {
     (res, bytes, s1) \<leftarrow> diskstreamer_read P stream sizeof_item s;
     if res \<noteq> SAMOS_ALL_OK then Some (- EIO, s1)
     else do {
       c \<leftarrow> at_idx bytes 0;
       if c = DIRECTORY_EMPTY then Some (i, s1)
       else total_items_loop P stream n (i + 1) s1 } }"

definition fat16_get_total_items_for_directory ::
  "'d ports \<Rightarrow> disk_ptr \<Rightarrow> u32 \<Rightarrow> int \<Rightarrow> 'd kst \<Rightarrow> (int \<times> 'd kst) option" where
  "fat16_get_total_items_for_directory P dk directory_start_sector max_items s =
     (if max_items \<le> 0 then Some (0, s)
      else do {
        d \<leftarrow> disk_of dk s;
        fp \<leftarrow> obj_private s (dk_fs_private d);
        let directory_start_pos = to_int (directory_start_sector * word_of_int (dk_sector_size d));
        let stream = fp_directory_stream fp;
        (res, s1) \<leftarrow> diskstreamer_seek stream directory_start_pos s;
        if SAMOS_ALL_OK \<noteq> res then Some (- EIO, s1)
        else total_items_loop P stream (nat max_items) 0 s1 })"

text \<open>
  \<open>fat16_get_root_directory\<close>, whose third argument is always the root directory inside the
  private data. The label \<open>out\<close> frees the items on an error.
\<close>

definition root_directory_out :: "int \<Rightarrow> u32 \<Rightarrow> 'd kst \<Rightarrow> (int \<times> 'd kst) option" where
  "root_directory_out res dir s =
     (if res < 0 \<and> dir \<noteq> 0 then do { s' \<leftarrow> kfree dir s; Some (res, s') } else Some (res, s))"

definition fat16_get_root_directory :: "'d ports \<Rightarrow> disk_ptr \<Rightarrow> u32 \<Rightarrow> 'd kst \<Rightarrow> (int \<times> 'd kst) option" where
  "fat16_get_root_directory P dk priv s = do {
     d \<leftarrow> disk_of dk s;
     fp \<leftarrow> obj_private s priv;
     let ph = fh_primary (fp_header fp);
     let root_dir_sector_pos = uint (fh_fat_copies ph) * uint (fh_sectors_per_fat ph) + uint (fh_reserved_sectors ph);
     let root_directory_entries = uint (fh_root_dir_entries ph);
     let root_dir_size = root_directory_entries * sizeof_item;
     total_sectors \<leftarrow> c_div root_dir_size (dk_sector_size d);
     rest \<leftarrow> c_mod root_dir_size (dk_sector_size d);
     let total_sectors = (if rest \<noteq> 0 then total_sectors + 1 else total_sectors);
     (total_items, s1) \<leftarrow> fat16_get_total_items_for_directory P dk (word_of_int root_dir_sector_pos) root_directory_entries s;
     if total_items < 0 then root_directory_out total_items 0 s1
     else do {
       (dir, s2) \<leftarrow> kzalloc (word_of_int root_dir_size) as_items s1;
       if dir = 0 then root_directory_out (- ENOMEM) 0 s2
       else do {
         fp2 \<leftarrow> obj_private s2 priv;
         let stream = fp_directory_stream fp2;
         (res, s3) \<leftarrow> diskstreamer_seek stream (fat16_sector_to_absolute d root_dir_sector_pos) s2;
         if res \<noteq> SAMOS_ALL_OK then root_directory_out (- EIO) dir s3
         else do {
           (res', bytes, s4) \<leftarrow> diskstreamer_read P stream root_dir_size s3;
           if res' \<noteq> SAMOS_ALL_OK then root_directory_out (- EIO) dir s4
           else do {
             let s5 = store dir (OItems (decode_items bytes)) s4;
             fp5 \<leftarrow> obj_private s5 priv;
             root_directory_out 0 dir (store priv (OPrivate (fp5\<lparr>fp_root_directory :=
               \<lparr>fd_item = dir, fd_total = total_items, fd_sector_pos = root_dir_sector_pos,
                fd_ending_sector_pos = i32 (root_dir_sector_pos + total_sectors)\<rparr>\<rparr>)) s5) } } } } }"

text \<open>The label \<open>out\<close> of \<open>fat16_resolve\<close>.\<close>

definition resolve_out :: "disk_ptr \<Rightarrow> int \<Rightarrow> u32 \<Rightarrow> u32 \<Rightarrow> 'd kst \<Rightarrow> (int \<times> 'd kst) option" where
  "resolve_out dk res stream priv s = do {
     s1 \<leftarrow> close_if stream s;
     if res < 0 then do {
       s2 \<leftarrow> fat16_free_private priv s1;
       d \<leftarrow> disk_of dk s2;
       Some (res, s2\<lparr>ks_disk := d\<lparr>dk_fs_private := 0, dk_filesystem := FS_NULL\<rparr>\<rparr>) }
     else Some (res, s1) }"

definition fat16_resolve :: "'d ports \<Rightarrow> disk_ptr \<Rightarrow> 'd kst \<Rightarrow> (int \<times> 'd kst) option" where
  "fat16_resolve P dk s = do {
     (priv, s1) \<leftarrow> kzalloc 92 as_private s;
     if priv = 0 then resolve_out dk (- ENOMEM) 0 priv s1
     else do {
       s2 \<leftarrow> fat16_init_private dk priv s1;
       fp \<leftarrow> obj_private s2 priv;
       if fp_cluster_read_stream fp = 0 \<or> fp_fat_read_stream fp = 0 \<or> fp_directory_stream fp = 0
       then resolve_out dk (- ENOMEM) 0 priv s2
       else do {
         d \<leftarrow> disk_of dk s2;
         let s3 = s2\<lparr>ks_disk := d\<lparr>dk_fs_private := priv, dk_filesystem := FAT16_FS\<rparr>\<rparr>;
         (stream, s4) \<leftarrow> diskstreamer_new (dk_id d) s3;
         if stream = 0 then resolve_out dk (- ENOMEM) 0 priv s4
         else do {
           (res, bytes, s5) \<leftarrow> diskstreamer_read P stream sizeof_fat_h s4;
           if res \<noteq> SAMOS_ALL_OK then resolve_out dk (- EIO) stream priv s5
           else do {
             fp5 \<leftarrow> obj_private s5 priv;
             let s6 = store priv (OPrivate (fp5\<lparr>fp_header := decode_header bytes\<rparr>)) s5;
             if fx_signature (fh_extended (decode_header bytes)) \<noteq> SAMOS_FAT16_SIGNATURE
             then resolve_out dk (- EFSNOTUS) stream priv s6
             else do {
               (res', s7) \<leftarrow> fat16_get_root_directory P dk priv s6;
               if res' \<noteq> SAMOS_ALL_OK then resolve_out dk (- EIO) stream priv s7
               else resolve_out dk 0 stream priv s7 } } } } } }"

section \<open>The steps on a working disk\<close>

lemma stream_new_ok:
  assumes "heap_ok s B" "i \<le> 0" "0 < free_count (ks_heap s)"
  obtains p t where "diskstreamer_new i s = Some (p, t)" "p \<noteq> 0" "B p = None" "grown s {p} t"
    "heap_ok t (with_blocks B {p})" "ks_objs t p = Some (OStream \<lparr>ds_pos = 0, ds_disk = DISK\<rparr>)"
    "free_count (ks_heap s) = Suc (free_count (ks_heap t))"
proof -
  let ?z = "OStream \<lparr>ds_pos = 0, ds_disk = DISK_NULL\<rparr>" and ?d = "OStream \<lparr>ds_pos = 0, ds_disk = DISK\<rparr>"
  obtain p h where k: "zalloc 8 ?z s = Some (p, store p ?z (s\<lparr>ks_heap := h\<rparr>))" "p \<noteq> 0" "B p = None"
    "heap_ok (store p ?z (s\<lparr>ks_heap := h\<rparr>)) (B(p \<mapsto> 1))" "same_frame (ks_heap s) h"
    "free_count (ks_heap s) = Suc (free_count h)"
    by (rule zalloc_one_block [OF assms(1), of 8 ?z]) (use assms(3) in auto)
  have "B(p \<mapsto> 1) = with_blocks B {p}" by (auto simp: with_blocks_def)
  then have "heap_ok (store p ?d (s\<lparr>ks_heap := h\<rparr>)) (with_blocks B {p})" using heap_ok_restore [OF k(4)] by metis
  then show thesis
    by (rule that [of p "store p ?d (s\<lparr>ks_heap := h\<rparr>)", rotated 4])
      (use k assms(2) in \<open>auto simp: diskstreamer_new_def disk_get_def deref grown_zalloc\<close>)
qed

text \<open>\<open>diskstreamer_new\<close> does not check what \<open>kzalloc\<close> returned.\<close>

lemma stream_new_null:
  assumes "heap_ok s B" "i \<le> 0" "free_count (ks_heap s) = 0"
  shows "diskstreamer_new i s = None"
proof -
  let ?z = "OStream \<lparr>ds_pos = 0, ds_disk = DISK_NULL\<rparr>"
  have "zalloc 8 ?z s = Some (0, s)"
    by (rule zalloc_one_cases [OF assms(1), of 8 ?z]) (use assms(3) in auto)
  then show ?thesis
    using assms(2) heap_ok_null [OF assms(1)] by (simp add: diskstreamer_new_def disk_get_def deref)
qed

lemma stream_new_cases:
  assumes "heap_ok s B" "i \<le> 0" "ks_objs s priv = Some (OPrivate fp)"
  obtains (null) "diskstreamer_new i s = None"
  | (fresh) p t where "diskstreamer_new i s = Some (p, t)" "heap_ok t (with_blocks B {p})" "ks_objs t priv = Some (OPrivate fp)"
      "ks_disk t = ks_disk s" "free_count (ks_heap s) = Suc (free_count (ks_heap t))"
proof (cases "free_count (ks_heap s) = 0")
  case True
  then show thesis using stream_new_null [OF assms(1,2)] null by blast
next
  case False
  then have "0 < free_count (ks_heap s)" by simp
  from assms(1,2) this show thesis
  proof (rule stream_new_ok)
    fix p t assume t: "diskstreamer_new i s = Some (p, t)" "B p = None" "grown s {p} t" "heap_ok t (with_blocks B {p})"
      "free_count (ks_heap s) = Suc (free_count (ks_heap t))"
    have "priv \<noteq> p" using t(2) assms(3) heap_ok_None [OF assms(1), of p] by auto
    then have "ks_objs t priv = Some (OPrivate fp)" using grown_objs [OF t(3), of priv] assms(3) by simp
    then show thesis using t grown_rest [OF t(3)] by (intro fresh [of p t]) simp_all
  qed
qed

lemma init_private_null:
  assumes "heap_ok s B" "ks_objs s priv = Some (OPrivate fp)" "dk_id (ks_disk s) \<le> 0" "free_count (ks_heap s) < 3"
  shows "fat16_init_private DISK priv s = None"
proof -
  have p0: "ks_objs (store priv (OPrivate zero_private) s) priv = Some (OPrivate zero_private)" by simp
  have h0: "heap_ok (store priv (OPrivate zero_private) s) B" by (rule heap_ok_store [OF assms(1)]) (simp add: assms(2))
  note defs = fat16_init_private_def disk_of_def deref Let_def
  from h0 assms(3) p0 show ?thesis
  proof (cases rule: stream_new_cases)
    case null
    then show ?thesis using assms(2) by (simp add: defs)
  next
    case a: (fresh a s1)
    let ?p1 = "OPrivate (zero_private\<lparr>fp_cluster_read_stream := a\<rparr>)"
    have h1: "heap_ok (store priv ?p1 s1) (with_blocks B {a})" by (rule heap_ok_store [OF a(2)]) (simp add: a(3))
    have p1: "ks_objs (store priv ?p1 s1) priv = Some ?p1" by simp
    from h1 assms(3) p1 show ?thesis
    proof (cases rule: stream_new_cases)
      case null
      then show ?thesis using assms(2) a by (simp add: defs)
    next
      case b: (fresh b s2)
      let ?p2 = "OPrivate (zero_private\<lparr>fp_cluster_read_stream := a, fp_fat_read_stream := b\<rparr>)"
      have h2: "heap_ok (store priv ?p2 s2) (with_blocks (with_blocks B {a}) {b})"
        by (rule heap_ok_store [OF b(2)]) (simp add: b(3))
      have "free_count (ks_heap (store priv ?p2 s2)) = 0" using a(5) b(5) assms(4) by simp
      then have "diskstreamer_new (dk_id (ks_disk s)) (store priv ?p2 s2) = None" by (rule stream_new_null [OF h2 assms(3)])
      then show ?thesis using assms(2) a b by (simp add: defs)
    qed
  qed
qed

lemma init_private_ok:
  assumes "heap_ok s B" "ks_objs s priv = Some (OPrivate fp)" "dk_id (ks_disk s) \<le> 0" "3 \<le> free_count (ks_heap s)"
  obtains a b c t where "fat16_init_private DISK priv s = Some t" "distinct [0, priv, a, b, c]"
    "B a = None" "B b = None" "B c = None" "grown s {priv, a, b, c} t" "heap_ok t (with_blocks B {a, b, c})"
    "ks_objs t priv = Some (OPrivate (zero_private\<lparr>fp_cluster_read_stream := a, fp_fat_read_stream := b,
       fp_directory_stream := c\<rparr>))"
    "stream_at t a" "stream_at t b" "stream_at t c" "free_count (ks_heap s) = free_count (ks_heap t) + 3"
proof -
  have Bp: "B priv \<noteq> None" using assms(1,2) heap_ok_None by (metis option.distinct(1))
  have B0: "B 0 = None" using heap_ok_null [OF assms(1)] heap_ok_None [OF assms(1)] by blast
  let ?z = "OPrivate zero_private"
  let ?s0 = "store priv ?z s"
  have h0: "heap_ok ?s0 B" by (rule heap_ok_store [OF assms(1)]) (use assms(2) in simp)
  obtain a s1 where a: "diskstreamer_new (dk_id (ks_disk s)) ?s0 = Some (a, s1)" "a \<noteq> 0" "B a = None"
    "grown ?s0 {a} s1" "heap_ok s1 (with_blocks B {a})" "ks_objs s1 a = Some (OStream \<lparr>ds_pos = 0, ds_disk = DISK\<rparr>)"
    "free_count (ks_heap ?s0) = Suc (free_count (ks_heap s1))"
    by (rule stream_new_ok [OF h0 assms(3)]) (use assms(4) in auto)
  have ap: "a \<noteq> priv" using a(3) Bp by auto
  have p1: "ks_objs s1 priv = Some ?z" using grown_objs [OF a(4), of priv] ap by simp
  let ?z1 = "OPrivate (zero_private\<lparr>fp_cluster_read_stream := a\<rparr>)"
  let ?s1 = "store priv ?z1 s1"
  have h1: "heap_ok ?s1 (with_blocks B {a})" by (rule heap_ok_store [OF a(5)]) (use p1 in simp)
  obtain b s2 where b: "diskstreamer_new (dk_id (ks_disk s)) ?s1 = Some (b, s2)" "b \<noteq> 0" "with_blocks B {a} b = None"
    "grown ?s1 {b} s2" "heap_ok s2 (with_blocks (with_blocks B {a}) {b})"
    "ks_objs s2 b = Some (OStream \<lparr>ds_pos = 0, ds_disk = DISK\<rparr>)"
    "free_count (ks_heap ?s1) = Suc (free_count (ks_heap s2))"
    by (rule stream_new_ok [OF h1 assms(3)]) (use assms(4) a(7) in auto)
  have bp: "b \<noteq> priv" "b \<noteq> a" "B b = None" using b(3) Bp by (auto simp: with_blocks_None)
  have p2: "ks_objs s2 priv = Some ?z1" "ks_objs s2 a = Some (OStream \<lparr>ds_pos = 0, ds_disk = DISK\<rparr>)"
    using grown_objs [OF b(4), of priv] grown_objs [OF b(4), of a] bp ap a(6) by simp_all
  let ?z2 = "OPrivate (zero_private\<lparr>fp_cluster_read_stream := a, fp_fat_read_stream := b\<rparr>)"
  let ?s2 = "store priv ?z2 s2"
  have h2: "heap_ok ?s2 (with_blocks (with_blocks B {a}) {b})" by (rule heap_ok_store [OF b(5)]) (use p2 in simp)
  obtain c s3 where c: "diskstreamer_new (dk_id (ks_disk s)) ?s2 = Some (c, s3)" "c \<noteq> 0"
    "with_blocks (with_blocks B {a}) {b} c = None"
    "grown ?s2 {c} s3" "heap_ok s3 (with_blocks (with_blocks (with_blocks B {a}) {b}) {c})"
    "ks_objs s3 c = Some (OStream \<lparr>ds_pos = 0, ds_disk = DISK\<rparr>)"
    "free_count (ks_heap ?s2) = Suc (free_count (ks_heap s3))"
    by (rule stream_new_ok [OF h2 assms(3)]) (use assms(4) a(7) b(7) in auto)
  have cp: "c \<noteq> priv" "c \<noteq> a" "c \<noteq> b" "B c = None" using c(3) Bp by (auto simp: with_blocks_None)
  have p3: "ks_objs s3 priv = Some ?z2" "ks_objs s3 a = Some (OStream \<lparr>ds_pos = 0, ds_disk = DISK\<rparr>)"
    "ks_objs s3 b = Some (OStream \<lparr>ds_pos = 0, ds_disk = DISK\<rparr>)"
    using grown_objs [OF c(4), of priv] grown_objs [OF c(4), of a] grown_objs [OF c(4), of b] bp ap cp p2 b(6)
    by simp_all
  let ?z3 = "OPrivate (zero_private\<lparr>fp_cluster_read_stream := a, fp_fat_read_stream := b, fp_directory_stream := c\<rparr>)"
  let ?t = "store priv ?z3 s3"
  have "fat16_init_private DISK priv s = Some ?t"
    using assms(2) a(1) b(1) c(1) p1 p2 p3
    by (simp add: fat16_init_private_def disk_of_def deref Let_def)
  moreover have "heap_ok ?t (with_blocks B {a, b, c})"
  proof -
    have "with_blocks (with_blocks (with_blocks B {a}) {b}) {c} = with_blocks B {a, b, c}"
      by (auto simp: with_blocks_def fun_eq_iff)
    then show ?thesis using heap_ok_store [OF c(5), of priv] p3(1) by simp
  qed
  moreover have "grown s {priv, a, b, c} ?t"
    by (rule grown_mono [OF grown_trans [OF grown_trans [OF grown_trans [OF grown_trans [OF grown_trans [OF
        grown_trans [OF grown_store [of s priv ?z] a(4)] grown_store] b(4)] grown_store] c(4)] grown_store]]) auto
  ultimately show thesis
    using a b c ap bp cp p3 B0 Bp by (intro that [of ?t a b c]) (auto simp: stream_at_def)
qed

text \<open>How many of \<open>n\<close> directory entries from byte \<open>base\<close> on come before the first blank one.\<close>

fun entries_used :: "(nat \<Rightarrow> u8) \<Rightarrow> nat \<Rightarrow> nat \<Rightarrow> nat" where
  "entries_used img base 0 = 0"
| "entries_used img base (Suc n) = (if img base = 0 then 0 else Suc (entries_used img (base + 32) n))"

lemma entries_used_le: "entries_used img base n \<le> n"
  by (induction n arbitrary: base) auto

lemma total_items_loop_ok:
  assumes "disk_ready P img cap idle s" "ks_objs s p = Some (OStream \<lparr>ds_pos = int pos, ds_disk = DISK\<rparr>)"
    "pos mod 32 = 0" "pos + 32 * n \<le> 512 * cap" "pos + 32 * n < 2147483648"
  shows "\<exists>t. total_items_loop P p n i s = Some (i + int (entries_used img pos n), t) \<and>
    io_only s t \<and> disk_ready P img cap idle t"
  using assms
proof (induction n arbitrary: pos i s)
  case 0
  then show ?case by simp
next
  case (Suc n)
  have "pos mod 512 mod 32 = pos mod 32" by (simp add: mod_mod_cancel)
  then have "32 dvd pos mod 512" using Suc.prems(3) by (simp add: dvd_eq_mod_eq_0)
  then obtain k where "pos mod 512 = 32 * k" by (elim dvdE)
  moreover from this have "k < 16" using mod_less_divisor [of 512 pos] by linarith
  ultimately have off: "pos mod 512 + 32 \<le> 512" by linarith
  have "pos div 512 < cap" using Suc.prems(4) by (simp add: less_mult_imp_div_less)
  then obtain d where d: "diskstreamer_read P p (int 32) s = Some (0, slice img pos 32, moved p (int (pos + 32)) d s)" "idle d"
    using read_within_sector [OF Suc.prems(1,2) _ off] Suc.prems(5) by auto
  let ?s1 = "moved p (int (pos + 32)) d s"
  have io: "io_only s ?s1" using Suc.prems(2) by (intro io_only_moved) (auto simp: stream_at_def)
  have rd: "disk_ready P img cap idle ?s1" by (rule moved_ready [OF Suc.prems(1) d(2)])
  have at: "at_idx (slice img pos 32) 0 = Some (img pos)" by (simp add: at_idx_def)
  show ?case
  proof (cases "img pos = 0")
    case True
    then show ?thesis using d(1) at io rd by simp
  next
    case False
    have "\<exists>t. total_items_loop P p n (i + 1) ?s1 = Some (i + 1 + int (entries_used img (pos + 32) n), t) \<and>
        io_only ?s1 t \<and> disk_ready P img cap idle t"
      using Suc.prems(3,4,5) by (intro Suc.IH [OF rd]) auto
    then show ?thesis using False d(1) at io_only_trans [OF io] by auto
  qed
qed

text \<open>The layout of the root directory as the header gives it.\<close>

definition root_sector :: "fat_header \<Rightarrow> nat" where
  "root_sector ph = unat (fh_fat_copies ph) * unat (fh_sectors_per_fat ph) + unat (fh_reserved_sectors ph)"

definition root_entries :: "fat_header \<Rightarrow> nat" where
  "root_entries ph = unat (fh_root_dir_entries ph)"

lemma root_sector_bound: "root_sector ph < 16777216"
proof -
  have "unat (fh_fat_copies ph) \<le> 255" "unat (fh_sectors_per_fat ph) \<le> 65535" "unat (fh_reserved_sectors ph) \<le> 65535"
    using unsigned_less [of "fh_fat_copies ph", where 'a = nat] unsigned_less [of "fh_sectors_per_fat ph", where 'a = nat]
      unsigned_less [of "fh_reserved_sectors ph", where 'a = nat] by simp_all
  then have "unat (fh_fat_copies ph) * unat (fh_sectors_per_fat ph) \<le> 255 * 65535" by (intro mult_le_mono)
  with \<open>unat (fh_reserved_sectors ph) \<le> 65535\<close> show ?thesis unfolding root_sector_def by linarith
qed

definition loaded_root :: "(nat \<Rightarrow> u8) \<Rightarrow> fat_header \<Rightarrow> u32 \<Rightarrow> fat_directory" where
  "loaded_root img ph dir = \<lparr>fd_item = dir, fd_total = int (entries_used img (512 * root_sector ph) (root_entries ph)),
     fd_sector_pos = int (root_sector ph),
     fd_ending_sector_pos = int (root_sector ph + (32 * root_entries ph + 511) div 512)\<rparr>"

lemma ceil_sectors:
  "int (32 * e) div 512 + (if int (32 * e) mod 512 \<noteq> 0 then 1 else 0) = int ((32 * e + 511) div 512)"
proof -
  let ?q = "32 * e div 512" and ?r = "32 * e mod 512"
  have "32 * e + 511 = (?r + 511) + 512 * ?q" using mod_mult_div_eq [of "32 * e" 512] by linarith
  then have "(32 * e + 511) div 512 = ?q + (?r + 511) div 512"
    by (metis add.commute div_mult_self2 zero_neq_numeral)
  moreover have "(?r + 511) div 512 = (if ?r \<noteq> 0 then 1 else 0)"
    using mod_less_divisor [of 512 "32 * e"] by (auto intro: div_nat_eqI)
  ultimately have "(32 * e + 511) div 512 = ?q + (if ?r \<noteq> 0 then 1 else 0)" by simp
  moreover have "int (32 * e) div 512 = int (32 * e div 512)" "int (32 * e) mod 512 = int (32 * e mod 512)"
    by (simp_all add: zdiv_int zmod_int)
  ultimately show ?thesis by simp
qed

lemma root_sector_int:
  "uint (fh_fat_copies ph) * uint (fh_sectors_per_fat ph) + uint (fh_reserved_sectors ph) = int (root_sector ph)"
  by (simp only: root_sector_def uint_nat of_nat_add of_nat_mult)

abbreviation primary :: "fat_private \<Rightarrow> fat_header" where
  "primary fp \<equiv> fh_primary (fp_header fp)"

lemma get_root_directory_step:
  assumes "obj_private s priv = Some fp" "uint (fh_root_dir_entries (primary fp)) = e"
    "uint (fh_fat_copies (primary fp)) * uint (fh_sectors_per_fat (primary fp)) + uint (fh_reserved_sectors (primary fp)) = r"
    "c_div (e * 32) (dk_sector_size (ks_disk s)) = Some q" "c_mod (e * 32) (dk_sector_size (ks_disk s)) = Some m"
    "fat16_get_total_items_for_directory P DISK (word_of_int r) e s = Some (u, s1)" "0 \<le> u"
    "kzalloc (word_of_int (e * 32)) as_items s1 = Some (dir, s2)" "dir \<noteq> 0"
    "obj_private s2 priv = Some fp2"
    "diskstreamer_seek (fp_directory_stream fp2) (fat16_sector_to_absolute (ks_disk s) r) s2 = Some (0, s3)"
    "diskstreamer_read P (fp_directory_stream fp2) (e * 32) s3 = Some (0, bytes, s4)"
    "obj_private (store dir (OItems (decode_items bytes)) s4) priv = Some fp5"
  shows "fat16_get_root_directory P DISK priv s = Some (0, store priv (OPrivate (fp5\<lparr>fp_root_directory :=
      \<lparr>fd_item = dir, fd_total = u, fd_sector_pos = r,
       fd_ending_sector_pos = i32 (r + (if m \<noteq> 0 then q + 1 else q))\<rparr>\<rparr>)) (store dir (OItems (decode_items bytes)) s4))"
  unfolding fat16_get_root_directory_def Let_def disk_of_def
  by (simp only: assms(1-6) refl if_True Option.bind.simps, use assms(7-) in \<open>simp add: root_directory_out_def\<close>)

lemma kzalloc_item_array:
  "n \<le> 128 \<Longrightarrow> kzalloc (word_of_int (int (32 * n))) as_items s =
     zalloc (word_of_int (int (32 * n))) (OItems (replicate n zero_item)) s"
  by (rule kzalloc_items) (subst unat_of_int_small; simp)

lemma root_count_ok:
  assumes "disk_ready P img cap idle s" "dk_sector_size (ks_disk s) = 512" "dk_fs_private (ks_disk s) = priv"
    "ks_objs s priv = Some (OPrivate fp)" "stream_at s (fp_directory_stream fp)" "0 < root_entries (primary fp)"
    "512 * root_sector (primary fp) + 32 * root_entries (primary fp) \<le> 512 * cap" "cap < 4194304"
  obtains t where "fat16_get_total_items_for_directory P DISK (word_of_int (int (root_sector (primary fp))))
      (int (root_entries (primary fp))) s =
      Some (int (entries_used img (512 * root_sector (primary fp)) (root_entries (primary fp))), t)"
    "io_only s t" "disk_ready P img cap idle t"
proof -
  let ?r = "root_sector (primary fp)" and ?e = "root_entries (primary fp)" and ?ds = "fp_directory_stream fp"
  let ?u = "entries_used img (512 * ?r) ?e" and ?s1 = "moved ?ds (int (512 * ?r)) (ks_dev s) s"
  have rb: "512 * ?r + 32 * ?e < 2147483648" using assms(7,8) by simp
  have "int (512 * ?r) < 2147483648" using rb by simp
  then have dpos: "to_int (word_of_int (int ?r) * word_of_int 512) = int (512 * ?r)"
    unfolding of_int_mult [symmetric] by (subst to_int_of_int) (simp_all add: mult.commute)
  have idle: "idle (ks_dev s)" using assms(1) by (simp add: disk_ready_def)
  have "\<exists>t. total_items_loop P ?ds ?e 0 ?s1 = Some (0 + int ?u, t) \<and> io_only ?s1 t \<and> disk_ready P img cap idle t"
    using assms(7) rb by (intro total_items_loop_ok [OF moved_ready [OF assms(1) idle]]) (auto simp: mod_mult_left_eq)
  then obtain t where t: "total_items_loop P ?ds ?e 0 ?s1 = Some (int ?u, t)" "io_only ?s1 t" "disk_ready P img cap idle t"
    by auto
  have "fat16_get_total_items_for_directory P DISK (word_of_int (int ?r)) (int ?e) s = Some (int ?u, t)"
    using assms(2-4,6) t(1) diskstreamer_seek_ok [OF assms(5)] dpos
    by (simp add: fat16_get_total_items_for_directory_def disk_of_def deref Let_def)
  then show thesis using io_only_trans [OF io_only_moved [OF assms(5)] t(2)] t(3) by (rule that)
qed

lemma get_root_directory_ok:
  assumes "disk_ready P img cap idle s" "heap_ok s B" "dk_sector_size (ks_disk s) = 512"
    "dk_fs_private (ks_disk s) = priv" "ks_objs s priv = Some (OPrivate fp)" "stream_at s (fp_directory_stream fp)"
    "0 < root_entries (primary fp)" "root_entries (primary fp) \<le> 128"
    "512 * root_sector (primary fp) + 32 * root_entries (primary fp) \<le> 512 * cap" "cap < 4194304" "0 < free_count (ks_heap s)"
  shows "\<exists>dir t. fat16_get_root_directory P DISK priv s = Some (0, t) \<and> B dir = None \<and> dir \<noteq> 0 \<and>
    evolved s {priv, dir} t \<and> disk_ready P img cap idle t \<and> heap_ok t (with_blocks B {dir}) \<and>
    ks_disk t = ks_disk s \<and> ks_objs t priv = Some (OPrivate (fp\<lparr>fp_root_directory := loaded_root img (primary fp) dir\<rparr>)) \<and>
    ks_objs t dir = Some (OItems (decode_items (slice img (512 * root_sector (primary fp)) (32 * root_entries (primary fp)))))"
proof -
  let ?r = "root_sector (primary fp)" and ?e = "root_entries (primary fp)" and ?ds = "fp_directory_stream fp"
  let ?u = "entries_used img (512 * ?r) ?e"
  have rb: "512 * ?r + 32 * ?e < 2147483648" using assms(9,10) by simp
  have ue: "uint (fh_root_dir_entries (primary fp)) = int ?e" by (simp only: root_entries_def uint_nat)
  \<comment> \<open>counting the entries\<close>
  obtain s2 where cnt: "fat16_get_total_items_for_directory P DISK (word_of_int (int ?r)) (int ?e) s = Some (int ?u, s2)"
    and io2: "io_only s s2" and s2: "disk_ready P img cap idle s2"
    by (rule root_count_ok [OF assms(1,3-7,9,10)])
  have p2: "ks_objs s2 priv = Some (OPrivate fp)" by (rule io_only_objs [OF io2 assms(5)]) simp
  \<comment> \<open>the items\<close>
  let ?z = "OItems (replicate ?e zero_item)"
  have sz: "0 < unat (word_of_int (int (32 * ?e)) :: u32)" "unat (word_of_int (int (32 * ?e)) :: u32) \<le> 4096"
    using assms(7,8) by (subst unat_of_int_small; simp)+
  obtain dir h where k: "zalloc (word_of_int (int (32 * ?e))) ?z s2 = Some (dir, store dir ?z (s2\<lparr>ks_heap := h\<rparr>))" "dir \<noteq> 0"
    "ks_objs s2 dir = None" "B dir = None" "heap_ok (store dir ?z (s2\<lparr>ks_heap := h\<rparr>)) (B(dir \<mapsto> 1))" "same_frame (ks_heap s2) h"
    by (rule zalloc_one_block [OF io_only_heap_ok [OF io2 assms(2)] sz, of ?z])
      (use assms(11) io_only_simps [OF io2] in auto)
  let ?s3 = "store dir ?z (s2\<lparr>ks_heap := h\<rparr>)"
  have nd: "dir \<noteq> priv" "dir \<noteq> ?ds"
    using k(3) p2 io_only_stream [OF io2 assms(6)] by (auto simp: stream_at_def)
  have st3: "stream_at ?s3 ?ds" using io_only_stream [OF io2 assms(6)] nd by (auto simp: stream_at_def)
  let ?s4 = "moved ?ds (int (512 * ?r)) (ks_dev ?s3) ?s3"
  have r3: "disk_ready P img cap idle ?s3" using s2 by (simp add: disk_ready_def)
  then have "idle (ks_dev ?s3)" by (simp add: disk_ready_def)
  then have r4: "disk_ready P img cap idle ?s4" by (rule moved_ready [OF r3])
  have "\<exists>d. diskstreamer_read P ?ds (int (32 * ?e)) ?s4 =
      Some (0, slice img (512 * ?r) (32 * ?e), moved ?ds (int (512 * ?r + 32 * ?e)) d ?s4) \<and> idle d"
    by (rule read_aligned [OF r4]) (use assms(7,9) rb in auto)
  then obtain d where d: "diskstreamer_read P ?ds (int (32 * ?e)) ?s4 =
      Some (0, slice img (512 * ?r) (32 * ?e), moved ?ds (int (512 * ?r + 32 * ?e)) d ?s3)" "idle d"
    by auto
  let ?s5 = "moved ?ds (int (512 * ?r + 32 * ?e)) d ?s3"
  let ?it = "OItems (decode_items (slice img (512 * ?r) (32 * ?e)))"
  let ?p = "OPrivate (fp\<lparr>fp_root_directory := loaded_root img (primary fp) dir\<rparr>)"
  let ?t = "store priv ?p (store dir ?it ?s5)"
  have ds: "?ds \<noteq> priv" using assms(5,6) by (auto simp: stream_at_def)
  have i: "i32 (int ?r * 512) = int (512 * ?r)" "i32 (int ?r + int ((32 * ?e + 511) div 512)) = int (?r + (32 * ?e + 511) div 512)"
  proof -
    show "i32 (int ?r * 512) = int (512 * ?r)" using rb by (subst i32_id) auto
    have "(32 * ?e + 511) div 512 \<le> 32 * ?e + 511" by (rule div_le_dividend)
    then show "i32 (int ?r + int ((32 * ?e + 511) div 512)) = int (?r + (32 * ?e + 511) div 512)"
      using root_sector_bound [of "primary fp"] assms(8) by (subst i32_id) linarith+
  qed
  have cd: "c_div (int ?e * 32) 512 = Some (int (32 * ?e) div 512)" "c_mod (int ?e * 32) 512 = Some (int (32 * ?e) mod 512)"
    using assms(8) by (subst c_div_pos c_mod_pos; simp add: mult.commute)+
  have m: "int ?e * 32 = int (32 * ?e)" by simp
  have end_pos: "i32 (int ?r + (if int (32 * ?e) mod 512 \<noteq> 0 then int (32 * ?e) div 512 + 1 else int (32 * ?e) div 512)) =
      fd_ending_sector_pos (loaded_root img (primary fp) dir)"
    using ceil_sectors [of ?e] i(2) by (auto simp: loaded_root_def split: if_splits)
  have "fat16_get_root_directory P DISK priv s = Some (0, ?t)"
    using get_root_directory_step [of s priv fp "int ?e" "int ?r" "int (32 * ?e) div 512" "int (32 * ?e) mod 512" P
        "int ?u" s2 dir ?s3 fp ?s4 "slice img (512 * ?r) (32 * ?e)" ?s5 fp,
        OF _ ue root_sector_int _ _ cnt]
    unfolding m assms(3) fat16_sector_to_absolute_def i(1) end_pos
    using cd [unfolded m] k(1,2) [folded kzalloc_item_array [OF assms(8)]] p2 nd ds d(1) diskstreamer_seek_ok [OF st3] assms(5)
    by (simp add: deref loaded_root_def)
  moreover have io5: "io_only ?s3 ?s5" by (rule io_only_moved [OF st3])
  have "evolved s {priv, dir} ?t"
    by (rule evolved_mono [OF evolved_trans [OF evolved_trans [OF evolved_trans [OF evolved_trans [OF
        io_only_evolved [OF io2] grown_evolved [OF grown_zalloc [OF k(6), of dir ?z]]] io_only_evolved [OF io5]]
        grown_evolved [OF grown_store [of _ dir ?it]]] grown_evolved [OF grown_store [of _ priv ?p]]]]) auto
  moreover have "heap_ok ?t (with_blocks B {dir})"
  proof -
    have "B(dir \<mapsto> 1) = with_blocks B {dir}" by (auto simp: with_blocks_def)
    then have "heap_ok ?s5 (with_blocks B {dir})" using io_only_heap_ok [OF io5 k(5)] by simp
    then have "heap_ok (store dir ?it ?s5) (with_blocks B {dir})" by (rule heap_ok_store) (use nd in simp)
    then show ?thesis by (rule heap_ok_store) (use p2 nd ds in simp)
  qed
  moreover have "disk_ready P img cap idle ?t" using r4 d(2) by (simp add: disk_ready_def)
  moreover have "ks_disk ?t = ks_disk s" using io_only_simps [OF io2] by simp
  ultimately show ?thesis using k(2,4) nd by (intro exI [of _ dir] exI [of _ ?t]) simp
qed

lemma get_root_directory_null:
  assumes "disk_ready P img cap idle s" "heap_ok s B" "dk_sector_size (ks_disk s) = 512"
    "dk_fs_private (ks_disk s) = priv" "ks_objs s priv = Some (OPrivate fp)" "stream_at s (fp_directory_stream fp)"
    "0 < root_entries (primary fp)" "root_entries (primary fp) \<le> 128"
    "512 * root_sector (primary fp) + 32 * root_entries (primary fp) \<le> 512 * cap" "cap < 4194304" "free_count (ks_heap s) = 0"
  obtains t where "fat16_get_root_directory P DISK priv s = Some (- ENOMEM, t)" "io_only s t" "disk_ready P img cap idle t"
proof -
  let ?r = "root_sector (primary fp)" and ?e = "root_entries (primary fp)"
  obtain t where t: "fat16_get_total_items_for_directory P DISK (word_of_int (int ?r)) (int ?e) s =
      Some (int (entries_used img (512 * ?r) ?e), t)" "io_only s t" "disk_ready P img cap idle t"
    by (rule root_count_ok [OF assms(1,3-7,9,10)])
  have sz: "0 < unat (word_of_int (int (32 * ?e)) :: u32)" "unat (word_of_int (int (32 * ?e)) :: u32) \<le> 4096"
    using assms(7,8) by (subst unat_of_int_small; simp)+
  have k: "zalloc (word_of_int (int (32 * ?e))) (OItems (replicate ?e zero_item)) t = Some (0, t)"
    by (rule zalloc_one_cases [OF io_only_heap_ok [OF t(2) assms(2)] sz, of "OItems (replicate ?e zero_item)"])
      (use assms(11) io_only_simps [OF t(2)] in auto)
  have ue: "uint (fh_root_dir_entries (primary fp)) = int ?e" by (simp only: root_entries_def uint_nat)
  have cd: "c_div (int ?e * 32) 512 = Some (int (32 * ?e) div 512)" "c_mod (int ?e * 32) 512 = Some (int (32 * ?e) mod 512)"
    using assms(8) by (subst c_div_pos c_mod_pos; simp add: mult.commute)+
  have m: "int ?e * 32 = int (32 * ?e)" by simp
  have p: "obj_private s priv = Some fp" using assms(5) by (simp add: deref)
  have "fat16_get_root_directory P DISK priv s = Some (- ENOMEM, t)"
    unfolding fat16_get_root_directory_def Let_def disk_of_def
    by (simp only: refl if_True Option.bind.simps p ue root_sector_int assms(3) cd [unfolded m] m t(1) case_prod_conv)
      (use k [folded kzalloc_item_array [OF assms(8)]] in \<open>simp add: root_directory_out_def\<close>)
  then show thesis using t(2,3) by (rule that)
qed

lemma close_if_block:
  assumes "heap_ok s (with_blocks B X)" "B p = None" "p \<noteq> 0"
  obtains h where "close_if p s = Some (released p h s)" "heap_ok (released p h s) (with_blocks B (X - {p}))"
    "grown s {p} (released p h s)"
  using assms by (auto simp: close_if_def diskstreamer_close_def elim: kfree_block)

lemma free_private_ok:
  assumes "heap_ok s (with_blocks B {priv, a, b, c})" "distinct [0, priv, a, b, c]"
    "B priv = None" "B a = None" "B b = None" "B c = None" "ks_objs s priv = Some (OPrivate fp)"
    "fd_item (fp_root_directory fp) = 0" "fp_cluster_read_stream fp = a" "fp_fat_read_stream fp = b"
    "fp_directory_stream fp = c"
  shows "\<exists>t. fat16_free_private priv s = Some t \<and> heap_ok t B \<and> grown s {priv, a, b, c} t"
proof -
  obtain h1 where 1: "close_if a s = Some (released a h1 s)" "heap_ok (released a h1 s) (with_blocks B ({priv, a, b, c} - {a}))"
    "grown s {a} (released a h1 s)"
    by (rule close_if_block [OF assms(1,4)]) (use assms(2) in auto)
  let ?s1 = "released a h1 s"
  obtain h2 where 2: "close_if b ?s1 = Some (released b h2 ?s1)"
    "heap_ok (released b h2 ?s1) (with_blocks B ({priv, a, b, c} - {a} - {b}))" "grown ?s1 {b} (released b h2 ?s1)"
    by (rule close_if_block [OF 1(2) assms(5)]) (use assms(2) in auto)
  let ?s2 = "released b h2 ?s1"
  obtain h3 where 3: "close_if c ?s2 = Some (released c h3 ?s2)"
    "heap_ok (released c h3 ?s2) (with_blocks B ({priv, a, b, c} - {a} - {b} - {c}))" "grown ?s2 {c} (released c h3 ?s2)"
    by (rule close_if_block [OF 2(2) assms(6)]) (use assms(2) in auto)
  let ?s3 = "released c h3 ?s2"
  obtain h4 where 4: "kfree priv ?s3 = Some (released priv h4 ?s3)"
    "heap_ok (released priv h4 ?s3) (with_blocks B ({priv, a, b, c} - {a} - {b} - {c} - {priv}))"
    "grown ?s3 {priv} (released priv h4 ?s3)"
    by (rule kfree_block [OF 3(2) assms(3)])
  have e: "{priv, a, b, c} - {a} - {b} - {c} - {priv} = {}" by auto
  have "fat16_free_private priv s = Some (released priv h4 ?s3)"
    using assms(2,7-11) 1(1) 2(1) 3(1) 4(1)
    by (simp add: fat16_free_private_def fat16_free_root_directory_def deref)
  moreover have "grown s {priv, a, b, c} (released priv h4 ?s3)"
    by (rule grown_mono [OF grown_trans [OF grown_trans [OF grown_trans [OF 1(3) 2(3)] 3(3)] 4(3)]]) auto
  ultimately show ?thesis using 4(2) unfolding e by auto
qed

text \<open>
  The part of \<open>fat16_resolve\<close> up to the signature check: private data, streams, binding, and
  the header read through a stream of its own. \<open>resolving\<close> is where it leads.
\<close>

definition resolving ::
  "'d ports \<Rightarrow> (nat \<Rightarrow> u8) \<Rightarrow> nat \<Rightarrow> ('d \<Rightarrow> bool) \<Rightarrow> (u32 \<Rightarrow> nat option) \<Rightarrow> 'd kst \<Rightarrow> fat_h \<Rightarrow> u32 \<Rightarrow> u32 \<Rightarrow> u32 \<Rightarrow> u32 \<Rightarrow> u32 \<Rightarrow>
   fat_private \<Rightarrow> 'd kst \<Rightarrow> bool" where
  "resolving P img cap idle B s hdr priv a b c x fp t \<longleftrightarrow> distinct [0, priv, a, b, c, x] \<and>
     (\<forall>p \<in> {priv, a, b, c, x}. B p = None) \<and>
     fp = zero_private\<lparr>fp_cluster_read_stream := a, fp_fat_read_stream := b, fp_directory_stream := c, fp_header := hdr\<rparr> \<and>
     ks_objs t priv = Some (OPrivate fp) \<and> (\<forall>p \<in> {a, b, c, x}. stream_at t p) \<and>
     heap_ok t (with_blocks B {priv, a, b, c, x}) \<and> evolved s {priv, a, b, c, x} t \<and> disk_ready P img cap idle t \<and>
     ks_disk t = (ks_disk s)\<lparr>dk_fs_private := priv, dk_filesystem := FAT16_FS\<rparr>"

definition after_header :: "'d ports \<Rightarrow> fat_h \<Rightarrow> u32 \<Rightarrow> u32 \<Rightarrow> 'd kst \<Rightarrow> (int \<times> 'd kst) option" where
  "after_header P hdr x priv s =
     (if fx_signature (fh_extended hdr) \<noteq> SAMOS_FAT16_SIGNATURE then resolve_out DISK (- EFSNOTUS) x priv s
      else do { (res, s1) \<leftarrow> fat16_get_root_directory P DISK priv s;
                resolve_out DISK (if res \<noteq> SAMOS_ALL_OK then - EIO else 0) x priv s1 })"

lemma resolvingD:
  assumes "resolving P img cap idle B s hdr priv a b c x fp t"
  shows "distinct [0, priv, a, b, c, x]" "B priv = None" "B a = None" "B b = None" "B c = None" "B x = None"
    "ks_objs t priv = Some (OPrivate fp)" "stream_at t a" "stream_at t b" "stream_at t c"
    "heap_ok t (with_blocks B {priv, a, b, c, x})" "evolved s {priv, a, b, c, x} t" "disk_ready P img cap idle t"
    "ks_disk t = (ks_disk s)\<lparr>dk_fs_private := priv, dk_filesystem := FAT16_FS\<rparr>"
    "fp_header fp = hdr" "fd_item (fp_root_directory fp) = 0" "fp_cluster_read_stream fp = a" "fp_fat_read_stream fp = b"
    "fp_directory_stream fp = c"
  using assms unfolding resolving_def by (simp_all add: zero_private_def zero_directory_def)

lemma resolve_header:
  assumes "heap_ok s B" "disk_ready P img cap idle s" "dk_id (ks_disk s) \<le> 0" "hdr = decode_header (slice img 0 62)"
    "0 < cap" "5 \<le> free_count (ks_heap s)"
  obtains priv a b c x fp t where "resolving P img cap idle B s hdr priv a b c x fp t"
    "free_count (ks_heap s) = free_count (ks_heap t) + 5"
    "fat16_resolve P DISK s = after_header P hdr x priv t"
proof -
  let ?z = "OPrivate zero_private"
  obtain priv h where k: "zalloc 92 ?z s = Some (priv, store priv ?z (s\<lparr>ks_heap := h\<rparr>))" "priv \<noteq> 0"
    "B priv = None" "heap_ok (store priv ?z (s\<lparr>ks_heap := h\<rparr>)) (B(priv \<mapsto> 1))" "same_frame (ks_heap s) h"
    "free_count (ks_heap s) = Suc (free_count h)"
    by (rule zalloc_one_block [OF assms(1), of 92 ?z]) (use assms(6) in auto)
  let ?s1 = "store priv ?z (s\<lparr>ks_heap := h\<rparr>)"
  have g1: "grown s {priv} ?s1" by (rule grown_zalloc [OF k(5)])
  have B1: "B(priv \<mapsto> 1) = with_blocks B {priv}" by (auto simp: with_blocks_def)
  obtain a b c s2 where i: "fat16_init_private DISK priv ?s1 = Some s2" "distinct [0, priv, a, b, c]"
    "with_blocks B {priv} a = None" "with_blocks B {priv} b = None" "with_blocks B {priv} c = None"
    "grown ?s1 {priv, a, b, c} s2" "heap_ok s2 (with_blocks (with_blocks B {priv}) {a, b, c})"
    "ks_objs s2 priv = Some (OPrivate (zero_private\<lparr>fp_cluster_read_stream := a, fp_fat_read_stream := b,
       fp_directory_stream := c\<rparr>))"
    "stream_at s2 a" "stream_at s2 b" "stream_at s2 c" "free_count (ks_heap ?s1) = free_count (ks_heap s2) + 3"
    by (rule init_private_ok [OF k(4) [unfolded B1], of priv zero_private]) (use assms(3,6) k(6) in auto)
  let ?d = "(ks_disk s)\<lparr>dk_fs_private := priv, dk_filesystem := FAT16_FS\<rparr>"
  let ?s3 = "s2\<lparr>ks_disk := ?d\<rparr>"
  have r2: "ks_disk s2 = ks_disk s" "ks_dev s2 = ks_dev s" using grown_rest [OF g1] grown_rest [OF i(6)] by simp_all
  have h3: "heap_ok ?s3 (with_blocks (with_blocks B {priv}) {a, b, c})" using i(7) by (simp add: heap_ok_def)
  obtain x s4 where x: "diskstreamer_new (dk_id ?d) ?s3 = Some (x, s4)" "x \<noteq> 0"
    "with_blocks (with_blocks B {priv}) {a, b, c} x = None" "grown ?s3 {x} s4"
    "heap_ok s4 (with_blocks (with_blocks (with_blocks B {priv}) {a, b, c}) {x})"
    "ks_objs s4 x = Some (OStream \<lparr>ds_pos = 0, ds_disk = DISK\<rparr>)" "free_count (ks_heap ?s3) = Suc (free_count (ks_heap s4))"
    by (rule stream_new_ok [OF h3, of "dk_id ?d"]) (use assms(3,6) k(6) i(12) in auto)
  have x': "x \<notin> {priv, a, b, c}" "B x = None" using x(3) by (auto simp: with_blocks_None)
  have o4: "ks_objs s4 q = ks_objs s2 q" if "q \<in> {priv, a, b, c}" for q
    using grown_objs [OF x(4), of q] that x' by auto
  have r4: "disk_ready P img cap idle s4" using assms(2) r2 grown_rest [OF x(4)] by (simp add: disk_ready_def)
  have "\<exists>d. diskstreamer_read P x (int 62) s4 = Some (0, slice img 0 62, moved x (int (0 + 62)) d s4) \<and> idle d"
    by (rule read_within_sector [OF r4]) (use x(6) assms(5) in auto)
  then obtain d where d: "diskstreamer_read P x (int 62) s4 = Some (0, slice img 0 62, moved x 62 d s4)" "idle d" by auto
  let ?s5 = "moved x 62 d s4"
  have sx: "stream_at s4 x" using x(6) by (simp add: stream_at_def)
  let ?fp = "zero_private\<lparr>fp_cluster_read_stream := a, fp_fat_read_stream := b, fp_directory_stream := c,
       fp_header := hdr\<rparr>"
  let ?s6 = "store priv (OPrivate ?fp) ?s5"
  have px: "priv \<noteq> x" using x' by auto
  have "evolved s {priv, a, b, c, x} ?s6"
    by (rule evolved_mono [OF evolved_trans [OF evolved_trans [OF evolved_trans [OF evolved_trans [OF evolved_trans [OF
        grown_evolved [OF g1] grown_evolved [OF i(6)]] evolved_disk [of _ "{}" ?d]] grown_evolved [OF x(4)]]
        io_only_evolved [OF io_only_moved [OF sx]]] grown_evolved [OF grown_store [of _ priv]]]]) auto
  moreover have "heap_ok ?s6 (with_blocks B {priv, a, b, c, x})"
  proof -
    have "with_blocks (with_blocks (with_blocks B {priv}) {a, b, c}) {x} = with_blocks B {priv, a, b, c, x}"
      by (auto simp: with_blocks_def fun_eq_iff)
    then have "heap_ok ?s5 (with_blocks B {priv, a, b, c, x})" using moved_heap_ok [OF x(5) sx] by simp
    then show ?thesis by (rule heap_ok_store) (use o4 [of priv] px i(8) in simp)
  qed
  moreover have "stream_at ?s6 a" "stream_at ?s6 b" "stream_at ?s6 c" "stream_at ?s6 x"
    using o4 [of a] o4 [of b] o4 [of c] i(2,9-11) x' px by (auto simp: stream_at_def)
  moreover have "disk_ready P img cap idle ?s6" using r4 d(2) by (simp add: disk_ready_def)
  moreover have "ks_disk ?s6 = ?d" using grown_rest [OF x(4)] by simp
  moreover have "fat16_resolve P DISK s = after_header P hdr x priv ?s6"
    using k(1,2) i(1,2,8) r2 x(1,2) d(1) o4 [of priv] px
    by (cases "fat16_get_root_directory P DISK priv ?s6") (auto simp: after_header_def fat16_resolve_def disk_of_def deref Let_def assms(4))
  ultimately show thesis
    using i(2-5) x' x(2) k(3,6) i(12) x(7)
    by (intro that [of priv a b c x ?fp ?s6]) (auto simp: with_blocks_None resolving_def)
qed

text \<open>With less memory than that nothing is bound, and with a little the call does not return.\<close>

lemma resolve_null:
  assumes "heap_ok s B" "dk_id (ks_disk s) \<le> 0" "free_count (ks_heap s) < 5"
  shows "fat16_resolve P DISK s = (if free_count (ks_heap s) = 0
    then Some (- ENOMEM, s\<lparr>ks_disk := (ks_disk s)\<lparr>dk_fs_private := 0, dk_filesystem := FS_NULL\<rparr>\<rparr>) else None)"
proof -
  let ?z = "OPrivate zero_private"
  have s92: "0 < unat (92 :: u32)" "unat (92 :: u32) \<le> 4096" by simp_all
  from assms(1) s92 show ?thesis
  proof (cases rule: zalloc_one_cases [of s B 92 ?z])
    case null
    then show ?thesis
      by (simp add: fat16_resolve_def resolve_out_def close_if_def fat16_free_private_def disk_of_def)
  next
    case k: (fresh priv h)
    let ?s1 = "store priv ?z (s\<lparr>ks_heap := h\<rparr>)"
    have d1: "dk_id (ks_disk ?s1) \<le> 0" using assms(2) by simp
    have "fat16_resolve P DISK s = None"
    proof (cases "free_count h < 3")
      case True
      then have "fat16_init_private DISK priv ?s1 = None" by (intro init_private_null [OF k(6) _ d1]) simp_all
      then show ?thesis using k(1,2) by (simp add: fat16_resolve_def)
    next
      case False
      obtain a b c s2 where i: "fat16_init_private DISK priv ?s1 = Some s2" "distinct [0, priv, a, b, c]"
        "grown ?s1 {priv, a, b, c} s2" "heap_ok s2 (with_blocks (with_blocks B {priv}) {a, b, c})"
        "ks_objs s2 priv = Some (OPrivate (zero_private\<lparr>fp_cluster_read_stream := a, fp_fat_read_stream := b,
           fp_directory_stream := c\<rparr>))"
        "free_count (ks_heap ?s1) = free_count (ks_heap s2) + 3"
        by (rule init_private_ok [OF k(6) _ d1]) (use False in auto)
      let ?s3 = "s2\<lparr>ks_disk := (ks_disk s2)\<lparr>dk_fs_private := priv, dk_filesystem := FAT16_FS\<rparr>\<rparr>"
      have "heap_ok ?s3 (with_blocks (with_blocks B {priv}) {a, b, c})" using i(4) by (simp add: heap_ok_def)
      moreover have "dk_id (ks_disk s2) \<le> 0" using grown_rest [OF i(3)] assms(2) by simp
      moreover have "free_count (ks_heap ?s3) = 0" using i(6) k(8) assms(3) by simp
      ultimately have "diskstreamer_new (dk_id (ks_disk s2)) ?s3 = None" by (rule stream_new_null)
      then show ?thesis
        using k(1,2) i(1,2,5) by (simp add: fat16_resolve_def disk_of_def deref Let_def)
    qed
    then show ?thesis using k(8) by simp
  qed
qed

lemma resolve_mounts:
  assumes "heap_ok s B" "disk_ready P img cap idle s" "dk_id (ks_disk s) \<le> 0" "dk_sector_size (ks_disk s) = 512"
    "hdr = decode_header (slice img 0 62)" "fx_signature (fh_extended hdr) = 0x29"
    "0 < root_entries (fh_primary hdr)" "root_entries (fh_primary hdr) \<le> 128"
    "512 * root_sector (fh_primary hdr) + 32 * root_entries (fh_primary hdr) \<le> 512 * cap" "cap < 4194304"
    "fh_sectors_per_cluster (fh_primary hdr) \<noteq> 0" "unat (fh_reserved_sectors (fh_primary hdr)) + 256 \<le> cap"
    "6 \<le> free_count (ks_heap s)"
  shows "\<exists>priv a b c dir t fp. fat16_resolve P DISK s = Some (0, t) \<and>
    fp = \<lparr>fp_header = hdr, fp_root_directory = loaded_root img (fh_primary hdr) dir,
      fp_cluster_read_stream = a, fp_fat_read_stream = b, fp_directory_stream = c\<rparr> \<and>
    mounted P img cap idle fp t \<and> dk_filesystem (ks_disk t) = FAT16_FS \<and> dk_fs_private (ks_disk t) = priv \<and>
    ks_objs t dir = Some (OItems (decode_items (slice img (512 * root_sector (fh_primary hdr)) (32 * root_entries (fh_primary hdr))))) \<and>
    heap_ok t (with_blocks B {priv, a, b, c, dir}) \<and> evolved s {priv, a, b, c, dir} t \<and>
    distinct [0, priv, a, b, c, dir] \<and> (\<forall>p \<in> {priv, a, b, c, dir}. B p = None)"
proof -
  have cap: "0 < cap" "5 \<le> free_count (ks_heap s)" using assms(12,13) by simp_all
  obtain priv a b c x fp s6 where g0: "resolving P img cap idle B s hdr priv a b c x fp s6"
    "free_count (ks_heap s) = free_count (ks_heap s6) + 5"
    "fat16_resolve P DISK s = after_header P hdr x priv s6"
    by (rule resolve_header [OF assms(1-3,5) cap])
  note r = resolvingD [OF g0(1)]
  have fp: "fp = zero_private\<lparr>fp_cluster_read_stream := a, fp_fat_read_stream := b, fp_directory_stream := c, fp_header := hdr\<rparr>"
    using g0(1) by (simp add: resolving_def)
  have "\<exists>dir t. fat16_get_root_directory P DISK priv s6 = Some (0, t) \<and> with_blocks B {priv, a, b, c, x} dir = None \<and>
    dir \<noteq> 0 \<and> evolved s6 {priv, dir} t \<and> disk_ready P img cap idle t \<and>
    heap_ok t (with_blocks (with_blocks B {priv, a, b, c, x}) {dir}) \<and>
    ks_disk t = ks_disk s6 \<and> ks_objs t priv = Some (OPrivate (fp\<lparr>fp_root_directory := loaded_root img (primary fp) dir\<rparr>)) \<and>
    ks_objs t dir = Some (OItems (decode_items (slice img (512 * root_sector (primary fp)) (32 * root_entries (primary fp)))))"
    by (rule get_root_directory_ok [OF r(13,11)]) (use r g0(2) assms in auto)
  then obtain dir s7 where g: "fat16_get_root_directory P DISK priv s6 = Some (0, s7)"
    "with_blocks B {priv, a, b, c, x} dir = None" "dir \<noteq> 0" "evolved s6 {priv, dir} s7" "disk_ready P img cap idle s7"
    "heap_ok s7 (with_blocks (with_blocks B {priv, a, b, c, x}) {dir})" "ks_disk s7 = ks_disk s6"
    "ks_objs s7 priv = Some (OPrivate (fp\<lparr>fp_root_directory := loaded_root img (fh_primary hdr) dir\<rparr>))"
    "ks_objs s7 dir = Some (OItems (decode_items (slice img (512 * root_sector (fh_primary hdr)) (32 * root_entries (fh_primary hdr)))))"
    unfolding r(15) by blast
  have dir: "dir \<notin> {priv, a, b, c, x}" "B dir = None" using g(2) by (auto simp: with_blocks_None)
  have "with_blocks (with_blocks B {priv, a, b, c, x}) {dir} = with_blocks B {priv, a, b, c, x, dir}"
    by (auto simp: with_blocks_def fun_eq_iff)
  with g(6) have h7: "heap_ok s7 (with_blocks B {priv, a, b, c, x, dir})" by simp
  have x0: "x \<noteq> 0" using r(1) by auto
  obtain h where f: "close_if x s7 = Some (released x h s7)"
    "heap_ok (released x h s7) (with_blocks B ({priv, a, b, c, x, dir} - {x}))" "grown s7 {x} (released x h s7)"
    by (rule close_if_block [OF h7 r(6) x0])
  let ?t = "released x h s7"
  have sets: "{priv, a, b, c, x, dir} - {x} = {priv, a, b, c, dir}" using r(1) dir by auto
  have st: "stream_at s7 a" "stream_at s7 b" "stream_at s7 c"
    using evolved_stream [OF g(4)] r(1,8-10) dir by auto
  have str: "stream_at ?t a" "stream_at ?t b" "stream_at ?t c" using st r(1) by (auto simp: stream_at_def)
  have ev: "evolved s (insert x {priv, a, b, c, dir}) ?t"
    by (rule evolved_mono [OF evolved_trans [OF evolved_trans [OF r(12) g(4)] grown_evolved [OF f(3)]]]) auto
  have "ks_objs ?t x = ks_objs s x" using heap_ok_None [OF assms(1), of x] r(6) by simp
  from evolved_shrink [OF ev this] have ev': "evolved s {priv, a, b, c, dir} ?t" .
  let ?fp = "fp\<lparr>fp_root_directory := loaded_root img (fh_primary hdr) dir\<rparr>"
  have res: "fat16_resolve P DISK s = Some (0, ?t)"
    using g0(3) g(1) f(1) assms(6) by (simp add: resolve_out_def after_header_def)
  have spc: "0 < spc ?fp" using assms(11) r(15) by (simp add: spc_def unat_gt_0)
  have "mounted P img cap idle ?fp ?t"
    unfolding mounted_def
    using g(5,7,8) r(1,14-19) str assms(4,10,12) spc dir
    by (auto simp: disk_ready_def reserved_def loaded_root_def)
  moreover have "?fp = \<lparr>fp_header = hdr, fp_root_directory = loaded_root img (fh_primary hdr) dir,
      fp_cluster_read_stream = a, fp_fat_read_stream = b, fp_directory_stream = c\<rparr>"
    by (simp add: fp)
  moreover have "ks_disk ?t = (ks_disk s)\<lparr>dk_fs_private := priv, dk_filesystem := FAT16_FS\<rparr>" using g(7) r(14) by simp
  moreover have "ks_objs ?t dir = ks_objs s7 dir" using dir by auto
  ultimately show ?thesis
    using res f(2) ev' g(3,9) r(1-5) dir unfolding sets
    by (intro exI [of _ priv] exI [of _ a] exI [of _ b] exI [of _ c] exI [of _ dir] exI [of _ ?t] exI [of _ ?fp]) auto
qed

text \<open>The label \<open>out\<close> with an error: everything allocated since the entry is given back.\<close>

lemma resolve_takes_back:
  assumes "heap_ok s B" "resolving P img cap idle B s hdr priv a b c x fp s6" "io_only s6 s7" "disk_ready P img cap idle s7"
    "e < 0"
  shows "\<exists>t. resolve_out DISK e x priv s7 = Some (e, t) \<and> heap_ok t B \<and> ks_heap t = ks_heap s \<and> evolved s {} t \<and>
    disk_ready P img cap idle t \<and> ks_disk t = (ks_disk s)\<lparr>dk_fs_private := 0, dk_filesystem := FS_NULL\<rparr>"
proof -
  note r = resolvingD [OF assms(2)]
  have h7: "heap_ok s7 (with_blocks B {priv, a, b, c, x})" by (rule io_only_heap_ok [OF assms(3) r(11)])
  have p7: "ks_objs s7 priv = Some (OPrivate fp)" by (rule io_only_objs [OF assms(3) r(7)]) simp
  have x0: "x \<noteq> 0" using r(1) by auto
  obtain h where f: "close_if x s7 = Some (released x h s7)"
    "heap_ok (released x h s7) (with_blocks B ({priv, a, b, c, x} - {x}))" "grown s7 {x} (released x h s7)"
    by (rule close_if_block [OF h7 r(6) x0])
  have sets: "{priv, a, b, c, x} - {x} = {priv, a, b, c}" using r(1) by auto
  have "ks_objs (released x h s7) priv = Some (OPrivate fp)" using r(1) p7 by auto
  then obtain t where t: "fat16_free_private priv (released x h s7) = Some t" "heap_ok t B" "grown (released x h s7) {priv, a, b, c} t"
    using free_private_ok [OF f(2) [unfolded sets], of fp] r by auto
  let ?t = "t\<lparr>ks_disk := (ks_disk s)\<lparr>dk_fs_private := 0, dk_filesystem := FS_NULL\<rparr>\<rparr>"
  have ev: "evolved s {priv, a, b, c, x} t"
    by (rule evolved_mono [OF evolved_trans [OF evolved_trans [OF evolved_trans [OF r(12) io_only_evolved [OF assms(3)]]
        grown_evolved [OF f(3)]] grown_evolved [OF t(3)]]]) auto
  have "ks_objs t p = ks_objs s p" if "p \<in> {priv, a, b, c, x}" for p
    using that r(2-6) heap_ok_None [OF assms(1), of p] heap_ok_None [OF t(2), of p] by auto
  then have "evolved s {} t" using ev by (auto simp: evolved_def)
  then have "evolved s {} ?t" by (auto simp: evolved_def stream_at_def)
  moreover have "ks_heap t = ks_heap s" by (rule heap_ok_unique [OF assms(1) t(2) evolved_frame [OF ev]])
  moreover have "disk_ready P img cap idle ?t" using assms(4) grown_rest [OF t(3)] by (simp add: disk_ready_def)
  moreover have "heap_ok ?t B" using t(2) by (simp add: heap_ok_def)
  moreover have "resolve_out DISK e x priv s7 = Some (e, ?t)"
    using assms(5) f(1) t(1) grown_rest [OF t(3)] io_only_simps [OF assms(3)] r(14) by (simp add: resolve_out_def disk_of_def)
  ultimately show ?thesis by auto
qed

lemma resolve_refuses:
  assumes "heap_ok s B" "disk_ready P img cap idle s" "dk_id (ks_disk s) \<le> 0" "0 < cap"
    "fx_signature (fh_extended (decode_header (slice img 0 62))) \<noteq> 0x29" "5 \<le> free_count (ks_heap s)"
  shows "\<exists>t. fat16_resolve P DISK s = Some (- EFSNOTUS, t) \<and> heap_ok t B \<and> ks_heap t = ks_heap s \<and> evolved s {} t \<and>
    disk_ready P img cap idle t \<and> ks_disk t = (ks_disk s)\<lparr>dk_fs_private := 0, dk_filesystem := FS_NULL\<rparr>"
proof -
  define hdr where "hdr = decode_header (slice img 0 62)"
  obtain priv a b c x fp s6 where g0: "resolving P img cap idle B s hdr priv a b c x fp s6"
    "fat16_resolve P DISK s = after_header P hdr x priv s6"
    by (rule resolve_header [OF assms(1-3) hdr_def assms(4,6)])
  have "fat16_resolve P DISK s = resolve_out DISK (- EFSNOTUS) x priv s6" using g0(2) assms(5) by (simp add: hdr_def after_header_def)
  then show ?thesis using resolve_takes_back [OF assms(1) g0(1) io_only_refl g0(1) [THEN resolvingD(13)], of "- EFSNOTUS"] by simp
qed

section \<open>Properties\<close>

text \<open>
  On a disk with a FAT16 header, a root directory of at most a block and six free
  blocks, \<open>fat16_resolve\<close> returns 0: the disk is bound to FAT16, the volume is mounted with
  the header's geometry, the root directory holds the decoded entries of the disk and
  counts those before the first blank one; exactly five allocations remain, and no object
  that existed before changed, up to stream positions.
\<close>

theorem fat16_resolve_mounts:
  assumes "heap_ok s B" "disk_ready P img cap idle s" "dk_id (ks_disk s) \<le> 0" "dk_sector_size (ks_disk s) = 512"
    "hdr = decode_header (slice img 0 62)" "fx_signature (fh_extended hdr) = 0x29"
    "0 < root_entries (fh_primary hdr)" "root_entries (fh_primary hdr) \<le> 128"
    "512 * root_sector (fh_primary hdr) + 32 * root_entries (fh_primary hdr) \<le> 512 * cap" "cap < 4194304"
    "fh_sectors_per_cluster (fh_primary hdr) \<noteq> 0" "unat (fh_reserved_sectors (fh_primary hdr)) + 256 \<le> cap"
    "6 \<le> free_count (ks_heap s)"
  shows "\<exists>priv a b c dir t fp. fat16_resolve P DISK s = Some (0, t) \<and>
    fp = \<lparr>fp_header = hdr, fp_root_directory = loaded_root img (fh_primary hdr) dir,
      fp_cluster_read_stream = a, fp_fat_read_stream = b, fp_directory_stream = c\<rparr> \<and>
    mounted P img cap idle fp t \<and> dk_filesystem (ks_disk t) = FAT16_FS \<and> dk_fs_private (ks_disk t) = priv \<and>
    ks_objs t dir = Some (OItems (decode_items (slice img (512 * root_sector (fh_primary hdr)) (32 * root_entries (fh_primary hdr))))) \<and>
    heap_ok t (with_blocks B {priv, a, b, c, dir}) \<and> evolved s {priv, a, b, c, dir} t \<and>
    distinct [0, priv, a, b, c, dir] \<and> (\<forall>p \<in> {priv, a, b, c, dir}. B p = None)"
  using assms by (rule resolve_mounts)

text \<open>
  C16. On a disk without the FAT16 signature \<open>fat16_resolve\<close> returns \<open>-EFSNOTUS\<close> and takes
  everything back: the heap is the one before the call, every object is as it was, and the
  disk has no filesystem and no private data.
\<close>

theorem fat16_resolve_refuses:
  assumes "heap_ok s B" "disk_ready P img cap idle s" "dk_id (ks_disk s) \<le> 0" "0 < cap"
    "fx_signature (fh_extended (decode_header (slice img 0 62))) \<noteq> 0x29" "5 \<le> free_count (ks_heap s)"
  shows "\<exists>t. fat16_resolve P DISK s = Some (- EFSNOTUS, t) \<and> heap_ok t B \<and> ks_heap t = ks_heap s \<and> evolved s {} t \<and>
    disk_ready P img cap idle t \<and> ks_disk t = (ks_disk s)\<lparr>dk_fs_private := 0, dk_filesystem := FS_NULL\<rparr>"
  using assms by (rule resolve_refuses)

text \<open>
  C15. \<open>fat16_resolve\<close> on a FAT16 disk with too little memory: with no free block it returns
  \<open>-ENOMEM\<close>; with one to four it does not return, because \<open>diskstreamer_new\<close> writes through
  the null pointer \<open>kzalloc\<close> gave it, so the checks for null streams are never reached; with
  five the root directory finds no block and the call returns \<open>-EIO\<close>. Where it returns, heap
  and objects are as before the call and the disk is bound to no filesystem.
\<close>

theorem fat16_resolve_exhausted:
  assumes "heap_ok s B" "disk_ready P img cap idle s" "dk_id (ks_disk s) \<le> 0" "dk_sector_size (ks_disk s) = 512"
    "hdr = decode_header (slice img 0 62)" "fx_signature (fh_extended hdr) = 0x29"
    "0 < root_entries (fh_primary hdr)" "root_entries (fh_primary hdr) \<le> 128"
    "512 * root_sector (fh_primary hdr) + 32 * root_entries (fh_primary hdr) \<le> 512 * cap" "cap < 4194304"
    "n = free_count (ks_heap s)" "n < 6"
  shows "if n \<in> {1..4} then fat16_resolve P DISK s = None
    else \<exists>t. fat16_resolve P DISK s = Some (if n = 0 then - ENOMEM else - EIO, t) \<and> heap_ok t B \<and> ks_heap t = ks_heap s \<and>
      evolved s {} t \<and> disk_ready P img cap idle t \<and> ks_disk t = (ks_disk s)\<lparr>dk_fs_private := 0, dk_filesystem := FS_NULL\<rparr>"
proof (cases "n < 5")
  case True
  let ?t = "s\<lparr>ks_disk := (ks_disk s)\<lparr>dk_fs_private := 0, dk_filesystem := FS_NULL\<rparr>\<rparr>"
  have "heap_ok ?t B" "evolved s {} ?t" "disk_ready P img cap idle ?t"
    using assms(1,2) by (auto simp: heap_ok_def evolved_def stream_at_def disk_ready_def)
  then show ?thesis
    using resolve_null [OF assms(1,3), of P] True assms(11) by auto
next
  case False
  then have n: "n = 5" using assms(12) by simp
  have cap: "0 < cap" "5 \<le> free_count (ks_heap s)" using assms(7,9,11) n by simp_all
  obtain priv a b c x fp s6 where r: "resolving P img cap idle B s hdr priv a b c x fp s6"
    "free_count (ks_heap s) = free_count (ks_heap s6) + 5"
    "fat16_resolve P DISK s = after_header P hdr x priv s6"
    by (rule resolve_header [OF assms(1-3,5) cap])
  note d = resolvingD [OF r(1)]
  obtain s7 where g: "fat16_get_root_directory P DISK priv s6 = Some (- ENOMEM, s7)" "io_only s6 s7" "disk_ready P img cap idle s7"
    by (rule get_root_directory_null [OF d(13,11), of priv fp]) (use r(2) d assms n in auto)
  show ?thesis using resolve_takes_back [OF assms(1) r(1) g(2,3), of "- EIO"] n r(3) g(1) assms(6) by (simp add: after_header_def)
qed

text \<open>A kernel with an empty heap of 20 blocks and an initialised disk, for the examples.\<close>

definition unmounted_state :: "sim_disk kst" where
  "unmounted_state = (boot_state \<lparr>sim_regs = (\<lambda>_. 0), sim_busy = 0, sim_queue = []\<rparr>)
     \<lparr>ks_heap := fresh_heap 0x01000000 20,
      ks_disk := \<lparr>dk_id = 0, dk_type = 0, dk_sector_size = 512, dk_filesystem = FS_NULL, dk_fs_private = 0\<rparr>\<rparr>"

lemma unmounted_ok: "heap_ok unmounted_state Map.empty" "free_count (ks_heap unmounted_state) = 20"
    "disk_ready (sim_ports img) img 4000 sim_idle unmounted_state" "dk_id (ks_disk unmounted_state) = 0"
    "dk_sector_size (ks_disk unmounted_state) = 512"
  by (simp add: unmounted_state_def heap_ok_def boot_state_def fresh_heap_owns validate_alignment_def)
    (simp_all add: unmounted_state_def boot_state_def free_count_def fresh_heap_def disk_ready_def sim_ata_disk sim_idle_def)

lemma demo_header:
  "fx_signature (fh_extended (decode_header (slice demo_img 0 62))) = 0x29"
  "root_entries (fh_primary (decode_header (slice demo_img 0 62))) = 16"
  "root_sector (fh_primary (decode_header (slice demo_img 0 62))) = 299"
  "fh_sectors_per_cluster (fh_primary (decode_header (slice demo_img 0 62))) = 1"
  "unat (fh_reserved_sectors (fh_primary (decode_header (slice demo_img 0 62)))) = 1"
  by (simp_all add: root_entries_def root_sector_def decode_header_def field16_def le16_def demo_bytes_def)

theorem fat16_resolve_mounts_witness:
  "\<exists>priv a b c dir t fp. fat16_resolve (sim_ports demo_img) DISK unmounted_state = Some (0, t) \<and>
    fp = \<lparr>fp_header = decode_header (slice demo_img 0 62),
      fp_root_directory = loaded_root demo_img (fh_primary (decode_header (slice demo_img 0 62))) dir,
      fp_cluster_read_stream = a, fp_fat_read_stream = b, fp_directory_stream = c\<rparr> \<and>
    mounted (sim_ports demo_img) demo_img 4000 sim_idle fp t \<and> dk_filesystem (ks_disk t) = FAT16_FS \<and>
    dk_fs_private (ks_disk t) = priv \<and>
    ks_objs t dir = Some (OItems (decode_items (slice demo_img (512 * root_sector (fh_primary (decode_header (slice demo_img 0 62))))
      (32 * root_entries (fh_primary (decode_header (slice demo_img 0 62))))))) \<and>
    heap_ok t (with_blocks Map.empty {priv, a, b, c, dir}) \<and> evolved unmounted_state {priv, a, b, c, dir} t \<and>
    distinct [0, priv, a, b, c, dir] \<and> (\<forall>p \<in> {priv, a, b, c, dir}. Map.empty p = (None :: nat option))"
  by (rule fat16_resolve_mounts [OF unmounted_ok(1,3)]) (simp_all add: unmounted_ok demo_header)

text \<open>The same kernel with a heap of three blocks.\<close>

definition small_state :: "sim_disk kst" where
  "small_state = unmounted_state\<lparr>ks_heap := fresh_heap 0x01000000 3\<rparr>"

lemma small_ok: "heap_ok small_state Map.empty" "free_count (ks_heap small_state) = 3"
    "disk_ready (sim_ports img) img 4000 sim_idle small_state" "dk_id (ks_disk small_state) = 0"
    "dk_sector_size (ks_disk small_state) = 512"
  by (simp add: small_state_def unmounted_state_def heap_ok_def boot_state_def fresh_heap_owns validate_alignment_def)
    (simp_all add: small_state_def unmounted_state_def boot_state_def free_count_def fresh_heap_def disk_ready_def sim_ata_disk
      sim_idle_def)

theorem fat16_resolve_exhausted_witness: "fat16_resolve (sim_ports demo_img) DISK small_state = None"
  using fat16_resolve_exhausted [OF small_ok(1,3) _ _ refl, of demo_img 3] by (simp add: small_ok demo_header)

theorem fat16_resolve_refuses_witness:
  "\<exists>t. fat16_resolve (sim_ports (\<lambda>_. 0)) DISK unmounted_state = Some (- EFSNOTUS, t) \<and> heap_ok t Map.empty \<and>
    ks_heap t = ks_heap unmounted_state \<and> evolved unmounted_state {} t \<and>
    disk_ready (sim_ports (\<lambda>_. 0)) (\<lambda>_. 0) 4000 sim_idle t \<and>
    ks_disk t = (ks_disk unmounted_state)\<lparr>dk_fs_private := 0, dk_filesystem := FS_NULL\<rparr>"
  by (rule fat16_resolve_refuses [OF unmounted_ok(1,3)]) (simp_all add: unmounted_ok decode_header_def)

end
