(* ===== verification/Path_Parser.thy ===== *)
theory Path_Parser
  imports Disk_Streamer
begin

text \<open>
  \<open>src/fs/pparser.c\<close>: a path \<open>0:/dir/file\<close> is taken apart into a \<open>path_root\<close> with the
  drive and a linked list of \<open>part_path\<close> structs, each owning a 108-byte string. The
  \<open>const char**\<close> cursor the functions advance is the rest of the path, returned.
\<close>

section \<open>Operations\<close>

definition pathparser_path_valid_format :: "u8 list option \<Rightarrow> bool option" where
  "pathparser_path_valid_format filename = do {
     len \<leftarrow> strnlen filename SAMOS_MAX_PATH;
     if len \<ge> 3 then do {
       bs \<leftarrow> filename;
       c \<leftarrow> at_idx bs 0;
       if isdigit c then do {
         r \<leftarrow> memcmp (Some (drop 1 bs)) (Some [0x3A, 0x2F, 0]) 2;
         Some (r = 0) }
       else Some False }
     else Some False }"

definition pathparser_get_drive_by_path :: "u8 list option \<Rightarrow> (int \<times> u8 list option) option" where
  "pathparser_get_drive_by_path path = do {
     ok \<leftarrow> pathparser_path_valid_format path;
     if \<not> ok then Some (- EBADPATH, path)
     else do {
       bs \<leftarrow> path;
       c \<leftarrow> at_idx bs 0;
       Some (tonumericdigit c, Some (drop 3 bs)) } }"

definition pathparser_create_root :: "int \<Rightarrow> 'd kst \<Rightarrow> (u32 \<times> 'd kst) option" where
  "pathparser_create_root drive_number s = do {
     (path_r, s1) \<leftarrow> kzalloc 8 as_root s;
     r \<leftarrow> obj_root s1 path_r;
     Some (path_r, store path_r (ORoot (r\<lparr>pr_drive_no := drive_number, pr_first := 0\<rparr>)) s1) }"

fun get_path_part_loop :: "u32 \<Rightarrow> nat \<Rightarrow> u8 list \<Rightarrow> 'd kst \<Rightarrow> (nat \<times> u8 list \<times> 'd kst) option" where
  "get_path_part_loop result i [] s = None"
| "get_path_part_loop result i (c # path) s =
     (if c \<noteq> 0x2F \<and> c \<noteq> 0x00 then do {
        bs \<leftarrow> obj_bytes s result;
        bs' \<leftarrow> put_idx bs i c;
        get_path_part_loop result (i + 1) path (store result (OBytes bs') s) }
      else Some (i, c # path, s))"

definition pathparser_get_path_part :: "u8 list \<Rightarrow> 'd kst \<Rightarrow> (u32 \<times> u8 list \<times> 'd kst) option" where
  "pathparser_get_path_part path s = do {
     (result, s1) \<leftarrow> kzalloc (word_of_int SAMOS_MAX_PATH) as_bytes s;
     (i, path1, s2) \<leftarrow> get_path_part_loop result 0 path s1;
     c \<leftarrow> at_idx path1 0;
     let path2 = (if c = 0x2F then drop 1 path1 else path1);
     if i = 0 then do { s3 \<leftarrow> kfree result s2; Some (0, path2, s3) }
     else Some (result, path2, s2) }"

definition pathparser_parser_path_part :: "u32 \<Rightarrow> u8 list \<Rightarrow> 'd kst \<Rightarrow> (u32 \<times> u8 list \<times> 'd kst) option" where
  "pathparser_parser_path_part last_part path s = do {
     (path_part_str, path1, s1) \<leftarrow> pathparser_get_path_part path s;
     if path_part_str = 0 then Some (0, path1, s1)
     else do {
       (part, s2) \<leftarrow> kzalloc 8 as_part s1;
       p \<leftarrow> obj_part s2 part;
       let s3 = store part (OPart (p\<lparr>pp_part := path_part_str, pp_next := 0\<rparr>)) s2;
       if last_part \<noteq> 0 then do {
         l \<leftarrow> obj_part s3 last_part;
         Some (part, path1, store last_part (OPart (l\<lparr>pp_next := part\<rparr>)) s3) }
       else Some (part, path1, s3) } }"

text \<open>The loop \<open>while (part)\<close> of the two free functions.\<close>

partial_function (option) free_parts :: "u32 \<Rightarrow> 'd kst \<Rightarrow> 'd kst option" where
  "free_parts part s =
     (if part = 0 then Some s
      else do {
        p \<leftarrow> obj_part s part;
        s1 \<leftarrow> kfree (pp_part p) s;
        s2 \<leftarrow> kfree part s1;
        free_parts (pp_next p) s2 })"

definition pathparser_free_part :: "u32 \<Rightarrow> 'd kst \<Rightarrow> 'd kst option" where
  "pathparser_free_part part s = free_parts part s"

definition pathparser_free_root :: "u32 \<Rightarrow> 'd kst \<Rightarrow> 'd kst option" where
  "pathparser_free_root root s = do {
     r \<leftarrow> obj_root s root;
     s1 \<leftarrow> free_parts (pr_first r) s;
     kfree root s1 }"

text \<open>A part is only returned when the cursor moved, which is why the parse ends.\<close>

lemma get_path_part_loop_length:
  "get_path_part_loop r i path s = Some (j, path', s') \<Longrightarrow> length path' + j = length path + i"
  by (induction r i path s rule: get_path_part_loop.induct)
    (auto simp: option_bind_Some_iff split: if_splits)

lemma path_part_length:
  "pathparser_parser_path_part l path s = Some (p, path', s') \<Longrightarrow> p \<noteq> 0 \<Longrightarrow> length path' < length path"
  by (auto simp: pathparser_parser_path_part_def pathparser_get_path_part_def option_bind_Some_iff
      at_idx_iff Let_def split: if_splits dest!: get_path_part_loop_length)

function parse_loop :: "u32 \<Rightarrow> u8 list \<Rightarrow> 'd kst \<Rightarrow> 'd kst option" where
  "parse_loop part path s =
     (if part = 0 then Some s
      else do {
        (part', path', s') \<leftarrow> pathparser_parser_path_part part path s;
        parse_loop part' path' s' })"
  by pat_completeness auto
termination
  by (relation "measure (\<lambda>(part, path, s). if part = 0 then 0 else Suc (length path))")
    (auto dest: path_part_length)

declare parse_loop.simps [simp del]

definition pathparser_parse ::
  "u8 list option \<Rightarrow> u8 list option \<Rightarrow> 'd kst \<Rightarrow> (u32 \<times> 'd kst) option" where
  "pathparser_parse path current_directory_path s = do {
     len \<leftarrow> strlen path;
     if len > SAMOS_MAX_PATH then Some (0, s)
     else do {
       (res, temp_path) \<leftarrow> pathparser_get_drive_by_path path;
       if res < 0 then Some (0, s)
       else do {
         (path_r, s1) \<leftarrow> pathparser_create_root res s;
         if path_r = 0 then Some (0, s1)
         else do {
           cursor \<leftarrow> temp_path;
           (first_part, cursor1, s2) \<leftarrow> pathparser_parser_path_part 0 cursor s1;
           if first_part = 0 then Some (0, s2)
           else do {
             r \<leftarrow> obj_root s2 path_r;
             let s3 = store path_r (ORoot (r\<lparr>pr_first := first_part\<rparr>)) s2;
             (part, cursor2, s4) \<leftarrow> pathparser_parser_path_part first_part cursor1 s3;
             s5 \<leftarrow> parse_loop part cursor2 s4;
             Some (path_r, s5) } } } } }"

section \<open>What a path means\<close>

text \<open>The components of the part after the drive, up to the first empty one.\<close>

function path_parts :: "u8 list \<Rightarrow> u8 list list" where
  "path_parts cs =
     (let c = takeWhile (\<lambda>x. x \<noteq> 0x2F) cs in
      if c = [] then [] else c # path_parts (drop (Suc (length c)) cs))"
  by pat_completeness auto
termination
  by (relation "measure length") (auto simp: Let_def takeWhile_eq_Nil_iff neq_Nil_conv)

declare path_parts.simps [simp del]

lemma path_parts_step:
  "path_parts (takeWhile (\<lambda>x. x \<noteq> 0x2F) cs) = path_parts cs" if "\<forall>x \<in> set cs. x \<noteq> 0x2F"
  using that by (simp add: takeWhile_eq_all_conv [THEN iffD2])

text \<open>\<open>parts_at ob p ps cs\<close>: from \<open>p\<close> on, the list of \<open>part_path\<close> structs at the addresses
  \<open>ps\<close> (struct, string) holds the components \<open>cs\<close>.\<close>

fun parts_at :: "(u32 \<Rightarrow> obj option) \<Rightarrow> u32 \<Rightarrow> (u32 \<times> u32) list \<Rightarrow> u8 list list \<Rightarrow> bool" where
  "parts_at ob p [] [] = (p = 0)"
| "parts_at ob p ((q, a) # ps) (c # cs) =
     (p = q \<and> q \<noteq> 0 \<and>
      (\<exists>nx bs. ob q = Some (OPart \<lparr>pp_part = a, pp_next = nx\<rparr>) \<and> ob a = Some (OBytes bs) \<and>
         terminated bs \<and> cstr bs = c \<and> parts_at ob nx ps cs))"
| "parts_at ob p _ _ = False"

fun addrs :: "(u32 \<times> u32) list \<Rightarrow> u32 list" where
  "addrs [] = []"
| "addrs ((q, a) # ps) = q # a # addrs ps"

lemma parts_at_Nil: "parts_at ob p ps [] \<longleftrightarrow> ps = [] \<and> p = 0"
  by (cases ps) auto

lemma parts_at_Cons:
  "parts_at ob p ps (c # cs) \<longleftrightarrow> p \<noteq> 0 \<and> (\<exists>a ps' nx bs. ps = (p, a) # ps' \<and>
     ob p = Some (OPart \<lparr>pp_part = a, pp_next = nx\<rparr>) \<and> ob a = Some (OBytes bs) \<and>
     terminated bs \<and> cstr bs = c \<and> parts_at ob nx ps' cs)"
  by (cases ps) auto

lemma parts_at_cong:
  "parts_at ob p ps cs \<Longrightarrow> \<forall>q \<in> set (addrs ps). ob' q = ob q \<Longrightarrow> parts_at ob' p ps cs"
  by (induction ob p ps cs rule: parts_at.induct) auto

lemma length_addrs: "parts_at ob p ps cs \<Longrightarrow> length (addrs ps) = 2 * length cs"
  by (induction ob p ps cs rule: parts_at.induct) auto

section \<open>One component\<close>

lemma get_path_part_loop_copy:
  assumes "terminated path" "ks_objs s p = Some (OBytes bs)"
    "i + length (takeWhile (\<lambda>x. x \<noteq> 0x2F) (cstr path)) \<le> length bs"
  shows "get_path_part_loop p i path s =
    (let c = takeWhile (\<lambda>x. x \<noteq> 0x2F) (cstr path) in
     Some (i + length c, drop (length c) path,
       store p (OBytes (take i bs @ c @ drop (i + length c) bs)) s))"
  using assms
proof (induction path arbitrary: i bs s)
  case (Cons x path)
  show ?case
  proof (cases "x \<noteq> 0x2F \<and> x \<noteq> 0")
    case True
    let ?s = "store p (OBytes (bs[i := x])) s"
    have "get_path_part_loop p (i + 1) path ?s =
      (let c = takeWhile (\<lambda>x. x \<noteq> 0x2F) (cstr path) in
       Some (i + 1 + length c, drop (length c) path,
         store p (OBytes (take (i + 1) (bs[i := x]) @ c @ drop (i + 1 + length c) (bs[i := x]))) ?s))"
      using True Cons.prems by (intro Cons.IH) simp_all
    with True Cons.prems show ?thesis
      by (simp add: deref buf Let_def take_Suc_conv_app_nth)
  next
    case False
    with Cons.prems(2) show ?thesis by (auto simp: store_same)
  qed
qed simp

lemma get_path_part_loop_overrun:
  assumes "ks_objs s p = Some (OBytes bs)" "i \<le> length bs"
    "i + length (takeWhile (\<lambda>x. x \<noteq> 0x2F) (cstr path)) > length bs"
  shows "get_path_part_loop p i path s = None"
  using assms
proof (induction path arbitrary: i bs s)
  case (Cons x path)
  then have x: "x \<noteq> 0x2F \<and> x \<noteq> 0" by (auto split: if_splits)
  show ?case
  proof (cases "i < length bs")
    case True
    have "get_path_part_loop p (i + 1) path (store p (OBytes (bs[i := x])) s) = None"
      using True x Cons.prems
      by (intro Cons.IH [of _ "bs[i := x]"]) auto
    with True x Cons.prems show ?thesis by (simp add: deref buf)
  next
    case False
    with x Cons.prems(1) show ?thesis by (simp add: deref put_idx_def)
  qed
qed simp

text \<open>The cursor after a component.\<close>

definition after_part :: "u8 list \<Rightarrow> u8 list" where
  "after_part path =
     (let r = drop (length (takeWhile (\<lambda>x. x \<noteq> 0x2F) (cstr path))) path in
      if hd r = 0x2F then drop 1 r else r)"

lemma cstr_after_part:
  "terminated path \<Longrightarrow> terminated (after_part path) \<and>
   cstr (after_part path) = drop (Suc (length (takeWhile (\<lambda>x. x \<noteq> 0x2F) (cstr path)))) (cstr path)"
  by (induction path) (auto simp: after_part_def)

lemma rest_nonempty:
  "terminated path \<Longrightarrow> drop (length (takeWhile (\<lambda>x. x \<noteq> 0x2F) (cstr path))) path \<noteq> []"
  by (induction path) auto

lemma get_path_part_eq:
  assumes "terminated path" "zalloc 108 (OBytes (replicate 108 0)) s = Some (p, s1)"
    "ks_objs s1 p = Some (OBytes (replicate 108 0))"
    "length (takeWhile (\<lambda>x. x \<noteq> 0x2F) (cstr path)) \<le> 108"
  shows "pathparser_get_path_part path s =
    (let c = takeWhile (\<lambda>x. x \<noteq> 0x2F) (cstr path) in
     if c = [] then map_option (\<lambda>t. (0, after_part path, t)) (kfree p s1)
     else Some (p, after_part path, store p (OBytes (c @ replicate (108 - length c) 0)) s1))"
proof -
  let ?c = "takeWhile (\<lambda>x. x \<noteq> 0x2F) (cstr path)"
  have at: "at_idx (drop (length ?c) path) 0 = Some (hd (drop (length ?c) path))"
    by (rule at_idx_0 [OF rest_nonempty [OF assms(1)]])
  have "store p (OBytes (replicate 108 0)) s1 = s1" using assms(3) by (rule store_same)
  then show ?thesis
    using get_path_part_loop_copy [OF assms(1,3), of 0] assms(2,4) at
    unfolding pathparser_get_path_part_def
    by (simp add: Let_def after_part_def map_option_case split: option.split)
qed

abbreviation component :: "u8 list \<Rightarrow> u8 list" where
  "component path \<equiv> takeWhile (\<lambda>x. x \<noteq> 0x2F) (cstr path)"

lemma get_path_part_loop_stop:
  "terminated path \<Longrightarrow> component path = [] \<Longrightarrow> get_path_part_loop p i path s = Some (i, path, s)"
  by (cases path) (auto split: if_splits)

lemma get_path_part_none:
  assumes "heap_ok s B" "terminated path" "component path = []"
  shows "pathparser_get_path_part path s = Some (0, after_part path, s)"
proof -
  obtain p s1 where k: "zalloc 108 (OBytes (replicate 108 0)) s = Some (p, s1)"
    using zalloc_cases [OF assms(1)] by metis
  have "path \<noteq> []" using assms(2) by auto
  then show ?thesis
    using k zalloc_kfree [OF assms(1) k] get_path_part_loop_stop [OF assms(2,3), of p 0 s1] assms(3)
    by (simp add: pathparser_get_path_part_def at_idx_0 after_part_def Let_def)
qed

lemma get_path_part_some:
  assumes "heap_ok s B" "terminated path" "component path \<noteq> []" "length (component path) \<le> 107"
    "0 < free_count (ks_heap s)"
  obtains p t bs where "pathparser_get_path_part path s = Some (p, after_part path, t)" "p \<noteq> 0"
    "grown s {p} t" "B p = None" "heap_ok t (B(p \<mapsto> 1))" "ks_objs t p = Some (OBytes bs)"
    "terminated bs" "cstr bs = component path" "free_count (ks_heap s) = Suc (free_count (ks_heap t))"
proof -
  obtain p h where k: "zalloc 108 (OBytes (replicate 108 0)) s =
      Some (p, store p (OBytes (replicate 108 0)) (s\<lparr>ks_heap := h\<rparr>))" "p \<noteq> 0" "B p = None"
      "heap_ok (store p (OBytes (replicate 108 0)) (s\<lparr>ks_heap := h\<rparr>)) (B(p \<mapsto> 1))"
      "same_frame (ks_heap s) h" "free_count (ks_heap s) = Suc (free_count h)"
    by (rule zalloc_one_block [OF assms(1), of 108 "OBytes (replicate 108 0)"]) (use assms(5) in auto)
  let ?c = "component path"
  let ?bs = "?c @ 0 # replicate (107 - length ?c) 0"
  let ?t = "store p (OBytes ?bs) (s\<lparr>ks_heap := h\<rparr>)"
  have "replicate (108 - length ?c) (0 :: u8) = 0 # replicate (107 - length ?c) 0"
    using assms(4) by (simp add: Suc_diff_le flip: replicate_Suc)
  then have "pathparser_get_path_part path s = Some (p, after_part path, ?t)"
    using get_path_part_eq [OF assms(2) k(1)] assms(3,4) by (simp add: Let_def)
  moreover have "heap_ok ?t (B(p \<mapsto> 1))" using k(4) by (simp add: heap_ok_def)
  moreover have "0 \<notin> set ?c" using cstr_no_nul by (metis set_takeWhileD)
  ultimately show thesis
    using k by (intro that [of p ?t ?bs]) (simp_all add: grown_zalloc terminated_append0 cstr_append0)
qed

lemma path_part_none:
  "heap_ok s B \<Longrightarrow> terminated path \<Longrightarrow> component path = [] \<Longrightarrow>
   pathparser_parser_path_part l path s = Some (0, after_part path, s)"
  by (simp add: pathparser_parser_path_part_def get_path_part_none)

text \<open>A component becomes two allocations, linked behind the last part if there is one.\<close>

lemma path_part_some:
  assumes "heap_ok s B" "terminated path" "component path \<noteq> []" "length (component path) \<le> 107"
    "2 \<le> free_count (ks_heap s)" "l = 0 \<or> ks_objs s l = Some (OPart \<lparr>pp_part = a0, pp_next = nx0\<rparr>)"
  obtains q a t bs where "pathparser_parser_path_part l path s = Some (q, after_part path, t)"
    "q \<noteq> 0" "q \<noteq> a" "B q = None" "B a = None" "grown s (insert q (insert a (if l = 0 then {} else {l}))) t"
    "heap_ok t (with_blocks B {q, a})" "ks_objs t q = Some (OPart \<lparr>pp_part = a, pp_next = 0\<rparr>)"
    "ks_objs t a = Some (OBytes bs)" "terminated bs" "cstr bs = component path"
    "l = 0 \<or> ks_objs t l = Some (OPart \<lparr>pp_part = a0, pp_next = q\<rparr>)"
    "free_count (ks_heap s) = free_count (ks_heap t) + 2"
proof -
  have "0 < free_count (ks_heap s)" using assms(5) by simp
  then obtain a s1 bs where a: "pathparser_get_path_part path s = Some (a, after_part path, s1)" "a \<noteq> 0"
    "grown s {a} s1" "B a = None" "heap_ok s1 (B(a \<mapsto> 1))" "ks_objs s1 a = Some (OBytes bs)"
    "terminated bs" "cstr bs = component path" "free_count (ks_heap s) = Suc (free_count (ks_heap s1))"
    by (rule get_path_part_some [OF assms(1-4)])
  let ?z = "OPart \<lparr>pp_part = 0, pp_next = 0\<rparr>" and ?p = "OPart \<lparr>pp_part = a, pp_next = 0\<rparr>"
  have "0 < free_count (ks_heap s1)" using assms(5) a(9) by simp
  then obtain q h where q: "zalloc 8 ?z s1 = Some (q, store q ?z (s1\<lparr>ks_heap := h\<rparr>))" "q \<noteq> 0"
    "ks_objs s1 q = None" "(B(a \<mapsto> 1)) q = None"
    "heap_ok (store q ?z (s1\<lparr>ks_heap := h\<rparr>)) ((B(a \<mapsto> 1))(q \<mapsto> 1))" "same_frame (ks_heap s1) h"
    "free_count (ks_heap s1) = Suc (free_count h)"
    by (rule zalloc_one_block [OF a(5), of 8 ?z, rotated 2]) auto
  have qa: "q \<noteq> a" "B q = None" using q(4) by (auto split: if_splits)
  let ?s = "store q ?p (s1\<lparr>ks_heap := h\<rparr>)"
  let ?t = "if l = 0 then ?s else store l (OPart \<lparr>pp_part = a0, pp_next = q\<rparr>) ?s"
  have lq: "l \<noteq> 0 \<Longrightarrow> l \<noteq> q \<and> l \<noteq> a \<and> ks_objs s1 l = Some (OPart \<lparr>pp_part = a0, pp_next = nx0\<rparr>)"
  proof -
    assume "l \<noteq> 0"
    then have l: "ks_objs s l = Some (OPart \<lparr>pp_part = a0, pp_next = nx0\<rparr>)" using assms(6) by simp
    moreover have "l \<noteq> a" using l a(4) heap_ok_None [OF assms(1), of a] by auto
    moreover have "ks_objs s1 l = ks_objs s l" using \<open>l \<noteq> a\<close> by (intro grown_objs [OF a(3)]) simp
    moreover have "l \<noteq> q" using calculation q(3) by auto
    ultimately show ?thesis by simp
  qed
  have "pathparser_parser_path_part l path s = Some (q, after_part path, ?t)"
    using a(1,2) q(1) lq by (auto simp: pathparser_parser_path_part_def deref Let_def)
  moreover have g: "grown s {a, q} ?s"
    using grown_trans [OF a(3) grown_zalloc [OF q(6), of q ?p]] by (simp add: insert_commute)
  have "grown s (insert q (insert a (if l = 0 then {} else {l}))) ?t"
    using g grown_trans [OF g grown_store [of _ l]] by (auto simp: insert_commute)
  moreover have "heap_ok ?t (with_blocks B {q, a})"
  proof -
    have "(B(a \<mapsto> 1))(q \<mapsto> 1) = with_blocks B {q, a}" by (auto simp: with_blocks_def)
    then have "heap_ok ?s (with_blocks B {q, a})" using heap_ok_restore [OF q(5)] by metis
    then show ?thesis using lq by (auto intro: heap_ok_store)
  qed
  ultimately show thesis
    using a q qa lq by (intro that [of q ?t a bs]) auto
qed

section \<open>The whole list\<close>

lemma path_parts_component:
  "path_parts (cstr path) = (if component path = [] then [] else component path # path_parts (cstr (after_part path)))"
  if "terminated path"
  using cstr_after_part [OF that] by (subst path_parts.simps) (simp add: Let_def)

lemma parse_loop_builds:
  assumes "heap_ok s B" "l \<noteq> 0" "ks_objs s l = Some (OPart \<lparr>pp_part = a0, pp_next = 0\<rparr>)"
    "terminated path" "path_parts (cstr path) = cs" "\<forall>c \<in> set cs. length c \<le> 107"
    "2 * length cs \<le> free_count (ks_heap s)"
  shows "\<exists>t ps nx. parse_loop l path s = Some t \<and> grown s (insert l (set (addrs ps))) t \<and>
    distinct (addrs ps) \<and> (\<forall>p \<in> set (addrs ps). B p = None) \<and>
    heap_ok t (with_blocks B (set (addrs ps))) \<and>
    ks_objs t l = Some (OPart \<lparr>pp_part = a0, pp_next = nx\<rparr>) \<and> parts_at (ks_objs t) nx ps cs"
  using assms
proof (induction cs arbitrary: s B l a0 path)
  case Nil
  then have "component path = []" by (metis path_parts_component list.distinct(1))
  then have "parse_loop l path s = Some s"
    using path_part_none [OF Nil.prems(1,4)] Nil.prems(2) by (simp add: parse_loop.simps)
  then show ?case
    using Nil.prems by (intro exI [of _ s] exI [of _ "[]"] exI [of _ 0]) (simp add: grown_refl)
next
  case (Cons c cs)
  have c: "component path = c" "c \<noteq> []" "path_parts (cstr (after_part path)) = cs"
    using Cons.prems(5) path_parts_component [OF Cons.prems(4)] by (auto split: if_splits)
  obtain q a s1 bs where st: "pathparser_parser_path_part l path s = Some (q, after_part path, s1)"
    "q \<noteq> 0" "q \<noteq> a" "B q = None" "B a = None" "grown s (insert q (insert a (if l = 0 then {} else {l}))) s1"
    "heap_ok s1 (with_blocks B {q, a})" "ks_objs s1 q = Some (OPart \<lparr>pp_part = a, pp_next = 0\<rparr>)"
    "ks_objs s1 a = Some (OBytes bs)" "terminated bs" "cstr bs = component path"
    "l = 0 \<or> ks_objs s1 l = Some (OPart \<lparr>pp_part = a0, pp_next = q\<rparr>)"
    "free_count (ks_heap s) = free_count (ks_heap s1) + 2"
    by (rule path_part_some [OF Cons.prems(1,4), of l a0 0]) (use Cons.prems c in auto)
  have "\<exists>t ps nx. parse_loop q (after_part path) s1 = Some t \<and> grown s1 (insert q (set (addrs ps))) t \<and>
      distinct (addrs ps) \<and> (\<forall>p \<in> set (addrs ps). with_blocks B {q, a} p = None) \<and>
      heap_ok t (with_blocks (with_blocks B {q, a}) (set (addrs ps))) \<and>
      ks_objs t q = Some (OPart \<lparr>pp_part = a, pp_next = nx\<rparr>) \<and> parts_at (ks_objs t) nx ps cs"
    by (rule Cons.IH [OF st(7,2,8)])
      (use Cons.prems c st(13) cstr_after_part [OF Cons.prems(4)] in auto)
  then obtain t ps nx where t: "parse_loop q (after_part path) s1 = Some t"
    "grown s1 (insert q (set (addrs ps))) t" "distinct (addrs ps)"
    "\<forall>p \<in> set (addrs ps). p \<noteq> q \<and> p \<noteq> a \<and> B p = None"
    "heap_ok t (with_blocks (with_blocks B {q, a}) (set (addrs ps)))"
    "ks_objs t q = Some (OPart \<lparr>pp_part = a, pp_next = nx\<rparr>)" "parts_at (ks_objs t) nx ps cs"
    by (auto simp: with_blocks_None)
  have l: "B l \<noteq> None" using Cons.prems(1,3) heap_ok_None by (metis option.distinct(1))
  then have "l \<notin> insert q (set (addrs ps))" "l \<noteq> a" using st(4,5) t(4) by auto
  then have "ks_objs t l = Some (OPart \<lparr>pp_part = a0, pp_next = q\<rparr>)"
    using st(12) Cons.prems(2) grown_objs [OF t(2), of l] by simp
  moreover have "ks_objs t a = Some (OBytes bs)"
    using st(3,9) t(4) grown_objs [OF t(2), of a] by auto
  moreover have "parse_loop l path s = Some t"
    using Cons.prems(2) st(1) t(1) by (simp add: parse_loop.simps [of l])
  moreover have "grown s (insert l (set (addrs ((q, a) # ps)))) t"
    by (rule grown_mono [OF grown_trans [OF st(6) t(2)]]) (auto split: if_splits)
  moreover have "with_blocks (with_blocks B {q, a}) (set (addrs ps)) = with_blocks B (set (addrs ((q, a) # ps)))"
    by (auto simp: with_blocks_def fun_eq_iff)
  ultimately show ?case
    using t st c by (intro exI [of _ t] exI [of _ "(q, a) # ps"] exI [of _ q]) auto
qed

lemma free_parts_frees:
  assumes "parts_at ob p ps cs" "\<forall>x \<in> set (addrs ps). ks_objs s x = ob x" "heap_ok s (with_blocks B X)"
    "set (addrs ps) \<subseteq> X" "distinct (addrs ps)" "\<forall>x \<in> X. B x = None"
  shows "\<exists>t. free_parts p s = Some t \<and> grown s (set (addrs ps)) t \<and>
    heap_ok t (with_blocks B (X - set (addrs ps)))"
  using assms
proof (induction ob p ps cs arbitrary: s X rule: parts_at.induct)
  case (1 ob p)
  then show ?case by (intro exI [of _ s]) (simp add: free_parts.simps grown_refl)
next
  case (2 ob p q a ps c cs)
  then obtain nx where o: "p = q" "q \<noteq> 0" "ks_objs s q = Some (OPart \<lparr>pp_part = a, pp_next = nx\<rparr>)"
    "parts_at ob nx ps cs"
    by auto
  have B: "B a = None" "B q = None" "a \<noteq> q" "a \<in> X" "q \<in> X" using "2.prems"(4,5,6) by auto
  obtain h1 where 1: "kfree a s = Some (released a h1 s)" "heap_ok (released a h1 s) (with_blocks B (X - {a}))"
    "same_frame (ks_heap s) h1"
    using kfree_ok [OF "2.prems"(3), of a] B(1) by (metis with_blocks_remove)
  let ?s1 = "released a h1 s"
  obtain h2 where 2: "kfree q ?s1 = Some (released q h2 ?s1)"
    "heap_ok (released q h2 ?s1) (with_blocks B (X - {a} - {q}))" "same_frame (ks_heap ?s1) h2"
    using kfree_ok [OF 1(2), of q] B(2) by (metis with_blocks_remove)
  let ?s2 = "released q h2 ?s1"
  have g: "grown s {a, q} ?s2"
    using grown_trans [OF grown_released [OF 1(3), of a] grown_released [OF 2(3), of q]]
    by (simp add: insert_commute)
  have "\<forall>x \<in> set (addrs ps). ks_objs ?s2 x = ob x"
    using "2.prems"(2,5) by (auto simp: released_def)
  then have "\<exists>t. free_parts nx ?s2 = Some t \<and> grown ?s2 (set (addrs ps)) t \<and>
      heap_ok t (with_blocks B (X - {a} - {q} - set (addrs ps)))"
    using 2(2) "2.prems"(4,5,6) by (intro "2.IH" [OF o(4)]) auto
  then obtain t where t: "free_parts nx ?s2 = Some t" "grown ?s2 (set (addrs ps)) t"
    "heap_ok t (with_blocks B (X - {a} - {q} - set (addrs ps)))"
    by blast
  have "free_parts p s = Some t"
    using o 1 2 t(1) B(3) by (subst free_parts.simps) (simp add: deref)
  moreover have "X - {a} - {q} - set (addrs ps) = X - set (addrs ((q, a) # ps))" by auto
  moreover have "grown s (set (addrs ((q, a) # ps))) t"
    by (rule grown_mono [OF grown_trans [OF g t(2)]]) auto
  ultimately show ?case using t(3) by (intro exI [of _ t]) simp
qed simp_all

section \<open>Parsing\<close>

text \<open>Paths with a drive digit, a colon and a slash in front.\<close>

definition drive_path :: "u8 list \<Rightarrow> bool" where
  "drive_path cs \<longleftrightarrow> (\<exists>d body. cs = d # 0x3A # 0x2F # body \<and> isdigit d)"

lemma memcmp_drive:
  "memcmp (Some (x # y # zs)) (Some [0x3A, 0x2F, 0]) 2 =
     Some (if x \<noteq> 0x3A then (if sint x < 58 then -1 else 1) else if y \<noteq> 0x2F then (if sint y < 47 then -1 else 1) else 0)"
  by (simp add: memcmp_def numeral_2_eq_2 buf)

lemma valid_format_iff:
  assumes "terminated bs"
  shows "pathparser_path_valid_format (Some bs) = Some (drive_path (cstr bs))"
proof (cases "3 \<le> length (cstr bs)")
  case True
  then obtain d x y body where c: "cstr bs = d # x # y # body"
    by (metis Suc_le_length_iff numeral_3_eq_3)
  moreover obtain ys where "bs = cstr bs @ 0 # ys" using terminated_split [OF assms] by blast
  ultimately have bs: "bs = d # x # y # body @ 0 # ys" by simp
  have "d \<noteq> 0" using cstr_no_nul [of bs] c by auto
  have "\<exists>n. strnlen (Some bs) 108 = Some n \<and> 3 \<le> n"
    using strlen_eq [OF assms] True by (auto simp: strnlen_def)
  then show ?thesis using \<open>d \<noteq> 0\<close>
    unfolding pathparser_path_valid_format_def
    by (auto simp: bs c [unfolded bs] memcmp_drive at_idx_0 drive_path_def)
next
  case False
  then have "strnlen (Some bs) 108 = Some (int (length (cstr bs)))"
    using strlen_eq [OF assms] by (auto simp: strnlen_def)
  moreover have "\<not> drive_path (cstr bs)" using False by (auto simp: drive_path_def)
  ultimately show ?thesis using False by (simp add: pathparser_path_valid_format_def)
qed

lemma get_drive_eq:
  assumes "terminated bs"
  shows "pathparser_get_drive_by_path (Some bs) =
    Some (if drive_path (cstr bs) then (sint (hd bs) - 48, Some (drop 3 bs)) else (- EBADPATH, Some bs))"
proof -
  have "bs \<noteq> []" using assms by auto
  moreover have "drive_path (cstr bs) \<Longrightarrow> isdigit (hd bs)"
    using calculation by (cases bs) (auto simp: drive_path_def split: if_splits)
  ultimately show ?thesis
    by (simp add: pathparser_get_drive_by_path_def valid_format_iff [OF assms] at_idx_0 tonumericdigit_def)
qed

lemma drive_path_rest:
  assumes "terminated bs" "cstr bs = d # 0x3A # 0x2F # body"
  shows "terminated (drop 3 bs)" "cstr (drop 3 bs) = body" "hd bs = d"
proof -
  obtain ys where "bs = cstr bs @ 0 # ys" using terminated_split [OF assms(1)] by blast
  then have "bs = d # 0x3A # 0x2F # body @ 0 # ys" using assms(2) by simp
  moreover have "0 \<notin> set body" using cstr_no_nul [of bs] assms(2) by simp
  ultimately show "terminated (drop 3 bs)" "cstr (drop 3 bs) = body" "hd bs = d"
    by (auto simp: terminated_append0 cstr_append0)
qed

lemma create_root_ok:
  assumes "heap_ok s B" "0 < free_count (ks_heap s)"
  obtains r t where "pathparser_create_root d s = Some (r, t)" "r \<noteq> 0" "B r = None" "grown s {r} t"
    "heap_ok t (with_blocks B {r})" "ks_objs t r = Some (ORoot \<lparr>pr_drive_no = d, pr_first = 0\<rparr>)"
    "free_count (ks_heap s) = Suc (free_count (ks_heap t))"
proof -
  let ?z = "ORoot \<lparr>pr_drive_no = 0, pr_first = 0\<rparr>" and ?r = "ORoot \<lparr>pr_drive_no = d, pr_first = 0\<rparr>"
  obtain r h where k: "zalloc 8 ?z s = Some (r, store r ?z (s\<lparr>ks_heap := h\<rparr>))" "r \<noteq> 0" "B r = None"
    "heap_ok (store r ?z (s\<lparr>ks_heap := h\<rparr>)) (B(r \<mapsto> 1))" "same_frame (ks_heap s) h"
    "free_count (ks_heap s) = Suc (free_count h)"
    by (rule zalloc_one_block [OF assms(1), of 8 ?z]) (use assms(2) in auto)
  have "B(r \<mapsto> 1) = with_blocks B {r}" by (auto simp: with_blocks_def)
  then have "heap_ok (store r ?r (s\<lparr>ks_heap := h\<rparr>)) (with_blocks B {r})" using heap_ok_restore [OF k(4)] by metis
  then show thesis
    by (rule that [of r "store r ?r (s\<lparr>ks_heap := h\<rparr>)", rotated 4])
      (use k in \<open>auto simp: pathparser_create_root_def deref grown_zalloc\<close>)
qed

lemma path_parts_lengths: "c \<in> set (path_parts cs) \<Longrightarrow> length c \<le> length cs"
proof (induction cs rule: path_parts.induct)
  case (1 cs)
  let ?c = "takeWhile (\<lambda>x. x \<noteq> 0x2F) cs"
  show ?case
  proof (cases "c = ?c")
    case True
    then show ?thesis by (simp add: length_takeWhile_le)
  next
    case False
    then have "?c \<noteq> []" "c \<in> set (path_parts (drop (Suc (length ?c)) cs))"
      using "1.prems" by (subst (asm) path_parts.simps; simp add: Let_def split: if_splits)+
    then have "length c \<le> length (drop (Suc (length ?c)) cs)" using "1.IH" [OF refl] by blast
    then show ?thesis by simp
  qed
qed

lemma parse_list:
  assumes "terminated bs" "cstr bs = d # 0x3A # 0x2F # body" "isdigit d" "length (cstr bs) \<le> 108"
    "pathparser_create_root (sint d - 48) s = Some (r, s1)" "r \<noteq> 0"
    "pathparser_parser_path_part 0 (drop 3 bs) s1 = Some (q, path, s2)" "q \<noteq> 0"
    "ks_objs s2 r = Some (ORoot \<lparr>pr_drive_no = sint d - 48, pr_first = 0\<rparr>)"
  shows "pathparser_parse (Some bs) cwd s =
    map_option (Pair r) (parse_loop q path (store r (ORoot \<lparr>pr_drive_no = sint d - 48, pr_first = q\<rparr>) s2))"
proof -
  let ?s3 = "store r (ORoot \<lparr>pr_drive_no = sint d - 48, pr_first = q\<rparr>) s2"
  have "drive_path (cstr bs)" "hd bs = d" using assms(2,3) drive_path_rest [OF assms(1,2)] by (auto simp: drive_path_def)
  moreover have "strlen (Some bs) = Some (int (length (cstr bs)))" using strlen_eq [OF assms(1)] assms(4) by simp
  moreover have "0 \<le> sint d - 48" using assms(3) by (auto simp: isdigit_def)
  ultimately have "pathparser_parse (Some bs) cwd s =
    do { (part, cursor2, s4) \<leftarrow> pathparser_parser_path_part q path ?s3; s5 \<leftarrow> parse_loop part cursor2 s4; Some (r, s5) }"
    using get_drive_eq [OF assms(1)] assms(4-9) by (simp add: pathparser_parse_def deref Let_def)
  also have "\<dots> = map_option (Pair r) (parse_loop q path ?s3)"
    using assms(8) by (cases "pathparser_parser_path_part q path ?s3")
      (simp_all add: parse_loop.simps [of q] map_option_case split: option.split prod.split)
  finally show ?thesis .
qed

lemma parse_builds:
  assumes "heap_ok s B" "terminated bs" "cstr bs = d # 0x3A # 0x2F # body" "isdigit d"
    "length (cstr bs) \<le> 108" "path_parts body = c # cs" "2 * length (c # cs) + 1 \<le> free_count (ks_heap s)"
  shows "\<exists>r t ps first. pathparser_parse (Some bs) cwd s = Some (r, t) \<and> r \<noteq> 0 \<and> B r = None \<and>
    grown s (insert r (set (addrs ps))) t \<and> distinct (r # addrs ps) \<and> (\<forall>p \<in> set (addrs ps). B p = None) \<and>
    heap_ok t (with_blocks B (insert r (set (addrs ps)))) \<and>
    ks_objs t r = Some (ORoot \<lparr>pr_drive_no = sint d - 48, pr_first = first\<rparr>) \<and>
    parts_at (ks_objs t) first ps (c # cs)"
proof -
  note rest = drive_path_rest [OF assms(2,3)]
  have "0 < free_count (ks_heap s)" using assms(7) by simp
  then obtain r s1 where r: "pathparser_create_root (sint d - 48) s = Some (r, s1)" "r \<noteq> 0" "B r = None"
    "grown s {r} s1" "heap_ok s1 (with_blocks B {r})"
    "ks_objs s1 r = Some (ORoot \<lparr>pr_drive_no = sint d - 48, pr_first = 0\<rparr>)"
    "free_count (ks_heap s) = Suc (free_count (ks_heap s1))"
    by (rule create_root_ok [OF assms(1)])
  have len: "length x \<le> 105" if "x \<in> set (c # cs)" for x
    using path_parts_lengths [of x body] that assms(3,5,6) by simp
  have comp: "component (drop 3 bs) = c" "c \<noteq> []" "path_parts (cstr (after_part (drop 3 bs))) = cs"
    using path_parts_component [OF rest(1)] rest(2) assms(6) by (auto split: if_splits)
  obtain q a s2 b where q: "pathparser_parser_path_part 0 (drop 3 bs) s1 = Some (q, after_part (drop 3 bs), s2)"
    "q \<noteq> 0" "q \<noteq> a" "with_blocks B {r} q = None" "with_blocks B {r} a = None" "grown s1 {q, a} s2"
    "heap_ok s2 (with_blocks (with_blocks B {r}) {q, a})"
    "ks_objs s2 q = Some (OPart \<lparr>pp_part = a, pp_next = 0\<rparr>)"
    "ks_objs s2 a = Some (OBytes b)" "terminated b" "cstr b = component (drop 3 bs)"
    "free_count (ks_heap s1) = free_count (ks_heap s2) + 2"
    by (rule path_part_some [OF r(5) rest(1), of 0]) (use comp len [of c] assms(7) r(7) in auto)
  let ?r = "ORoot \<lparr>pr_drive_no = sint d - 48, pr_first = q\<rparr>"
  let ?s3 = "store r ?r s2"
  have nr: "q \<noteq> r" "a \<noteq> r" using q(4,5) by (auto simp: with_blocks_None)
  have r2: "ks_objs s2 r = Some (ORoot \<lparr>pr_drive_no = sint d - 48, pr_first = 0\<rparr>)"
    using r(6) nr grown_objs [OF q(6), of r] by simp
  have "\<exists>t ps nx. parse_loop q (after_part (drop 3 bs)) ?s3 = Some t \<and>
      grown ?s3 (insert q (set (addrs ps))) t \<and> distinct (addrs ps) \<and>
      (\<forall>p \<in> set (addrs ps). with_blocks (with_blocks B {r}) {q, a} p = None) \<and>
      heap_ok t (with_blocks (with_blocks (with_blocks B {r}) {q, a}) (set (addrs ps))) \<and>
      ks_objs t q = Some (OPart \<lparr>pp_part = a, pp_next = nx\<rparr>) \<and> parts_at (ks_objs t) nx ps cs"
    by (rule parse_loop_builds [OF heap_ok_store [OF q(7)] q(2)])
      (use r2 q nr comp len assms(7) r(7) cstr_after_part [OF rest(1)] in \<open>force+\<close>)
  then obtain t ps nx where t: "parse_loop q (after_part (drop 3 bs)) ?s3 = Some t"
    "grown ?s3 (insert q (set (addrs ps))) t" "distinct (addrs ps)"
    "\<forall>p \<in> set (addrs ps). p \<noteq> q \<and> p \<noteq> a \<and> p \<noteq> r \<and> B p = None"
    "heap_ok t (with_blocks (with_blocks (with_blocks B {r}) {q, a}) (set (addrs ps)))"
    "ks_objs t q = Some (OPart \<lparr>pp_part = a, pp_next = nx\<rparr>)" "parts_at (ks_objs t) nx ps cs"
    by (auto simp: with_blocks_None)
  let ?ps = "(q, a) # ps"
  have "pathparser_parse (Some bs) cwd s = Some (r, t)"
    using parse_list [OF assms(2-5) r(1,2) q(1,2) r2] t(1) by simp
  moreover have "grown s (insert r (set (addrs ?ps))) t"
    by (rule grown_mono [OF grown_trans [OF grown_trans [OF grown_trans [OF r(4) q(6)] grown_store] t(2)]]) auto
  moreover have "heap_ok t (with_blocks B (insert r (set (addrs ?ps))))"
  proof -
    have "with_blocks (with_blocks (with_blocks B {r}) {q, a}) (set (addrs ps)) =
        with_blocks B (insert r (set (addrs ?ps)))"
      by (auto simp: with_blocks_def fun_eq_iff)
    then show ?thesis using t(5) by simp
  qed
  moreover have "ks_objs t r = Some ?r" "ks_objs t a = Some (OBytes b)"
    using grown_objs [OF t(2), of r] grown_objs [OF t(2), of a] t(4) nr q(3,9) by auto
  moreover have "B q = None" "B a = None" using q(4,5) by (simp_all add: with_blocks_None)
  ultimately show ?thesis
    using r t q nr comp by (intro exI [of _ r] exI [of _ t] exI [of _ ?ps] exI [of _ q]) auto
qed

lemma free_root_blocks:
  assumes "ks_objs t r = Some (ORoot \<lparr>pr_drive_no = d, pr_first = first\<rparr>)" "parts_at (ks_objs t) first ps cs"
    "distinct (r # addrs ps)" "\<forall>p \<in> insert r (set (addrs ps)). B p = None"
    "heap_ok t (with_blocks B (insert r (set (addrs ps))))"
  shows "\<exists>u. pathparser_free_root r t = Some u \<and> heap_ok u B \<and> grown t (insert r (set (addrs ps))) u"
proof -
  obtain u where u: "free_parts first t = Some u" "grown t (set (addrs ps)) u"
    "heap_ok u (with_blocks B (insert r (set (addrs ps)) - set (addrs ps)))"
    using free_parts_frees [OF assms(2) _ assms(5)] assms(3,4) by auto
  have "insert r (set (addrs ps)) - set (addrs ps) = {r}" using assms(3) by auto
  with u(3) have "heap_ok u (with_blocks B {r})" by simp
  then obtain h where h: "kfree r u = Some (released r h u)" "heap_ok (released r h u) B" "same_frame (ks_heap u) h"
    using kfree_ok [of u "with_blocks B {r}" r] with_blocks_remove [of B r "{r}"] assms(4) by auto
  have "grown t (insert r (set (addrs ps))) (released r h u)"
    by (rule grown_mono [OF grown_trans [OF u(2) grown_released [OF h(3)]]]) auto
  then show ?thesis using assms(1) u(1) h(1,2) by (simp add: pathparser_free_root_def deref)
qed

lemma free_root_frees:
  assumes "ks_objs t r = Some (ORoot \<lparr>pr_drive_no = d, pr_first = first\<rparr>)" "parts_at (ks_objs t) first ps cs"
    "grown s (insert r (set (addrs ps))) t" "distinct (r # addrs ps)" "\<forall>p \<in> insert r (set (addrs ps)). B p = None"
    "heap_ok s B" "heap_ok t (with_blocks B (insert r (set (addrs ps))))"
  shows "pathparser_free_root r t = Some s"
proof -
  obtain u where u: "pathparser_free_root r t = Some u" "heap_ok u B" "grown t (insert r (set (addrs ps))) u"
    using free_root_blocks [OF assms(1,2,4,5,7)] by blast
  have "grown s (insert r (set (addrs ps))) u" using grown_trans [OF assms(3) u(3)] by simp
  then have "u = s" by (rule grown_back [OF _ assms(6) u(2) assms(5)])
  then show ?thesis using u(1) by simp
qed

lemma parse_no_component:
  assumes "heap_ok s B" "terminated bs" "cstr bs = d # 0x3A # 0x2F # body" "isdigit d"
    "length (cstr bs) \<le> 108" "path_parts body = []" "0 < free_count (ks_heap s)"
  shows "\<exists>r t. pathparser_parse (Some bs) cwd s = Some (0, t) \<and> B r = None \<and> r \<noteq> 0 \<and>
    heap_ok t (with_blocks B {r}) \<and> grown s {r} t"
proof -
  note rest = drive_path_rest [OF assms(2,3)]
  have dp: "drive_path (cstr bs)" using assms(3,4) by (auto simp: drive_path_def)
  obtain r s1 where r: "pathparser_create_root (sint d - 48) s = Some (r, s1)" "r \<noteq> 0" "B r = None"
    "grown s {r} s1" "heap_ok s1 (with_blocks B {r})"
    by (rule create_root_ok [OF assms(1,7)])
  have "component (drop 3 bs) = []"
    using path_parts_component [OF rest(1)] rest(2) assms(6) by (auto split: if_splits)
  then have "pathparser_parser_path_part 0 (drop 3 bs) s1 = Some (0, after_part (drop 3 bs), s1)"
    by (rule path_part_none [OF r(5) rest(1)])
  moreover have "strlen (Some bs) = Some (int (length (cstr bs)))" using strlen_eq [OF assms(2)] assms(5) by simp
  moreover have "0 \<le> sint d - 48" using assms(4) by (auto simp: isdigit_def)
  ultimately have "pathparser_parse (Some bs) cwd s = Some (0, s1)"
    using get_drive_eq [OF assms(2)] dp rest(3) assms(5) r(1,2) by (simp add: pathparser_parse_def)
  with r show ?thesis by blast
qed

lemma path_part_overrun:
  assumes "heap_ok s B" "length (component path) > 108"
  shows "pathparser_parser_path_part l path s = None"
proof -
  have "get_path_part_loop p 0 path s1 = None"
    if "zalloc 108 (OBytes (replicate 108 0)) s = Some (p, s1)" for p s1
    using assms(1)
  proof (cases rule: zalloc_cases [of s B 108 "OBytes (replicate 108 0)"])
    case null
    obtain x xs where "path = x # xs" "x \<noteq> 0x2F" "x \<noteq> 0"
      using assms(2) by (cases path) (auto split: if_splits)
    then show ?thesis using that null heap_ok_null [OF assms(1)] by (simp add: deref)
  next
    case (fresh q h)
    then show ?thesis using that assms(2) by (intro get_path_part_loop_overrun [of _ _ "replicate 108 0"]) auto
  qed
  then show ?thesis
    by (auto simp: pathparser_parser_path_part_def pathparser_get_path_part_def bind_eq_None_conv)
qed

section \<open>Parsing with too little memory\<close>

text \<open>No allocation of the parser is checked: the first one that fails is written through.\<close>

lemma path_part_null:
  assumes "heap_ok s B" "terminated path" "component path \<noteq> []" "length (component path) \<le> 107" "free_count (ks_heap s) < 2"
  shows "pathparser_parser_path_part l path s = None"
proof (cases "free_count (ks_heap s) = 0")
  case True
  have k: "zalloc 108 (OBytes (replicate 108 0)) s = Some (0, s)"
    by (rule zalloc_one_cases [OF assms(1), of 108 "OBytes (replicate 108 0)"]) (use True in auto)
  obtain x xs where "path = x # xs" "x \<noteq> 0x2F" "x \<noteq> 0" using assms(3) by (cases path) (auto split: if_splits)
  then have "get_path_part_loop 0 0 path s = None" using heap_ok_null [OF assms(1)] by (simp add: deref)
  then show ?thesis using k by (simp add: pathparser_parser_path_part_def pathparser_get_path_part_def)
next
  case False
  then have "0 < free_count (ks_heap s)" by simp
  then obtain a s1 where a: "pathparser_get_path_part path s = Some (a, after_part path, s1)" "a \<noteq> 0" "heap_ok s1 (B(a \<mapsto> 1))"
    "free_count (ks_heap s) = Suc (free_count (ks_heap s1))"
    by (rule get_path_part_some [OF assms(1-4)])
  have "zalloc 8 (OPart \<lparr>pp_part = 0, pp_next = 0\<rparr>) s1 = Some (0, s1)"
    by (rule zalloc_one_cases [OF a(3), of 8 "OPart \<lparr>pp_part = 0, pp_next = 0\<rparr>"]) (use a(4) assms(5) in auto)
  then show ?thesis using a(1,2) heap_ok_null [OF a(3)] by (simp add: pathparser_parser_path_part_def deref)
qed

lemma parse_loop_null:
  assumes "heap_ok s B" "l \<noteq> 0" "ks_objs s l = Some (OPart \<lparr>pp_part = a0, pp_next = 0\<rparr>)"
    "terminated path" "path_parts (cstr path) = cs" "\<forall>c \<in> set cs. length c \<le> 107" "free_count (ks_heap s) < 2 * length cs"
  shows "parse_loop l path s = None"
  using assms
proof (induction cs arbitrary: s B l a0 path)
  case (Cons c cs)
  have c: "component path = c" "c \<noteq> []" "path_parts (cstr (after_part path)) = cs"
    using Cons.prems(5) path_parts_component [OF Cons.prems(4)] by (auto split: if_splits)
  show ?case
  proof (cases "free_count (ks_heap s) < 2")
    case True
    then have "pathparser_parser_path_part l path s = None"
      by (intro path_part_null [OF Cons.prems(1,4)]) (use c Cons.prems(6) in auto)
    then show ?thesis using Cons.prems(2) by (simp add: parse_loop.simps [of l])
  next
    case False
    obtain q a s1 where st: "pathparser_parser_path_part l path s = Some (q, after_part path, s1)" "q \<noteq> 0"
      "heap_ok s1 (with_blocks B {q, a})" "ks_objs s1 q = Some (OPart \<lparr>pp_part = a, pp_next = 0\<rparr>)"
      "free_count (ks_heap s) = free_count (ks_heap s1) + 2"
      by (rule path_part_some [OF Cons.prems(1,4), of l a0 0]) (use Cons.prems c False in auto)
    have "parse_loop q (after_part path) s1 = None"
      by (rule Cons.IH [OF st(3,2,4)]) (use Cons.prems c st(5) cstr_after_part [OF Cons.prems(4)] in auto)
    then show ?thesis using Cons.prems(2) st(1) by (simp add: parse_loop.simps [of l])
  qed
qed simp

lemma parse_null:
  assumes "heap_ok s B" "terminated bs" "cstr bs = d # 0x3A # 0x2F # body" "isdigit d"
    "length (cstr bs) \<le> 108" "path_parts body = c # cs" "free_count (ks_heap s) < 2 * length (c # cs) + 1"
  shows "pathparser_parse (Some bs) cwd s = None"
proof -
  note rest = drive_path_rest [OF assms(2,3)]
  have dp: "drive_path (cstr bs)" using assms(3,4) by (auto simp: drive_path_def)
  have start: "strlen (Some bs) = Some (int (length (cstr bs)))" "0 \<le> sint d - 48"
    using strlen_eq [OF assms(2)] assms(4,5) by (auto simp: isdigit_def)
  have len: "length x \<le> 105" if "x \<in> set (c # cs)" for x
    using path_parts_lengths [of x body] that assms(3,5,6) by simp
  have comp: "component (drop 3 bs) = c" "c \<noteq> []" "path_parts (cstr (after_part (drop 3 bs))) = cs"
    using path_parts_component [OF rest(1)] rest(2) assms(6) by (auto split: if_splits)
  show ?thesis
  proof (cases "free_count (ks_heap s) = 0")
    case True
    have "zalloc 8 (ORoot \<lparr>pr_drive_no = 0, pr_first = 0\<rparr>) s = Some (0, s)"
      by (rule zalloc_one_cases [OF assms(1), of 8 "ORoot \<lparr>pr_drive_no = 0, pr_first = 0\<rparr>"]) (use True in auto)
    then have "pathparser_create_root (sint d - 48) s = None"
      using heap_ok_null [OF assms(1)] by (simp add: pathparser_create_root_def deref)
    then show ?thesis using get_drive_eq [OF assms(2)] dp rest(3) assms(5) start by (simp add: pathparser_parse_def)
  next
    case False
    then have "0 < free_count (ks_heap s)" by simp
    then obtain r s1 where r: "pathparser_create_root (sint d - 48) s = Some (r, s1)" "r \<noteq> 0" "heap_ok s1 (with_blocks B {r})"
      "ks_objs s1 r = Some (ORoot \<lparr>pr_drive_no = sint d - 48, pr_first = 0\<rparr>)"
      "free_count (ks_heap s) = Suc (free_count (ks_heap s1))"
      by (rule create_root_ok [OF assms(1)])
    show ?thesis
    proof (cases "free_count (ks_heap s1) < 2")
      case True
      then have "pathparser_parser_path_part 0 (drop 3 bs) s1 = None"
        by (intro path_part_null [OF r(3) rest(1)]) (use comp len [of c] in auto)
      then show ?thesis
        using get_drive_eq [OF assms(2)] dp rest(3) assms(5) r(1,2) start by (simp add: pathparser_parse_def)
    next
      case False
      obtain q a s2 where q: "pathparser_parser_path_part 0 (drop 3 bs) s1 = Some (q, after_part (drop 3 bs), s2)"
        "q \<noteq> 0" "with_blocks B {r} q = None" "with_blocks B {r} a = None" "grown s1 {q, a} s2"
        "heap_ok s2 (with_blocks (with_blocks B {r}) {q, a})" "ks_objs s2 q = Some (OPart \<lparr>pp_part = a, pp_next = 0\<rparr>)"
        "free_count (ks_heap s1) = free_count (ks_heap s2) + 2"
        by (rule path_part_some [OF r(3) rest(1), of 0]) (use comp len [of c] False in auto)
      have nr: "q \<noteq> r" "a \<noteq> r" using q(3,4) by (auto simp: with_blocks_None)
      have r2: "ks_objs s2 r = Some (ORoot \<lparr>pr_drive_no = sint d - 48, pr_first = 0\<rparr>)"
        using r(4) nr grown_objs [OF q(5), of r] by simp
      have "parse_loop q (after_part (drop 3 bs)) (store r (ORoot \<lparr>pr_drive_no = sint d - 48, pr_first = q\<rparr>) s2) = None"
        by (rule parse_loop_null [OF heap_ok_store [OF q(6)] q(2)])
          (use r2 q nr comp len assms(7) r(5) cstr_after_part [OF rest(1)] in \<open>force+\<close>)
      then show ?thesis using parse_list [OF assms(2-5) r(1,2) q(1,2) r2] by simp
    qed
  qed
qed

section \<open>Properties\<close>

text \<open>
  C10. A path \<open>d:/c1/.../ck\<close> of at most 108 characters, with memory for its list, is parsed
  into a new \<open>path_root\<close> that carries the drive number and the list of exactly its
  components, each a terminated string; no object that existed before is touched, the
  heap owns the new allocations and nothing else, and \<open>pathparser_free_root\<close> gives back
  the very state from before the parse.
\<close>

theorem pathparser_parse_correct:
  assumes "heap_ok s B" "terminated bs" "cstr bs = d # 0x3A # 0x2F # body" "isdigit d"
    "length (cstr bs) \<le> 108" "path_parts body \<noteq> []"
    "2 * length (path_parts body) + 1 \<le> free_count (ks_heap s)"
  shows "\<exists>r t ps first. pathparser_parse (Some bs) cwd s = Some (r, t) \<and> r \<noteq> 0 \<and>
    ks_objs t r = Some (ORoot \<lparr>pr_drive_no = sint d - 48, pr_first = first\<rparr>) \<and>
    parts_at (ks_objs t) first ps (path_parts body) \<and>
    heap_ok t (with_blocks B (insert r (set (addrs ps)))) \<and>
    (\<forall>p. ks_objs s p \<noteq> None \<longrightarrow> ks_objs t p = ks_objs s p) \<and>
    pathparser_free_root r t = Some s"
proof -
  obtain c cs where c: "path_parts body = c # cs" using assms(6) by (cases "path_parts body") auto
  obtain r t ps first where t: "pathparser_parse (Some bs) cwd s = Some (r, t)" "r \<noteq> 0" "B r = None"
    "grown s (insert r (set (addrs ps))) t" "distinct (r # addrs ps)" "\<forall>p \<in> set (addrs ps). B p = None"
    "heap_ok t (with_blocks B (insert r (set (addrs ps))))"
    "ks_objs t r = Some (ORoot \<lparr>pr_drive_no = sint d - 48, pr_first = first\<rparr>)"
    "parts_at (ks_objs t) first ps (path_parts body)"
    using parse_builds [OF assms(1-5) c] assms(7) c by metis
  have B: "\<forall>p \<in> insert r (set (addrs ps)). B p = None" using t(3,6) by auto
  have "ks_objs t p = ks_objs s p" if "ks_objs s p \<noteq> None" for p
    by (rule grown_objs [OF t(4)]) (use B that heap_ok_None [OF assms(1), of p] in auto)
  moreover have "pathparser_free_root r t = Some s"
    by (rule free_root_frees [OF t(8,9,4,5) B assms(1) t(7)])
  ultimately show ?thesis using t by blast
qed

text \<open>A kernel with an empty heap of 16 blocks, and the path \<open>0:/a/b\<close>, for the examples.\<close>

definition path_state :: "unit kst" where
  "path_state = (boot_state ())\<lparr>ks_heap := fresh_heap 0x01000000 16\<rparr>"

lemma path_state_ok: "heap_ok path_state Map.empty" "free_count (ks_heap path_state) = 16"
  by (simp add: path_state_def heap_ok_def boot_state_def fresh_heap_owns validate_alignment_def)
    (simp add: path_state_def boot_state_def free_count_def fresh_heap_def)

theorem pathparser_parse_correct_witness:
  "\<exists>r t ps first. pathparser_parse (Some [0x30, 0x3A, 0x2F, 97, 0x2F, 98, 0]) None path_state = Some (r, t) \<and> r \<noteq> 0 \<and>
    ks_objs t r = Some (ORoot \<lparr>pr_drive_no = sint (0x30 :: u8) - 48, pr_first = first\<rparr>) \<and>
    parts_at (ks_objs t) first ps (path_parts [97, 0x2F, 98]) \<and>
    heap_ok t (with_blocks Map.empty (insert r (set (addrs ps)))) \<and>
    (\<forall>p. ks_objs path_state p \<noteq> None \<longrightarrow> ks_objs t p = ks_objs path_state p) \<and>
    pathparser_free_root r t = Some path_state"
  by (rule pathparser_parse_correct [OF path_state_ok(1)])
    (simp_all add: path_state_ok path_parts.simps isdigit_def)

text \<open>
  Every string that is not a digit, a colon and a slash followed by a rest, and every
  path of 109 to 1000 characters, is refused with null, and the state is unchanged.
\<close>

theorem pathparser_parse_rejects:
  assumes "terminated bs"
    "\<not> drive_path (cstr bs) \<or> 108 < length (cstr bs) \<and> length (cstr bs) \<le> 1000"
  shows "pathparser_parse (Some bs) cwd s = Some (0, s)"
  using assms get_drive_eq [OF assms(1)] strlen_eq [OF assms(1)] by (auto simp: pathparser_parse_def)

theorem pathparser_parse_rejects_witness:
  "pathparser_parse (Some [0x30, 0x3A, 97, 0]) None path_state = Some (0, path_state)"
  by (rule pathparser_parse_rejects) (simp_all add: drive_path_def)

text \<open>
  C36. The parser returns exactly when memory is enough: on a valid path of \<open>n\<close> components
  with fewer than \<open>2 n + 1\<close> free blocks it writes through the null pointer of the allocation
  that failed, and with that many it gives back the root of the parsed path.
\<close>

theorem pathparser_parse_returns_iff:
  assumes "heap_ok s B" "terminated bs" "cstr bs = d # 0x3A # 0x2F # body" "isdigit d"
    "length (cstr bs) \<le> 108" "path_parts body \<noteq> []"
  shows "if 2 * length (path_parts body) + 1 \<le> free_count (ks_heap s)
    then \<exists>r t. pathparser_parse (Some bs) cwd s = Some (r, t) \<and> r \<noteq> 0 \<and>
      free_count (ks_heap s) = free_count (ks_heap t) + 2 * length (path_parts body) + 1
    else pathparser_parse (Some bs) cwd s = None"
proof -
  obtain c cs where c: "path_parts body = c # cs" using assms(6) by (cases "path_parts body") auto
  show ?thesis
  proof (cases "2 * length (c # cs) + 1 \<le> free_count (ks_heap s)")
    case True
    obtain r t ps first where t: "pathparser_parse (Some bs) cwd s = Some (r, t)" "r \<noteq> 0" "B r = None"
      "grown s (insert r (set (addrs ps))) t" "distinct (r # addrs ps)" "\<forall>p \<in> set (addrs ps). B p = None"
      "heap_ok t (with_blocks B (insert r (set (addrs ps))))" "parts_at (ks_objs t) first ps (c # cs)"
      using parse_builds [OF assms(1-5) c True] by metis
    have "free_count (ks_heap s) = free_count (ks_heap t) + card (insert r (set (addrs ps)))"
      by (rule free_count_blocks [OF _ assms(1) t(7) grown_frame [OF t(4)]]) (use t(3,6) in auto)
    moreover have "card (insert r (set (addrs ps))) = 2 * length (c # cs) + 1"
      using distinct_card [OF t(5)] length_addrs [OF t(8)] by simp
    ultimately show ?thesis using t(1,2) True c by simp
  next
    case False
    then show ?thesis using parse_null [OF assms(1-5) c] c by simp
  qed
qed

theorem pathparser_parse_returns_iff_witness:
  "pathparser_parse (Some [0x30, 0x3A, 0x2F, 97, 0x2F, 98, 0]) None ((boot_state ())\<lparr>ks_heap := fresh_heap 0x01000000 4\<rparr>) = None"
proof -
  let ?s = "(boot_state ())\<lparr>ks_heap := fresh_heap 0x01000000 4\<rparr>"
  have "heap_ok ?s Map.empty" by (simp add: heap_ok_def boot_state_def fresh_heap_owns validate_alignment_def)
  from pathparser_parse_returns_iff [OF this, of "[0x30, 0x3A, 0x2F, 97, 0x2F, 98, 0]" "0x30" "[97, 0x2F, 98]" None]
  show ?thesis by (simp add: path_parts.simps isdigit_def free_count_def fresh_heap_def)
qed

text \<open>
  A path with a drive and no component, such as \<open>0:/\<close>, is refused with null, but
  the \<open>path_root\<close> made for it stays allocated: the block is lost.
\<close>

theorem pathparser_parse_leaks_root:
  assumes "heap_ok s B" "terminated bs" "cstr bs = d # 0x3A # 0x2F # body" "isdigit d"
    "length (cstr bs) \<le> 108" "path_parts body = []" "0 < free_count (ks_heap s)"
  shows "\<exists>r t. pathparser_parse (Some bs) cwd s = Some (0, t) \<and> B r = None \<and> r \<noteq> 0 \<and>
    heap_ok t (with_blocks B {r}) \<and> grown s {r} t"
  using assms by (rule parse_no_component)

theorem pathparser_parse_leaks_root_witness:
  "\<exists>r t. pathparser_parse (Some [0x30, 0x3A, 0x2F, 0]) None path_state = Some (0, t) \<and>
     Map.empty r = (None :: nat option) \<and> r \<noteq> 0 \<and> heap_ok t (with_blocks Map.empty {r}) \<and> grown path_state {r} t"
  by (rule pathparser_parse_leaks_root [OF path_state_ok(1), where d = "0x30" and body = "[]"])
    (simp_all add: path_state_ok path_parts.simps isdigit_def Let_def)

text \<open>
  C37. A path of more than 1000 characters passes the length check, because \<open>strlen\<close>
  reports \<open>-ENOMEM\<close> for it; if its first component has more than 108 characters, the
  parser writes past the end of the 108-byte buffer.
\<close>

theorem pathparser_parse_long_path_overruns:
  assumes "heap_ok s B" "terminated bs" "cstr bs = d # 0x3A # 0x2F # body" "isdigit d"
    "1000 < length (cstr bs)" "108 < length (takeWhile (\<lambda>x. x \<noteq> 0x2F) body)" "0 < free_count (ks_heap s)"
  shows "pathparser_parse (Some bs) cwd s = None"
proof -
  note rest = drive_path_rest [OF assms(2,3)]
  have dp: "drive_path (cstr bs)" using assms(3,4) by (auto simp: drive_path_def)
  obtain r s1 where r: "pathparser_create_root (sint d - 48) s = Some (r, s1)" "r \<noteq> 0"
    "heap_ok s1 (with_blocks B {r})"
    by (rule create_root_ok [OF assms(1,7)])
  have "pathparser_parser_path_part 0 (drop 3 bs) s1 = None"
    by (rule path_part_overrun [OF r(3)]) (use rest(2) assms(6) in simp)
  moreover have "strlen (Some bs) = Some (- ENOMEM)" using strlen_eq [OF assms(2)] assms(5) by simp
  moreover have "0 \<le> sint d - 48" using assms(4) by (auto simp: isdigit_def)
  ultimately show ?thesis
    using get_drive_eq [OF assms(2)] dp rest(3) r(1,2) by (simp add: pathparser_parse_def)
qed

theorem pathparser_parse_long_path_overruns_witness:
  "pathparser_parse (Some ([0x30, 0x3A, 0x2F] @ replicate 1000 97 @ [0])) None path_state = None"
proof (rule pathparser_parse_long_path_overruns [OF path_state_ok(1)])
  have c: "cstr ([0x30, 0x3A, 0x2F] @ replicate 1000 97 @ [0]) = 0x30 # 0x3A # 0x2F # replicate 1000 97"
    using cstr_append0 [of "[0x30, 0x3A, 0x2F] @ replicate 1000 97" "[]"] by simp
  show "terminated ([0x30, 0x3A, 0x2F] @ replicate 1000 97 @ [0])"
    using terminated_append0 [of "[0x30, 0x3A, 0x2F] @ replicate 1000 97" "[]"] by simp
  show "cstr ([0x30, 0x3A, 0x2F] @ replicate 1000 97 @ [0]) = 0x30 # 0x3A # 0x2F # replicate 1000 97"
    by (rule c)
  show "1000 < length (cstr ([0x30, 0x3A, 0x2F] @ replicate 1000 97 @ [0]))" unfolding c by simp
qed (simp_all add: path_state_ok isdigit_def)

end
