(* ===== verification/Fat16_Directory.thy ===== *)
theory Fat16_Directory
  imports Fat16_Mount Path_Parser
begin

text \<open>
  Directories and the items found in them: \<open>src/fs/fat/fat16.c\<close>, lines 341 to 351 and 496 to
  631. A \<open>fat_item\<close> owns either a copy of a directory item or a loaded directory, which
  in turn owns its array of items.
\<close>

section \<open>Operations\<close>

text \<open>
  \<open>fat16_clone_directory_item\<close>, whose \<open>size\<close> is \<open>sizeof(struct fat_directory_item)\<close> at its
  only call; the copy then is an array of one item.
\<close>

definition fat16_clone_directory_item :: "fat_directory_item \<Rightarrow> 'd kst \<Rightarrow> (u32 \<times> 'd kst) option" where
  "fat16_clone_directory_item it s = do {
     (item_copy, s1) \<leftarrow> kzalloc (word_of_int sizeof_item) as_items s;
     if item_copy = 0 then Some (0, s1)
     else Some (item_copy, store item_copy (OItems [it]) s1) }"

definition fat16_free_directory :: "u32 \<Rightarrow> 'd kst \<Rightarrow> 'd kst option" where
  "fat16_free_directory directory s =
     (if directory = 0 then Some s
      else do {
        fd \<leftarrow> obj_directory s directory;
        s1 \<leftarrow> (if fd_item fd \<noteq> 0 then kfree (fd_item fd) s else Some s);
        kfree directory s1 })"

text \<open>The label \<open>out\<close> of \<open>fat16_load_fat_directory\<close>.\<close>

definition load_directory_out :: "int \<Rightarrow> u32 \<Rightarrow> 'd kst \<Rightarrow> (u32 \<times> 'd kst) option" where
  "load_directory_out res directory s =
     (if res \<noteq> SAMOS_ALL_OK \<and> directory \<noteq> 0
      then do { s' \<leftarrow> fat16_free_directory directory s; Some (0, s') }
      else Some (directory, s))"

definition fat16_load_fat_directory ::
  "'d ports \<Rightarrow> disk_ptr \<Rightarrow> fat_directory_item \<Rightarrow> 'd kst \<Rightarrow> (u32 \<times> 'd kst) option" where
  "fat16_load_fat_directory P dk it s =
     (if di_attribute it AND FAT_FILE_SUBDIRECTORY = 0 then load_directory_out (- EINVARG) 0 s
      else do {
        (directory, s1) \<leftarrow> kzalloc 16 as_directory s;
        if directory = 0 then load_directory_out 0 0 s1
        else do {
          let cluster = fat16_get_first_cluster it;
          (total_items, s2) \<leftarrow> fat16_get_total_items_for_directory_cluster P dk cluster s1;
          if total_items < 0 then load_directory_out total_items directory s2
          else do {
            fd \<leftarrow> obj_directory s2 directory;
            let s3 = store directory (ODirectory (fd\<lparr>fd_total := total_items\<rparr>)) s2;
            let directory_size = to_int (word_of_int total_items * word_of_int sizeof_item);
            if directory_size > 0 then do {
              (items, s4) \<leftarrow> kzalloc (word_of_int directory_size) as_items s3;
              fd4 \<leftarrow> obj_directory s4 directory;
              let s5 = store directory (ODirectory (fd4\<lparr>fd_item := items\<rparr>)) s4;
              if items = 0 then load_directory_out (- ENOMEM) directory s5
              else do {
                (res, bytes, s6) \<leftarrow> fat16_read_internal P dk cluster 0 directory_size s5;
                let s7 = (if res = SAMOS_ALL_OK then store items (OItems (decode_items bytes)) s6 else s6);
                load_directory_out res directory s7 } }
            else load_directory_out 0 directory s3 } } })"

definition fat16_new_fat_item_for_directory_item ::
  "'d ports \<Rightarrow> disk_ptr \<Rightarrow> fat_directory_item \<Rightarrow> 'd kst \<Rightarrow> (u32 \<times> 'd kst) option" where
  "fat16_new_fat_item_for_directory_item P dk it s = do {
     (f_item, s1) \<leftarrow> kzalloc 8 as_fat_item s;
     if f_item = 0 then Some (0, s1)
     else if di_attribute it AND FAT_FILE_SUBDIRECTORY \<noteq> 0 then do {
       (directory, s2) \<leftarrow> fat16_load_fat_directory P dk it s1;
       fi \<leftarrow> obj_fat_item s2 f_item;
       let s3 = store f_item (OFatItem (fi\<lparr>fi_shared := directory\<rparr>)) s2;
       if directory = 0 then do { s4 \<leftarrow> kfree f_item s3; Some (0, s4) }
       else Some (f_item, store f_item (OFatItem (fi\<lparr>fi_shared := directory, fi_type := FAT_ITEM_TYPE_DIRECTORY\<rparr>)) s3) }
     else do {
       fi \<leftarrow> obj_fat_item s1 f_item;
       let s2 = store f_item (OFatItem (fi\<lparr>fi_type := FAT_ITEM_TYPE_FILE\<rparr>)) s1;
       (item_copy, s3) \<leftarrow> fat16_clone_directory_item it s2;
       fi3 \<leftarrow> obj_fat_item s3 f_item;
       let s4 = store f_item (OFatItem (fi3\<lparr>fi_shared := item_copy\<rparr>)) s3;
       if item_copy = 0 then do { s5 \<leftarrow> kfree f_item s4; Some (0, s5) }
       else Some (f_item, s4) } }"

text \<open>The loop of \<open>fat16_find_item_in_directory\<close>; \<open>n\<close> is \<open>directory->total - i\<close>.\<close>

fun find_item_loop ::
  "'d ports \<Rightarrow> disk_ptr \<Rightarrow> fat_directory \<Rightarrow> u32 \<Rightarrow> nat \<Rightarrow> nat \<Rightarrow> 'd kst \<Rightarrow> (u32 \<times> 'd kst) option" where
  "find_item_loop P dk dir name i 0 s = Some (0, s)"
| "find_item_loop P dk dir name i (Suc n) s = do {
     items \<leftarrow> obj_items s (fd_item dir);
     it \<leftarrow> at_idx items i;
     c \<leftarrow> at_idx (di_filename it) 0;
     if c = DIRECTORY_FREE \<or> di_attribute it = FAT_FILE_LONG_NAME \<or> di_attribute it AND FAT_FILE_VOLUME_LABEL \<noteq> 0
     then find_item_loop P dk dir name (i + 1) n s
     else do {
       tmp_filename \<leftarrow> fat16_get_full_relative_filename it (replicate 108 0) SAMOS_MAX_PATH;
       nm \<leftarrow> obj_bytes s name;
       r \<leftarrow> istrncmp tmp_filename nm 108;
       if r = 0 then fat16_new_fat_item_for_directory_item P dk it s
       else find_item_loop P dk dir name (i + 1) n s } }"

definition fat16_find_item_in_directory ::
  "'d ports \<Rightarrow> disk_ptr \<Rightarrow> fat_directory \<Rightarrow> u32 \<Rightarrow> 'd kst \<Rightarrow> (u32 \<times> 'd kst) option" where
  "fat16_find_item_in_directory P dk dir name s = find_item_loop P dk dir name 0 (nat (fd_total dir)) s"

definition fat16_fat_item_free :: "u32 \<Rightarrow> 'd kst \<Rightarrow> 'd kst option" where
  "fat16_fat_item_free item s =
     (if item = 0 then Some s
      else do {
        fi \<leftarrow> obj_fat_item s item;
        s1 \<leftarrow> (if fi_type fi = FAT_ITEM_TYPE_DIRECTORY \<and> fi_shared fi \<noteq> 0 then fat16_free_directory (fi_shared fi) s
              else if fi_shared fi \<noteq> 0 then kfree (fi_shared fi) s
              else Some s);
        kfree item s1 })"

definition fat16_item_free :: "u32 \<Rightarrow> 'd kst \<Rightarrow> 'd kst option" where
  "fat16_item_free item s = fat16_fat_item_free item s"

text \<open>The loop over the further parts of a path.\<close>

partial_function (option) directory_entry_loop ::
  "'d ports \<Rightarrow> disk_ptr \<Rightarrow> u32 \<Rightarrow> u32 \<Rightarrow> 'd kst \<Rightarrow> (u32 \<times> 'd kst) option" where
  "directory_entry_loop P dk current_item next_part s =
     (if next_part = 0 then Some (current_item, s)
      else do {
        fi \<leftarrow> obj_fat_item s current_item;
        if fi_type fi \<noteq> FAT_ITEM_TYPE_DIRECTORY
        then do { s1 \<leftarrow> fat16_item_free current_item s; Some (0, s1) }
        else do {
          dir \<leftarrow> obj_directory s (fi_shared fi);
          pp \<leftarrow> obj_part s next_part;
          (tmp_item, s1) \<leftarrow> fat16_find_item_in_directory P dk dir (pp_part pp) s;
          s2 \<leftarrow> fat16_item_free current_item s1;
          pp2 \<leftarrow> obj_part s2 next_part;
          directory_entry_loop P dk tmp_item (pp_next pp2) s2 } })"

definition fat16_get_directory_entry ::
  "'d ports \<Rightarrow> disk_ptr \<Rightarrow> u32 \<Rightarrow> 'd kst \<Rightarrow> (u32 \<times> 'd kst) option" where
  "fat16_get_directory_entry P dk path s = do {
     d \<leftarrow> disk_of dk s;
     fp \<leftarrow> obj_private s (dk_fs_private d);
     pp \<leftarrow> obj_part s path;
     (root_item, s1) \<leftarrow> fat16_find_item_in_directory P dk (fp_root_directory fp) (pp_part pp) s;
     if root_item = 0 then Some (0, s1)
     else do {
       pp1 \<leftarrow> obj_part s1 path;
       directory_entry_loop P dk root_item (pp_next pp1) s1 } }"

section \<open>Looking for a name\<close>

text \<open>An entry that is in use and carries the name \<open>nm\<close>, up to the case of ASCII letters.\<close>

definition hit :: "u8 list \<Rightarrow> fat_directory_item \<Rightarrow> bool" where
  "hit nm it \<longleftrightarrow> di_filename it ! 0 \<noteq> 0xE5 \<and> di_attribute it \<noteq> 0x0F \<and> di_attribute it AND 0x08 = 0 \<and>
     same_text (item_name it) (take 108 nm)"

lemma item_name_length: "item_shape it \<Longrightarrow> length (item_name it) \<le> 12"
  using length_trim [of "di_filename it"] length_trim [of "di_ext it"] by (simp add: item_name_def item_shape_def)

lemma find_item_loop_eq:
  assumes "ks_objs s (fd_item dir) = Some (OItems items)" "ks_objs s name = Some (OBytes nm)" "terminated nm"
    "\<forall>it \<in> set items. item_shape it" "i + n \<le> length items"
  shows "find_item_loop P dk dir name i n s =
    (case find (hit (cstr nm)) (take n (drop i items)) of None \<Rightarrow> Some (0, s)
     | Some it \<Rightarrow> fat16_new_fat_item_for_directory_item P dk it s)"
  using assms(5)
proof (induction n arbitrary: i)
  case 0
  then show ?case by simp
next
  case (Suc n)
  then have i: "i < length items" by simp
  let ?it = "items ! i"
  have sh: "item_shape ?it" using assms(4) i by simp
  have c: "at_idx (di_filename ?it) 0 = Some (di_filename ?it ! 0)" using sh by (simp add: item_shape_def at_idx_def)
  obtain tmp where tmp: "fat16_get_full_relative_filename ?it (replicate 108 0) 108 = Some tmp"
    "terminated tmp" "cstr tmp = item_name ?it"
    using full_name_spec [OF sh, of 108 "replicate 108 0"] by auto
  have "take 108 (item_name ?it) = item_name ?it" using item_name_length [OF sh] by simp
  then obtain r where r: "istrncmp tmp nm 108 = Some r"
    "r = 0 \<longleftrightarrow> map tolower (item_name ?it) = map tolower (take 108 (cstr nm))"
    using nocase.cmp_zero_iff [OF tmp(2) assms(3), of 108] tmp(3) by (auto simp: istrncmp_def)
  have IH: "find_item_loop P dk dir name (i + 1) n s =
    (case find (hit (cstr nm)) (take n (drop (i + 1) items)) of None \<Rightarrow> Some (0, s)
     | Some it \<Rightarrow> fat16_new_fat_item_for_directory_item P dk it s)"
    using Suc.prems by (intro Suc.IH) simp
  have "take (Suc n) (drop i items) = ?it # take n (drop (i + 1) items)"
    using i by (simp flip: Cons_nth_drop_Suc)
  moreover have "hit (cstr nm) ?it \<longleftrightarrow> di_filename ?it ! 0 \<noteq> 0xE5 \<and> di_attribute ?it \<noteq> 0x0F \<and>
      di_attribute ?it AND 0x08 = 0 \<and> r = 0"
    using r(2) by (simp add: hit_def same_text_tolower)
  ultimately show ?case
    using assms(1,2) i c tmp(1) r(1) IH by (auto simp: deref at_idx_Some)
qed

lemma find_item_eq:
  assumes "fd_total dir = int n" "n \<le> length items" "0 < n \<longrightarrow> ks_objs s (fd_item dir) = Some (OItems items)"
    "ks_objs s name = Some (OBytes nm)" "terminated nm" "\<forall>it \<in> set items. item_shape it"
  shows "fat16_find_item_in_directory P dk dir name s =
    (case find (hit (cstr nm)) (take n items) of None \<Rightarrow> Some (0, s)
     | Some it \<Rightarrow> fat16_new_fat_item_for_directory_item P dk it s)"
proof (cases "n = 0")
  case True
  then show ?thesis using assms(1) by (simp add: fat16_find_item_in_directory_def)
next
  case False
  then show ?thesis
    using find_item_loop_eq [of s dir items name nm 0 n P dk] assms by (simp add: fat16_find_item_in_directory_def)
qed

lemma decode_items_shape: "it \<in> set (decode_items bs) \<Longrightarrow> item_shape it"
proof -
  assume "it \<in> set (decode_items bs)"
  then obtain i where i: "i < length bs div 32" "it = decode_item (take 32 (drop (32 * i) bs))"
    by (auto simp: decode_items_def)
  then have "length (take 32 (drop (32 * i) bs)) = 32" by simp
  then show ?thesis by (simp add: i(2) decode_item_def item_shape_def)
qed

lemma length_decode_items: "length (decode_items bs) = length bs div 32"
  by (simp add: decode_items_def)

section \<open>Items in memory\<close>

text \<open>The directory of an item: its cluster, how many entries it has, and these entries.\<close>

definition dir_cluster :: "fat_directory_item \<Rightarrow> nat" where
  "dir_cluster it = nat (fat16_get_first_cluster it)"

definition dir_count :: "(nat \<Rightarrow> u8) \<Rightarrow> fat_private \<Rightarrow> fat_directory_item \<Rightarrow> nat" where
  "dir_count img fp it = entries_used (contents img fp (dir_cluster it)) 0 129"

definition dir_items :: "(nat \<Rightarrow> u8) \<Rightarrow> fat_private \<Rightarrow> fat_directory_item \<Rightarrow> fat_directory_item list" where
  "dir_items img fp it = decode_items (slice (contents img fp (dir_cluster it)) 0 (32 * dir_count img fp it))"

definition is_dir :: "fat_directory_item \<Rightarrow> bool" where
  "is_dir it \<longleftrightarrow> di_attribute it AND 0x10 \<noteq> 0"

text \<open>A directory the kernel can load with one block: at most 128 entries and a blank one in its chain.\<close>

definition dir_ok :: "(nat \<Rightarrow> u8) \<Rightarrow> fat_private \<Rightarrow> nat \<Rightarrow> fat_directory_item \<Rightarrow> bool" where
  "dir_ok img fp cap it \<longleftrightarrow> 0 \<le> fat16_get_first_cluster it \<and> dir_count img fp it \<le> 128 \<and>
     chain_covers img fp cap (dir_cluster it) (32 * dir_count img fp it + 32)"

lemma entries_used_blank:
  "entries_used img base n < n \<Longrightarrow> img (base + 32 * entries_used img base n) = 0"
proof (induction n arbitrary: base)
  case (Suc n)
  then show ?case using Suc.IH [of "base + 32"] by (auto simp: add.assoc split: if_splits)
qed simp

lemma entries_used_before:
  "j < entries_used img base n \<Longrightarrow> img (base + 32 * j) \<noteq> 0"
proof (induction n arbitrary: base j)
  case (Suc n)
  then show ?case
    using Suc.IH [of "j - 1" "base + 32"] by (cases j) (auto simp: add.assoc split: if_splits)
qed simp

text \<open>\<open>item_at t f it A\<close>: at \<open>f\<close> lies the \<open>fat_item\<close> for \<open>it\<close>; it owns the addresses \<open>A\<close>.\<close>

definition item_at ::
  "(nat \<Rightarrow> u8) \<Rightarrow> fat_private \<Rightarrow> 'd kst \<Rightarrow> u32 \<Rightarrow> fat_directory_item \<Rightarrow> u32 set \<Rightarrow> bool" where
  "item_at img fp t f it A \<longleftrightarrow> (\<exists>p. p \<noteq> 0 \<and> f \<noteq> 0 \<and> f \<noteq> p \<and>
     (if is_dir it
      then \<exists>i. ks_objs t f = Some (OFatItem \<lparr>fi_shared = p, fi_type = 0\<rparr>) \<and>
        ks_objs t p = Some (ODirectory \<lparr>fd_item = i, fd_total = int (dir_count img fp it), fd_sector_pos = 0, fd_ending_sector_pos = 0\<rparr>) \<and>
        (if dir_count img fp it = 0 then i = 0 \<and> A = {f, p}
         else i \<noteq> 0 \<and> i \<noteq> f \<and> i \<noteq> p \<and> A = {f, p, i} \<and> ks_objs t i = Some (OItems (dir_items img fp it)))
      else ks_objs t f = Some (OFatItem \<lparr>fi_shared = p, fi_type = 1\<rparr>) \<and> A = {f, p} \<and>
        ks_objs t p = Some (OItems [it])))"

lemma item_at_cong:
  assumes "item_at img fp s f it A" "\<forall>a \<in> A. ks_objs t a = ks_objs s a"
  shows "item_at img fp t f it A"
proof -
  have "f \<in> A" using assms(1) by (auto simp: item_at_def split: if_splits)
  then have f: "ks_objs t f = ks_objs s f" using assms(2) by blast
  from assms(1) obtain p where p: "p \<noteq> 0" "f \<noteq> 0" "f \<noteq> p" "p \<in> A" and r: "if is_dir it
      then \<exists>i. ks_objs s f = Some (OFatItem \<lparr>fi_shared = p, fi_type = 0\<rparr>) \<and>
        ks_objs s p = Some (ODirectory \<lparr>fd_item = i, fd_total = int (dir_count img fp it), fd_sector_pos = 0, fd_ending_sector_pos = 0\<rparr>) \<and>
        (if dir_count img fp it = 0 then i = 0 \<and> A = {f, p}
         else i \<noteq> 0 \<and> i \<noteq> f \<and> i \<noteq> p \<and> A = {f, p, i} \<and> ks_objs s i = Some (OItems (dir_items img fp it)))
      else ks_objs s f = Some (OFatItem \<lparr>fi_shared = p, fi_type = 1\<rparr>) \<and> A = {f, p} \<and> ks_objs s p = Some (OItems [it])"
    by (auto simp: item_at_def split: if_splits)
  have "ks_objs t p = ks_objs s p" using assms(2) p(4) by blast
  then show ?thesis
    unfolding item_at_def using f p r assms(2) by (intro exI [of _ p]) (auto split: if_splits)
qed

lemma item_at_finite: "item_at img fp s f it A \<Longrightarrow> finite A \<and> card A \<le> 3 \<and> f \<in> A \<and> f \<noteq> 0 \<and> 0 \<notin> A"
  unfolding item_at_def by (auto simp: card_insert_if split: if_splits)

lemma item_at_not_stream:
  "item_at img fp s f it A \<Longrightarrow> a \<in> A \<Longrightarrow> \<exists>x. ks_objs s a = Some x \<and> (\<forall>q. x \<noteq> OStream q) \<and> (\<forall>q. x \<noteq> OPrivate q)"
  unfolding item_at_def by (auto split: if_splits)

lemma item_at_io:
  assumes "item_at img fp s f it A" "io_only s t"
  shows "item_at img fp t f it A"
proof (rule item_at_cong [OF assms(1)], rule ballI)
  fix a assume "a \<in> A"
  then obtain x where "ks_objs s a = Some x" "\<forall>q. x \<noteq> OStream q" using item_at_not_stream [OF assms(1)] by blast
  then show "ks_objs t a = ks_objs s a" using io_only_objs [OF assms(2)] by simp
qed

section \<open>Making and freeing items\<close>

text \<open>A file item is made whole or, when memory runs out, not at all.\<close>

lemma new_file_item:
  assumes "heap_ok s B" "\<not> is_dir it"
  shows "(\<exists>f A t. fat16_new_fat_item_for_directory_item P dk it s = Some (f, t) \<and> item_at img fp t f it A \<and>
      heap_ok t (with_blocks B A) \<and> (\<forall>a \<in> A. B a = None) \<and> grown s A t) \<or>
    (fat16_new_fat_item_for_directory_item P dk it s = Some (0, s) \<and> free_count (ks_heap s) < 2)"
proof -
  let ?z = "OFatItem \<lparr>fi_shared = 0, fi_type = 0\<rparr>" and ?f1 = "OFatItem \<lparr>fi_shared = 0, fi_type = 1\<rparr>"
  have nd: "di_attribute it AND 0x10 = 0" using assms(2) by (simp add: is_dir_def)
  have bl: "blocks_of 8 = 1" "blocks_of 32 = 1" by (simp_all add: blocks_of_def)
  from assms(1) show ?thesis
  proof (cases rule: zalloc_cases [of s B 8 ?z])
    case null
    then have "free_count (ks_heap s) = 0"
      using zalloc_one_block [OF assms(1), of 8 ?z] by fastforce
    then show ?thesis using null by (simp add: fat16_new_fat_item_for_directory_item_def)
  next
    case (fresh f h)
    let ?s1 = "store f ?z (s\<lparr>ks_heap := h\<rparr>)" and ?s2 = "store f ?f1 (s\<lparr>ks_heap := h\<rparr>)"
    have h2: "heap_ok ?s2 (with_blocks B {f})"
    proof -
      have "B(f \<mapsto> blocks_of 8) = with_blocks B {f}" unfolding bl by (auto simp: with_blocks_def)
      then show ?thesis using heap_ok_restore [OF fresh(6)] by metis
    qed
    have g2: "grown s {f} ?s2" using grown_zalloc [OF fresh(7)] .
    show ?thesis using h2
    proof (cases rule: zalloc_cases [of ?s2 "with_blocks B {f}" 32 "OItems [zero_item]"])
      case null
      obtain h' where h': "kfree f ?s2 = Some (released f h' ?s2)" "heap_ok (released f h' ?s2) (with_blocks B ({f} - {f}))"
        "grown ?s2 {f} (released f h' ?s2)"
        using kfree_block [OF h2 fresh(5)] by metis
      have "released f h' ?s2 = s"
        using grown_back [OF grown_trans [OF g2 h'(3)] assms(1), of] h'(2) fresh(5) by simp
      moreover have "free_count h = 0"
        using null zalloc_one_block [OF h2, of 32 "OItems [zero_item]"] by fastforce
      then have "free_count (ks_heap s) < 2"
        using free_count_blocks [OF _ assms(1) h2 grown_frame [OF g2]] fresh(5) by simp
      ultimately show ?thesis
        using fresh(1,2) null h'(1) nd
        by (simp add: fat16_new_fat_item_for_directory_item_def fat16_clone_directory_item_def deref Let_def store_same)
    next
      case c: (fresh c h')
      have cf: "c \<noteq> f" "B c = None" using c(5) by (auto simp: with_blocks_None)
      let ?s3 = "store c (OItems [it]) (?s2\<lparr>ks_heap := h'\<rparr>)"
      let ?t = "store f (OFatItem \<lparr>fi_shared = c, fi_type = 1\<rparr>) ?s3"
      have "fat16_new_fat_item_for_directory_item P dk it s = Some (f, ?t)"
        using fresh(1,2) c(1,2) cf nd
        by (simp add: fat16_new_fat_item_for_directory_item_def fat16_clone_directory_item_def deref Let_def)
      moreover have "item_at img fp ?t f it {f, c}"
        unfolding item_at_def using assms(2) fresh(2) c(2) cf by (intro exI [of _ c]) auto
      moreover have "heap_ok ?t (with_blocks B {f, c})"
      proof -
        have "(with_blocks B {f})(c \<mapsto> blocks_of 32) = with_blocks B {f, c}"
          unfolding bl by (auto simp: with_blocks_def fun_eq_iff)
        then have "heap_ok ?s3 (with_blocks B {f, c})" using heap_ok_restore [OF c(6)] by metis
        then show ?thesis by (rule heap_ok_store) (use cf in simp)
      qed
      moreover have "grown s {f, c} ?t"
        by (rule grown_mono [OF grown_trans [OF grown_trans [OF g2 grown_zalloc [OF c(7), of c]] grown_store [of _ f]]]) auto
      ultimately show ?thesis using fresh(5) cf by blast
    qed
  qed
qed

lemma kfree_grown:
  assumes "heap_ok s (with_blocks B X)" "B p = None"
  shows "\<exists>t. kfree p s = Some t \<and> heap_ok t (with_blocks B (X - {p})) \<and> grown s {p} t"
  using kfree_block [OF assms] by metis

lemma free_directory_ok:
  assumes "heap_ok s (with_blocks B X)" "\<forall>a \<in> X. B a = None" "p \<noteq> 0" "p \<in> X"
    "ks_objs s p = Some (ODirectory fd)" "fd_item fd = 0 \<or> fd_item fd \<in> X \<and> fd_item fd \<noteq> p"
  shows "\<exists>t. fat16_free_directory p s = Some t \<and> heap_ok t (with_blocks B (X - {p, fd_item fd})) \<and>
    grown s {p, fd_item fd} t"
proof (cases "fd_item fd = 0")
  case True
  have "0 \<notin> X" using heap_ok_null [OF assms(1)] heap_ok_None [OF assms(1), of 0] by (auto simp: with_blocks_None)
  then have "X - {p, 0} = X - {p}" by auto
  then show ?thesis
    using kfree_grown [OF assms(1), of p] assms(2-5) True grown_mono [of s "{p}" _ "{p, 0}"]
    by (fastforce simp: fat16_free_directory_def deref)
next
  case False
  let ?i = "fd_item fd"
  obtain s1 where 1: "kfree ?i s = Some s1" "heap_ok s1 (with_blocks B (X - {?i}))" "grown s {?i} s1"
    using kfree_grown [OF assms(1)] assms(2,6) False by blast
  obtain t where 2: "kfree p s1 = Some t" "heap_ok t (with_blocks B (X - {?i} - {p}))" "grown s1 {p} t"
    using kfree_grown [OF 1(2)] assms(2,4) by blast
  have "X - {?i} - {p} = X - {p, ?i}" by auto
  then show ?thesis
    using 1 2 assms(3,5) False grown_mono [OF grown_trans [OF 1(3) 2(3)], of "{p, ?i}"]
    by (auto simp: fat16_free_directory_def deref)
qed

lemma item_free_ok:
  assumes "item_at img fp s f it A" "heap_ok s (with_blocks B A)" "\<forall>a \<in> A. B a = None"
  shows "\<exists>t. fat16_item_free f s = Some t \<and> heap_ok t B \<and> grown s A t"
proof -
  obtain p where p: "p \<noteq> 0" "f \<noteq> 0" "f \<noteq> p" and r: "if is_dir it
      then \<exists>i. ks_objs s f = Some (OFatItem \<lparr>fi_shared = p, fi_type = 0\<rparr>) \<and>
        ks_objs s p = Some (ODirectory \<lparr>fd_item = i, fd_total = int (dir_count img fp it), fd_sector_pos = 0, fd_ending_sector_pos = 0\<rparr>) \<and>
        (if dir_count img fp it = 0 then i = 0 \<and> A = {f, p}
         else i \<noteq> 0 \<and> i \<noteq> f \<and> i \<noteq> p \<and> A = {f, p, i} \<and> ks_objs s i = Some (OItems (dir_items img fp it)))
      else ks_objs s f = Some (OFatItem \<lparr>fi_shared = p, fi_type = 1\<rparr>) \<and> A = {f, p} \<and> ks_objs s p = Some (OItems [it])"
    using assms(1) unfolding item_at_def by blast
  have "\<exists>s1 Y. fat16_item_free f s = kfree f s1 \<and> heap_ok s1 (with_blocks B Y) \<and> Y - {f} = {} \<and> grown s A s1 \<and> f \<in> A"
  proof (cases "is_dir it")
    case True
    then obtain i where i: "ks_objs s f = Some (OFatItem \<lparr>fi_shared = p, fi_type = 0\<rparr>)"
      "ks_objs s p = Some (ODirectory \<lparr>fd_item = i, fd_total = int (dir_count img fp it), fd_sector_pos = 0, fd_ending_sector_pos = 0\<rparr>)"
      "i = 0 \<and> A = {f, p} \<or> i \<noteq> 0 \<and> i \<noteq> f \<and> i \<noteq> p \<and> A = {f, p, i}"
      using r by (auto split: if_splits)
    obtain s1 where s1: "fat16_free_directory p s = Some s1" "heap_ok s1 (with_blocks B (A - {p, i}))" "grown s {p, i} s1"
      using free_directory_ok [OF assms(2,3) p(1) _ i(2)] i(3) by auto
    have "A - {p, i} - {f} = {}" "f \<in> A" using i(3) by auto
    moreover have "fat16_item_free f s = kfree f s1"
      using p i(1) s1(1) by (simp add: fat16_item_free_def fat16_fat_item_free_def deref)
    moreover have "grown s A s1"
    proof (cases "i = 0")
      case True
      have "ks_objs s 0 = None" by (rule heap_ok_null [OF assms(2)])
      moreover have "ks_objs s1 0 = None" by (rule heap_ok_null [OF s1(2)])
      ultimately have "grown s {p} s1" using s1(3) True grown_shrink [of s 0 "{p}" s1] by (simp add: insert_commute)
      then show ?thesis using i(3) True by (auto intro: grown_mono)
    next
      case False
      then show ?thesis using s1(3) i(3) by (auto intro: grown_mono)
    qed
    ultimately show ?thesis using s1(2) by blast
  next
    case False
    then have i: "ks_objs s f = Some (OFatItem \<lparr>fi_shared = p, fi_type = 1\<rparr>)" "A = {f, p}" using r by auto
    obtain s1 where s1: "kfree p s = Some s1" "heap_ok s1 (with_blocks B (A - {p}))" "grown s {p} s1"
      using kfree_grown [OF assms(2), of p] assms(3) i(2) by auto
    moreover have "fat16_item_free f s = kfree f s1"
      using p i(1) s1(1) by (simp add: fat16_item_free_def fat16_fat_item_free_def deref)
    moreover have "A - {p} - {f} = {}" "f \<in> A" "grown s A s1" using i(2) s1(3) by (auto intro: grown_mono)
    ultimately show ?thesis by blast
  qed
  then obtain s1 Y where s1: "fat16_item_free f s = kfree f s1" "heap_ok s1 (with_blocks B Y)" "Y - {f} = {}" "grown s A s1" "f \<in> A"
    by blast
  obtain t where t: "kfree f s1 = Some t" "heap_ok t (with_blocks B (Y - {f}))" "grown s1 {f} t"
    using kfree_grown [OF s1(2)] assms(3) s1(5) by blast
  have "grown s A t" using grown_trans [OF s1(4) t(3)] s1(5) by (simp add: insert_absorb)
  moreover have "heap_ok t B" using t(2) unfolding s1(3) by simp
  ultimately show ?thesis using s1(1) t(1) by auto
qed

lemma mounted_cong:
  assumes "mounted P img cap idle fp s" "ks_dev t = ks_dev s" "ks_disk t = ks_disk s"
    "ks_objs t (dk_fs_private (ks_disk s)) = ks_objs s (dk_fs_private (ks_disk s))"
    "\<forall>p. stream_at s p \<longrightarrow> stream_at t p"
  shows "mounted P img cap idle fp t"
  using assms by (auto simp: mounted_def disk_ready_def)

lemma mounted_grown:
  assumes "mounted P img cap idle fp s" "grown s X t" "heap_ok s B" "\<forall>a \<in> X. B a = None"
  shows "mounted P img cap idle fp t"
proof (rule mounted_cong [OF assms(1)])
  have o: "ks_objs t p = ks_objs s p" if "ks_objs s p \<noteq> None" for p
    by (rule grown_objs [OF assms(2)]) (use assms(4) heap_ok_None [OF assms(3), of p] that in auto)
  show "ks_objs t (dk_fs_private (ks_disk s)) = ks_objs s (dk_fs_private (ks_disk s))"
    using assms(1) by (intro o) (simp add: mounted_def)
  show "\<forall>p. stream_at s p \<longrightarrow> stream_at t p" using o by (auto simp: stream_at_def)
qed (use grown_rest [OF assms(2)] in simp_all)

lemma mounted_touched:
  assumes "mounted P img cap idle fp s" "grown s X t"
    "\<forall>a \<in> X. \<exists>x. ks_objs s a = Some x \<and> (\<forall>q. x \<noteq> OStream q) \<and> (\<forall>q. x \<noteq> OPrivate q)"
  shows "mounted P img cap idle fp t"
proof (rule mounted_cong [OF assms(1)])
  have o: "ks_objs t p = ks_objs s p" if "stream_at s p \<or> ks_objs s p = Some (OPrivate fp)" for p
    by (rule grown_objs [OF assms(2)]) (use assms(3) that in \<open>auto simp: stream_at_def\<close>)
  show "ks_objs t (dk_fs_private (ks_disk s)) = ks_objs s (dk_fs_private (ks_disk s))"
    using assms(1) by (intro o) (simp add: mounted_def)
  show "\<forall>p. stream_at s p \<longrightarrow> stream_at t p" using o by (metis stream_at_cong)
qed (use grown_rest [OF assms(2)] in simp_all)

lemma evolved_freed:
  assumes "evolved s (A \<union> C) t" "heap_ok s B" "heap_ok t (with_blocks B C)" "\<forall>a \<in> A. B a = None"
  shows "evolved s C t"
proof -
  have "ks_objs t p = ks_objs s p" if "p \<in> A" "p \<notin> C" for p
    using heap_ok_None [OF assms(2), of p] heap_ok_None [OF assms(3), of p] that assms(4) by (auto simp: with_blocks_None)
  then show ?thesis using assms(1) unfolding evolved_def by blast
qed

lemma directory_size_int: "n \<le> 128 \<Longrightarrow> to_int (word_of_int (int n) * word_of_int 32) = int (32 * n)"
  unfolding of_int_mult [symmetric] by (subst to_int_of_int) auto

text \<open>A directory is loaded whole or, when memory runs out, not at all and nothing is kept.\<close>

definition no_room :: "'d ports \<Rightarrow> (nat \<Rightarrow> u8) \<Rightarrow> nat \<Rightarrow> ('d \<Rightarrow> bool) \<Rightarrow> fat_private \<Rightarrow> (u32 \<Rightarrow> nat option) \<Rightarrow> nat \<Rightarrow> 'd kst \<Rightarrow> 'd kst \<Rightarrow> bool" where
  "no_room P img cap idle fp B k s t \<longleftrightarrow> free_count (ks_heap s) < k \<and> heap_ok t B \<and> evolved s {} t \<and> mounted P img cap idle fp t"

lemma free_one_block:
  assumes "heap_ok s B" "heap_ok t (with_blocks B {p})" "B p = None" "evolved s {p} t" "mounted P img cap idle fp t"
    "ks_objs t p = Some x" "\<forall>q. x \<noteq> OStream q" "\<forall>q. x \<noteq> OPrivate q"
  shows "\<exists>u. kfree p t = Some u \<and> heap_ok u B \<and> evolved s {} u \<and> mounted P img cap idle fp u"
proof -
  obtain h where h: "kfree p t = Some (released p h t)" "heap_ok (released p h t) (with_blocks B ({p} - {p}))"
    "grown t {p} (released p h t)"
    by (rule kfree_block [OF assms(2,3)])
  have "evolved s {} (released p h t)"
    by (rule evolved_freed [OF evolved_mono [OF evolved_trans [OF assms(4) grown_evolved [OF h(3)]]] assms(1)])
      (use h(2) assms(3) in auto)
  moreover have "mounted P img cap idle fp (released p h t)"
    by (rule mounted_touched [OF assms(5) h(3)]) (use assms(6-8) in simp)
  ultimately show ?thesis using h(1,2) by auto
qed

text \<open>
  The two halves of \<open>fat16_load_fat_directory\<close>: the struct is allocated and the entries are
  counted; then they are read.
\<close>

definition directory_of :: "(nat \<Rightarrow> u8) \<Rightarrow> fat_private \<Rightarrow> fat_directory_item \<Rightarrow> u32 \<Rightarrow> obj" where
  "directory_of img fp it i =
     ODirectory \<lparr>fd_item = i, fd_total = int (dir_count img fp it), fd_sector_pos = 0, fd_ending_sector_pos = 0\<rparr>"

definition load_directory_rest ::
  "'d ports \<Rightarrow> (nat \<Rightarrow> u8) \<Rightarrow> fat_private \<Rightarrow> fat_directory_item \<Rightarrow> u32 \<Rightarrow> 'd kst \<Rightarrow> (u32 \<times> 'd kst) option" where
  "load_directory_rest P img fp it p s3 = (let n = dir_count img fp it in
     if int (32 * n) > 0 then do {
       (items, s4) \<leftarrow> kzalloc (word_of_int (int (32 * n))) as_items s3;
       fd4 \<leftarrow> obj_directory s4 p;
       let s5 = store p (ODirectory (fd4\<lparr>fd_item := items\<rparr>)) s4;
       if items = 0 then load_directory_out (- ENOMEM) p s5
       else do {
         (res, bytes, s6) \<leftarrow> fat16_read_internal P DISK (int (dir_cluster it)) 0 (32 * int n) s5;
         let s7 = (if res = SAMOS_ALL_OK then store items (OItems (decode_items bytes)) s6 else s6);
         load_directory_out res p s7 } }
     else load_directory_out 0 p s3)"

lemma dir_okD:
  assumes "dir_ok img fp cap it"
  shows "fat16_get_first_cluster it = int (dir_cluster it)" "dir_count img fp it \<le> 128"
    "chain_covers img fp cap (dir_cluster it) (32 * dir_count img fp it + 32)"
    "contents img fp (dir_cluster it) (32 * dir_count img fp it) = 0"
    "\<forall>j < dir_count img fp it. contents img fp (dir_cluster it) (32 * j) \<noteq> 0"
proof -
  show n: "fat16_get_first_cluster it = int (dir_cluster it)" "dir_count img fp it \<le> 128"
    "chain_covers img fp cap (dir_cluster it) (32 * dir_count img fp it + 32)"
    using assms by (auto simp: dir_ok_def dir_cluster_def)
  show "contents img fp (dir_cluster it) (32 * dir_count img fp it) = 0"
    "\<forall>j < dir_count img fp it. contents img fp (dir_cluster it) (32 * j) \<noteq> 0"
    using entries_used_blank [of "contents img fp (dir_cluster it)" 0 129]
      entries_used_before [of _ "contents img fp (dir_cluster it)" 0 129] n(2)
    by (simp_all add: dir_count_def)
qed

lemma load_directory_start:
  assumes "heap_ok s B" "mounted P img cap idle fp s" "is_dir it" "dir_ok img fp cap it"
  obtains (null) "fat16_load_fat_directory P DISK it s = Some (0, s)" "free_count (ks_heap s) = 0"
  | (counted) p t where "fat16_load_fat_directory P DISK it s = load_directory_rest P img fp it p t" "p \<noteq> 0" "B p = None"
      "heap_ok t (with_blocks B {p})" "ks_objs t p = Some (directory_of img fp it 0)" "evolved s {p} t"
      "mounted P img cap idle fp t" "free_count (ks_heap s) = Suc (free_count (ks_heap t))"
proof -
  let ?z = "ODirectory zero_directory"
  note d = dir_okD [OF assms(4)]
  have at: "di_attribute it AND 0x10 \<noteq> 0" using assms(3) by (simp add: is_dir_def)
  have s16: "0 < unat (16 :: u32)" "unat (16 :: u32) \<le> 4096" by simp_all
  from assms(1) s16 show thesis
  proof (cases rule: zalloc_one_cases [of s B 16 ?z])
    case null
    then show thesis using at by (intro that(1)) (simp_all add: fat16_load_fat_directory_def load_directory_out_def)
  next
    case k: (fresh p h)
    let ?s1 = "store p ?z (s\<lparr>ks_heap := h\<rparr>)"
    have g1: "grown s {p} ?s1" by (rule grown_zalloc [OF k(7)])
    have m1: "mounted P img cap idle fp ?s1" by (rule mounted_grown [OF assms(2) g1 assms(1)]) (use k(5) in simp)
    have "32 * dir_count img fp it + 32 < 2147483648" using d(2) by simp
    then obtain s2 where s2: "fat16_get_total_items_for_directory_cluster P DISK (int (dir_cluster it)) ?s1 =
        Some (int (dir_count img fp it), s2)" "io_only ?s1 s2" "mounted P img cap idle fp s2"
      using directory_count_ok [OF m1 _ d(3,5,4)] by blast
    have p2: "ks_objs s2 p = Some ?z" by (rule io_only_objs [OF s2(2)]) simp_all
    let ?t = "store p (directory_of img fp it 0) s2"
    have g2: "grown s2 {p} ?t" by (rule grown_store)
    have "fat16_load_fat_directory P DISK it s = load_directory_rest P img fp it p ?t"
      unfolding fat16_load_fat_directory_def load_directory_rest_def directory_of_def
      using at k(1,2) d(1) s2(1) p2 directory_size_int [OF d(2)]
      by (simp add: deref zero_directory_def Let_def)
    moreover have "heap_ok ?t (with_blocks B {p})"
      by (rule heap_ok_store [OF io_only_heap_ok [OF s2(2) k(6)]]) (simp add: p2)
    moreover have "evolved s {p} ?t"
      by (rule evolved_mono [OF evolved_trans [OF evolved_trans [OF grown_evolved [OF g1] io_only_evolved [OF s2(2)]]
          grown_evolved [OF g2]]]) auto
    moreover have "mounted P img cap idle fp ?t" by (rule mounted_touched [OF s2(3) g2]) (use p2 in simp)
    ultimately show thesis using k(2,5,8) io_only_simps [OF s2(2)] by (intro that(2) [of p ?t]) simp_all
  qed
qed

lemma load_directory_fill:
  assumes "heap_ok s (with_blocks B {p})" "mounted P img cap idle fp s" "dir_ok img fp cap it" "dir_count img fp it \<noteq> 0"
    "ks_objs s p = Some (directory_of img fp it 0)" "p \<noteq> 0" "B p = None"
  obtains (null) "load_directory_rest P img fp it p s = load_directory_out (- ENOMEM) p s" "free_count (ks_heap s) = 0"
  | (filled) i t where "load_directory_rest P img fp it p s = Some (p, t)" "i \<noteq> 0" "i \<noteq> p" "B i = None"
      "ks_objs t p = Some (directory_of img fp it i)" "ks_objs t i = Some (OItems (dir_items img fp it))"
      "heap_ok t (with_blocks B {p, i})" "evolved s {p, i} t" "mounted P img cap idle fp t"
proof -
  let ?n = "dir_count img fp it" and ?c = "dir_cluster it"
  let ?zi = "OItems (replicate ?n zero_item)" and ?d = "directory_of img fp it"
  note d = dir_okD [OF assms(3)]
  note kz = kzalloc_item_array [OF d(2)]
  have sz: "0 < unat (word_of_int (int (32 * ?n)) :: u32)" "unat (word_of_int (int (32 * ?n)) :: u32) \<le> 4096"
    using assms(4) d(2) by (subst unat_of_int_small; simp)+
  from assms(1) sz show thesis
  proof (cases rule: zalloc_one_cases [of s _ _ ?zi])
    case null
    from null(1) [folded kz] have "load_directory_rest P img fp it p s = load_directory_out (- ENOMEM) p s"
      using assms(4,5) by (simp add: load_directory_rest_def Let_def directory_of_def deref store_same)
    then show thesis using null(2) by (rule that(1))
  next
    case i: (fresh i h)
    have ip: "i \<noteq> p" "B i = None" using i(5) by (auto simp: with_blocks_None)
    let ?s4 = "store i ?zi (s\<lparr>ks_heap := h\<rparr>)"
    let ?s5 = "store p (?d i) ?s4"
    have g5: "grown s {p, i} ?s5"
      by (rule grown_mono [OF grown_trans [OF grown_zalloc [OF i(7), of i ?zi] grown_store [of _ p]]]) simp
    have "with_blocks (with_blocks B {p}) {i} = with_blocks B {p, i}" by (auto simp: with_blocks_def fun_eq_iff)
    with i(6) have "heap_ok ?s4 (with_blocks B {p, i})" by simp
    then have h5: "heap_ok ?s5 (with_blocks B {p, i})" by (rule heap_ok_store) (use ip assms(5) in simp)
    have m5: "mounted P img cap idle fp ?s5"
      by (rule mounted_cong [OF assms(2)])
        (use assms(2,5) i(4) ip in \<open>auto simp: stream_at_def mounted_def directory_of_def\<close>)
    have "32 * ?n < 2147483648" "chain_covers img fp cap ?c (0 + 32 * ?n)"
      using d(2,3) by (auto simp: chain_covers_def)
    then obtain s6 where s6: "fat16_read_internal P DISK (int ?c) (int 0) (int (32 * ?n)) ?s5 =
        Some (0, slice (contents img fp ?c) 0 (32 * ?n), s6)" "io_only ?s5 s6" "mounted P img cap idle fp s6"
      using fat16_read_ok [OF m5, of "32 * ?n" 0] assms(4) by auto
    let ?t = "store i (OItems (dir_items img fp it)) s6"
    have o6: "ks_objs s6 p = Some (?d i)" "ks_objs s6 i = Some ?zi"
      by (rule io_only_objs [OF s6(2)]; use ip in \<open>simp add: directory_of_def\<close>)+
    have "load_directory_rest P img fp it p s = Some (p, ?t)"
      using assms(4,5) i(1) [folded kz] i(2) ip s6(1)
      by (simp add: load_directory_rest_def directory_of_def deref Let_def load_directory_out_def dir_items_def)
    moreover have "heap_ok ?t (with_blocks B {p, i})"
      by (rule heap_ok_store [OF io_only_heap_ok [OF s6(2) h5]]) (simp add: o6)
    moreover have "evolved s {p, i} ?t"
      by (rule evolved_mono [OF evolved_trans [OF evolved_trans [OF grown_evolved [OF g5] io_only_evolved [OF s6(2)]]
          grown_evolved [OF grown_store [of _ i]]]]) auto
    moreover have "mounted P img cap idle fp ?t"
      by (rule mounted_touched [OF s6(3) grown_store]) (use o6 in simp)
    ultimately show thesis using i(2) ip o6 by (intro that(2) [of ?t i]) simp_all
  qed
qed

lemma load_directory_any:
  assumes "heap_ok s B" "mounted P img cap idle fp s" "is_dir it" "dir_ok img fp cap it"
  shows "(\<exists>p i A t. fat16_load_fat_directory P DISK it s = Some (p, t) \<and> p \<noteq> 0 \<and>
    ks_objs t p = Some (ODirectory \<lparr>fd_item = i, fd_total = int (dir_count img fp it), fd_sector_pos = 0, fd_ending_sector_pos = 0\<rparr>) \<and>
    (if dir_count img fp it = 0 then i = 0 \<and> A = {p}
     else i \<noteq> 0 \<and> i \<noteq> p \<and> A = {p, i} \<and> ks_objs t i = Some (OItems (dir_items img fp it))) \<and>
    heap_ok t (with_blocks B A) \<and> (\<forall>a \<in> A. B a = None) \<and> evolved s A t \<and> mounted P img cap idle fp t) \<or>
   (\<exists>t. fat16_load_fat_directory P DISK it s = Some (0, t) \<and> no_room P img cap idle fp B 2 s t)"
  using assms
proof (cases rule: load_directory_start [of s B P img cap idle fp it])
  case null
  then show ?thesis using assms(1,2) evolved_refl by (auto simp: no_room_def)
next
  case (counted p t)
  show ?thesis
  proof (cases "dir_count img fp it = 0")
    case True
    then have "fat16_load_fat_directory P DISK it s = Some (p, t)"
      using counted(1) by (simp add: load_directory_rest_def load_directory_out_def)
    then show ?thesis
      using True counted by (intro disjI1 exI [of _ p] exI [of _ 0] exI [of _ "{p}"] exI [of _ t]) (simp add: directory_of_def)
  next
    case False
    from counted(4,7) assms(4) False counted(5,2,3) show ?thesis
    proof (cases rule: load_directory_fill)
      case null
      obtain u where u: "kfree p t = Some u" "heap_ok u B" "evolved s {} u" "mounted P img cap idle fp u"
        using free_one_block [OF assms(1) counted(4,3,6,7,5)] by (auto simp: directory_of_def)
      have "fat16_free_directory p t = Some u"
        using counted(2,5) u(1) by (simp add: fat16_free_directory_def directory_of_def deref)
      then have "fat16_load_fat_directory P DISK it s = Some (0, u)"
        using counted(1,2) null(1) by (simp add: load_directory_out_def)
      then show ?thesis using u counted(8) null(2) by (auto simp: no_room_def)
    next
      case (filled i u)
      have "evolved s {p, i} u"
        by (rule evolved_mono [OF evolved_trans [OF counted(6) filled(8)]]) simp
      then show ?thesis
        using False counted(1-3) filled
        by (intro disjI1 exI [of _ p] exI [of _ i] exI [of _ "{p, i}"] exI [of _ u]) (simp add: directory_of_def)
    qed
  qed
qed

lemma new_directory_item_any:
  assumes "heap_ok s B" "mounted P img cap idle fp s" "is_dir it" "dir_ok img fp cap it"
  shows "(\<exists>f A t. fat16_new_fat_item_for_directory_item P DISK it s = Some (f, t) \<and> item_at img fp t f it A \<and>
      heap_ok t (with_blocks B A) \<and> (\<forall>a \<in> A. B a = None) \<and> evolved s A t \<and> mounted P img cap idle fp t) \<or>
    (\<exists>t. fat16_new_fat_item_for_directory_item P DISK it s = Some (0, t) \<and> no_room P img cap idle fp B 3 s t)"
proof -
  have at: "di_attribute it AND 0x10 \<noteq> 0" using assms(3) by (simp add: is_dir_def)
  have s8: "0 < unat (8 :: u32)" "unat (8 :: u32) \<le> 4096" by simp_all
  let ?z = "OFatItem \<lparr>fi_shared = 0, fi_type = 0\<rparr>"
  from assms(1) s8 show ?thesis
  proof (cases rule: zalloc_one_cases [of s B 8 ?z])
    case null
    then show ?thesis using assms(1,2) evolved_refl by (auto simp: no_room_def fat16_new_fat_item_for_directory_item_def)
  next
    case k: (fresh f h)
    let ?s1 = "store f ?z (s\<lparr>ks_heap := h\<rparr>)"
    have g1: "grown s {f} ?s1" by (rule grown_zalloc [OF k(7)])
    have m1: "mounted P img cap idle fp ?s1" by (rule mounted_grown [OF assms(2) g1 assms(1)]) (use k(5) in simp)
    from load_directory_any [OF k(6) m1 assms(3,4)] show ?thesis
    proof (elim disjE exE conjE)
      fix t assume l: "fat16_load_fat_directory P DISK it ?s1 = Some (0, t)" "no_room P img cap idle fp (with_blocks B {f}) 2 ?s1 t"
      have ft: "ks_objs t f = Some ?z" by (rule evolved_objs [of ?s1 "{}"]) (use l(2) in \<open>simp_all add: no_room_def\<close>)
      have r: "heap_ok t (with_blocks B {f})" "evolved ?s1 {} t" "mounted P img cap idle fp t"
        using l(2) by (simp_all add: no_room_def)
      have e: "evolved s {f} t" by (rule evolved_mono [OF evolved_trans [OF grown_evolved [OF g1] r(2)]]) simp
      obtain u where "kfree f t = Some u" "heap_ok u B" "evolved s {} u" "mounted P img cap idle fp u"
        using free_one_block [OF assms(1) r(1) k(5) e r(3) ft] by auto
      moreover from this have "fat16_new_fat_item_for_directory_item P DISK it s = Some (0, u)"
        using k(1,2) at l(1) ft by (simp add: fat16_new_fat_item_for_directory_item_def deref store_same)
      ultimately show ?thesis using l(2) k(8) by (auto simp: no_room_def)
    next
      fix p i A t assume l: "fat16_load_fat_directory P DISK it ?s1 = Some (p, t)" "p \<noteq> 0"
        "ks_objs t p = Some (ODirectory \<lparr>fd_item = i, fd_total = int (dir_count img fp it), fd_sector_pos = 0, fd_ending_sector_pos = 0\<rparr>)"
        "if dir_count img fp it = 0 then i = 0 \<and> A = {p}
         else i \<noteq> 0 \<and> i \<noteq> p \<and> A = {p, i} \<and> ks_objs t i = Some (OItems (dir_items img fp it))"
        "heap_ok t (with_blocks (with_blocks B {f}) A)" "\<forall>a \<in> A. with_blocks B {f} a = None" "evolved ?s1 A t"
        "mounted P img cap idle fp t"
      have fA: "f \<notin> A" "\<forall>a \<in> A. B a = None" using l(6) by (auto simp: with_blocks_None)
      have ft: "ks_objs t f = Some ?z" by (rule evolved_objs [OF l(7) fA(1)]) simp_all
      let ?t = "store f (OFatItem \<lparr>fi_shared = p, fi_type = 0\<rparr>) t"
      have "fat16_new_fat_item_for_directory_item P DISK it s = Some (f, ?t)"
        using k(1,2) at l(1,2) ft by (simp add: fat16_new_fat_item_for_directory_item_def deref)
      moreover have "i \<noteq> 0 \<Longrightarrow> i \<in> A" "p \<in> A" using l(4) by (auto split: if_splits)
      then have "item_at img fp ?t f it (insert f A)"
        unfolding item_at_def using assms(3) k(2) l(2-4) fA(1) by (intro exI [of _ p]) (auto split: if_splits)
      moreover have "with_blocks (with_blocks B {f}) A = with_blocks B (insert f A)" by (auto simp: with_blocks_def fun_eq_iff)
      then have "heap_ok ?t (with_blocks B (insert f A))" using l(5) ft by (intro heap_ok_store) simp_all
      moreover have "evolved s (insert f A) ?t"
        by (rule evolved_mono [OF evolved_trans [OF evolved_trans [OF grown_evolved [OF g1] l(7)] grown_evolved [OF grown_store [of _ f]]]])
          auto
      moreover have "mounted P img cap idle fp ?t" by (rule mounted_touched [OF l(8) grown_store]) (use ft in simp)
      ultimately show ?thesis using fA(2) k(5) by blast
    qed
  qed
qed

lemma new_item_any:
  assumes "heap_ok s B" "mounted P img cap idle fp s" "is_dir it \<longrightarrow> dir_ok img fp cap it"
  shows "(\<exists>f A t. fat16_new_fat_item_for_directory_item P DISK it s = Some (f, t) \<and> item_at img fp t f it A \<and>
      heap_ok t (with_blocks B A) \<and> (\<forall>a \<in> A. B a = None) \<and> evolved s A t \<and> mounted P img cap idle fp t) \<or>
    (\<exists>t. fat16_new_fat_item_for_directory_item P DISK it s = Some (0, t) \<and> no_room P img cap idle fp B 3 s t)"
proof (cases "is_dir it")
  case True
  then show ?thesis using new_directory_item_any [OF assms(1,2)] assms(3) by blast
next
  case False
  from new_file_item [OF assms(1) False, of P DISK img fp] show ?thesis
  proof (elim disjE exE conjE)
    fix f A t assume t: "fat16_new_fat_item_for_directory_item P DISK it s = Some (f, t)" "item_at img fp t f it A"
      "heap_ok t (with_blocks B A)" "\<forall>a \<in> A. B a = None" "grown s A t"
    then show ?thesis using mounted_grown [OF assms(2) t(5) assms(1) t(4)] grown_evolved [OF t(5)] by blast
  next
    assume "fat16_new_fat_item_for_directory_item P DISK it s = Some (0, s)" "free_count (ks_heap s) < 2"
    then show ?thesis using assms(1,2) evolved_refl by (auto simp: no_room_def)
  qed
qed

section \<open>Walking a path\<close>

text \<open>What the names of a path denote on the disk.\<close>

fun lookup ::
  "(nat \<Rightarrow> u8) \<Rightarrow> fat_private \<Rightarrow> fat_directory_item list \<Rightarrow> u8 list list \<Rightarrow> fat_directory_item option" where
  "lookup img fp items [] = None"
| "lookup img fp items [c] = find (hit c) items"
| "lookup img fp items (c # c' # cs) =
     (case find (hit c) items of
        Some it \<Rightarrow> if is_dir it then lookup img fp (dir_items img fp it) (c' # cs) else None
      | None \<Rightarrow> None)"

text \<open>
  How the walk of \<open>fat16_get_directory_entry\<close> from an item ends: it finds the item, or
  reports that there is none, or it goes on from a null pointer.
\<close>

datatype walk = Found fat_directory_item | Missing | Null_Item

fun walk_from :: "(nat \<Rightarrow> u8) \<Rightarrow> fat_private \<Rightarrow> fat_directory_item \<Rightarrow> u8 list list \<Rightarrow> walk" where
  "walk_from img fp it [] = Found it"
| "walk_from img fp it (c # cs) =
     (if \<not> is_dir it then Missing
      else case find (hit c) (dir_items img fp it) of
          None \<Rightarrow> if cs = [] then Missing else Null_Item
        | Some it' \<Rightarrow> walk_from img fp it' cs)"

definition walk_root :: "(nat \<Rightarrow> u8) \<Rightarrow> fat_private \<Rightarrow> fat_directory_item list \<Rightarrow> u8 list \<Rightarrow> u8 list list \<Rightarrow> walk" where
  "walk_root img fp items c cs =
     (case find (hit c) items of None \<Rightarrow> Missing | Some it \<Rightarrow> walk_from img fp it cs)"

lemma walk_root_lookup: "walk_root img fp items c cs = Found it \<longleftrightarrow> lookup img fp items (c # cs) = Some it"
proof (induction cs arbitrary: items c)
  case Nil
  then show ?case by (auto simp: walk_root_def split: option.splits)
next
  case (Cons c' cs)
  show ?case
  proof (cases "find (hit c) items")
    case None
    then show ?thesis by (simp add: walk_root_def)
  next
    case (Some it0)
    have n: "find (hit c') xs = None \<Longrightarrow> lookup img fp xs (c' # cs) = None" for xs by (cases cs) simp_all
    show ?thesis
      using Cons.IH [of "dir_items img fp it0" c'] Some n [of "dir_items img fp it0"]
      by (auto simp: walk_root_def split: option.splits)
  qed
qed

text \<open>Every directory the walk comes to can be loaded.\<close>

fun loadable :: "(nat \<Rightarrow> u8) \<Rightarrow> fat_private \<Rightarrow> nat \<Rightarrow> fat_directory_item \<Rightarrow> u8 list list \<Rightarrow> bool" where
  "loadable img fp cap it [] \<longleftrightarrow> (is_dir it \<longrightarrow> dir_ok img fp cap it)"
| "loadable img fp cap it (c # cs) \<longleftrightarrow> (is_dir it \<longrightarrow> dir_ok img fp cap it \<and>
     (case find (hit c) (dir_items img fp it) of None \<Rightarrow> True | Some it' \<Rightarrow> loadable img fp cap it' cs))"

lemma loadable_dir: "loadable img fp cap it cs \<Longrightarrow> is_dir it \<Longrightarrow> dir_ok img fp cap it"
  by (cases cs) auto

lemma mounted_free:
  assumes "mounted P img cap idle fp s" "item_at img fp s f it A" "grown s A t"
  shows "mounted P img cap idle fp t"
proof (rule mounted_cong [OF assms(1)])
  have o: "ks_objs t p = ks_objs s p" if "stream_at s p \<or> ks_objs s p = Some (OPrivate fp)" for p
    by (rule grown_objs [OF assms(3)]) (use item_at_not_stream [OF assms(2), of p] that in \<open>auto simp: stream_at_def\<close>)
  show "ks_objs t (dk_fs_private (ks_disk s)) = ks_objs s (dk_fs_private (ks_disk s))"
    using assms(1) by (intro o) (simp add: mounted_def)
  show "\<forall>p. stream_at s p \<longrightarrow> stream_at t p" using o by (metis stream_at_cong)
qed (use grown_rest [OF assms(3)] in simp_all)

text \<open>A parsed path stays where it is.\<close>

lemma parts_at_kind:
  "parts_at ob p ps cs \<Longrightarrow> q \<in> set (addrs ps) \<Longrightarrow> \<exists>x. ob q = Some x \<and> (\<forall>y. x \<noteq> OStream y) \<and> (\<forall>y. x \<noteq> OPrivate y)"
  by (induction ob p ps cs rule: parts_at.induct) auto

lemma parts_at_evolved:
  assumes "parts_at (ks_objs s) p ps cs" "evolved s X t" "set (addrs ps) \<inter> X = {}"
  shows "parts_at (ks_objs t) p ps cs"
proof (rule parts_at_cong [OF assms(1)], rule ballI)
  fix q assume "q \<in> set (addrs ps)"
  then obtain x where "ks_objs s q = Some x" "\<forall>y. x \<noteq> OStream y" "q \<notin> X" using parts_at_kind [OF assms(1)] assms(3) by blast
  then show "ks_objs t q = ks_objs s q" using evolved_objs [OF assms(2)] by simp
qed

text \<open>The current item in its place between two rounds of the walk.\<close>

definition holding ::
  "'d ports \<Rightarrow> (nat \<Rightarrow> u8) \<Rightarrow> nat \<Rightarrow> ('d \<Rightarrow> bool) \<Rightarrow> fat_private \<Rightarrow> (u32 \<Rightarrow> nat option) \<Rightarrow> 'd kst \<Rightarrow> 'd kst \<Rightarrow>
   u32 \<Rightarrow> fat_directory_item \<Rightarrow> u32 set \<Rightarrow> bool" where
  "holding P img cap idle fp B s0 s f it A \<longleftrightarrow> mounted P img cap idle fp s \<and> heap_ok s (with_blocks B A) \<and>
     item_at img fp s f it A \<and> (\<forall>a \<in> A. B a = None) \<and> evolved s0 A s"

lemma holding_room:
  assumes "holding P img cap idle fp B s0 s f it A" "heap_ok s0 B"
  shows "free_count (ks_heap s0) \<le> free_count (ks_heap s) + 3"
  using assms free_count_blocks [of A s0 B s] item_at_finite [of img fp s f it A]
  by (auto simp: holding_def evolved_frame)

lemma holding_release:
  assumes "holding P img cap idle fp B s0 s f it A" "heap_ok s0 B"
  shows "\<exists>t. fat16_item_free f s = Some t \<and> heap_ok t B \<and> evolved s0 {} t \<and> mounted P img cap idle fp t"
proof -
  have h: "mounted P img cap idle fp s" "heap_ok s (with_blocks B A)" "item_at img fp s f it A" "\<forall>a \<in> A. B a = None"
    "evolved s0 A s"
    using assms(1) by (auto simp: holding_def)
  obtain t where t: "fat16_item_free f s = Some t" "heap_ok t B" "grown s A t"
    using item_free_ok [OF h(3,2,4)] by blast
  have "evolved s0 (A \<union> {}) t"
    by (rule evolved_mono [OF evolved_trans [OF h(5) grown_evolved [OF t(3)]]]) simp
  then have "evolved s0 {} t" by (rule evolved_freed [OF _ assms(2) _ h(4)]) (use t(2) in simp)
  then show ?thesis using t mounted_free [OF h(1,3) t(3)] by blast
qed

text \<open>
  One round: the next item is made while the current one is still there, which is then
  freed; when memory runs out the current item is freed and nothing is held.
\<close>

lemma holding_next:
  assumes "holding P img cap idle fp B s0 s f it A" "heap_ok s0 B" "is_dir it' \<longrightarrow> dir_ok img fp cap it'"
  obtains (made) f' A' s1 t where "fat16_new_fat_item_for_directory_item P DISK it' s = Some (f', s1)"
      "fat16_item_free f s1 = Some t" "holding P img cap idle fp B s0 t f' it' A'" "f' \<noteq> 0"
  | (null) s1 t where "fat16_new_fat_item_for_directory_item P DISK it' s = Some (0, s1)"
      "fat16_item_free f s1 = Some t" "no_room P img cap idle fp B 6 s0 t"
proof -
  have h: "mounted P img cap idle fp s" "heap_ok s (with_blocks B A)" "item_at img fp s f it A" "\<forall>a \<in> A. B a = None"
    "evolved s0 A s"
    using assms(1) by (auto simp: holding_def)
  have at: "item_at img fp u f it A" if "evolved s X u" "\<forall>a \<in> A. a \<notin> X" for u X
  proof (rule item_at_cong [OF h(3)], rule ballI)
    fix a assume a: "a \<in> A"
    then obtain x where "ks_objs s a = Some x" "\<forall>q. x \<noteq> OStream q" using item_at_not_stream [OF h(3)] by blast
    then show "ks_objs u a = ks_objs s a" using evolved_objs [OF that(1), of a x] that(2) a by auto
  qed
  from new_item_any [OF h(2,1) assms(3)] show thesis
  proof (elim disjE exE conjE)
    fix s1 assume n: "fat16_new_fat_item_for_directory_item P DISK it' s = Some (0, s1)"
      "no_room P img cap idle fp (with_blocks B A) 3 s s1"
    then have e: "evolved s {} s1" and free: "free_count (ks_heap s) < 3" by (simp_all add: no_room_def)
    have "holding P img cap idle fp B s0 s1 f it A"
      using n(2) h(4) at [OF e] evolved_trans [OF h(5) e] by (simp add: holding_def no_room_def)
    then obtain t where "fat16_item_free f s1 = Some t" "heap_ok t B" "evolved s0 {} t" "mounted P img cap idle fp t"
      using holding_release [OF _ assms(2)] by blast
    then show thesis using n(1) free holding_room [OF assms(1,2)] by (intro null [of s1 t]) (simp_all add: no_room_def)
  next
    fix f' A' s1 assume n: "fat16_new_fat_item_for_directory_item P DISK it' s = Some (f', s1)"
      "item_at img fp s1 f' it' A'" "heap_ok s1 (with_blocks (with_blocks B A) A')" "\<forall>a \<in> A'. with_blocks B A a = None"
      "evolved s A' s1" "mounted P img cap idle fp s1"
    have dis: "a \<notin> A" "B a = None" if "a \<in> A'" for a using n(4) that by (auto simp: with_blocks_None)
    have swap: "with_blocks (with_blocks B A) A' = with_blocks (with_blocks B A') A"
      using dis by (auto simp: with_blocks_def fun_eq_iff)
    have at1: "item_at img fp s1 f it A" by (rule at [OF n(5)]) (use dis in blast)
    have "\<forall>a \<in> A. with_blocks B A' a = None" using dis h(4) by (auto simp: with_blocks_None)
    then obtain t where t: "fat16_item_free f s1 = Some t" "heap_ok t (with_blocks B A')" "grown s1 A t"
      using item_free_ok [OF at1 n(3) [unfolded swap]] by blast
    have "evolved s0 (A \<union> A') t"
      by (rule evolved_mono [OF evolved_trans [OF evolved_trans [OF h(5) n(5)] grown_evolved [OF t(3)]]]) auto
    then have "evolved s0 A' t" by (rule evolved_freed [OF _ assms(2) t(2) h(4)])
    moreover have "item_at img fp t f' it' A'"
      by (rule item_at_cong [OF n(2)], intro ballI grown_objs [OF t(3)] dis(1))
    ultimately have "holding P img cap idle fp B s0 t f' it' A'"
      using t(2) dis(2) mounted_free [OF n(6) at1 t(3)] by (auto simp: holding_def)
    then show thesis using n(1) t(1) item_at_finite [OF n(2)] by (intro made [of f' s1 t A']) blast+
  qed
qed

lemma dir_items_shape: "\<forall>it' \<in> set (dir_items img fp it). item_shape it'"
  using decode_items_shape by (auto simp: dir_items_def)

lemma length_dir_items: "length (dir_items img fp it) = dir_count img fp it"
  by (simp add: dir_items_def length_decode_items)

lemma holding_directory:
  assumes "holding P img cap idle fp B s0 s f it A" "is_dir it" "ks_objs s name = Some (OBytes nm)" "terminated nm"
  shows "\<exists>p dir. ks_objs s f = Some (OFatItem \<lparr>fi_shared = p, fi_type = 0\<rparr>) \<and> ks_objs s p = Some (ODirectory dir) \<and>
    fat16_find_item_in_directory P DISK dir name s =
      (case find (hit (cstr nm)) (dir_items img fp it) of None \<Rightarrow> Some (0, s)
       | Some it' \<Rightarrow> fat16_new_fat_item_for_directory_item P DISK it' s)"
proof -
  have "item_at img fp s f it A" using assms(1) by (simp add: holding_def)
  then obtain p i where p: "ks_objs s f = Some (OFatItem \<lparr>fi_shared = p, fi_type = 0\<rparr>)"
    "ks_objs s p = Some (ODirectory \<lparr>fd_item = i, fd_total = int (dir_count img fp it), fd_sector_pos = 0, fd_ending_sector_pos = 0\<rparr>)"
    "0 < dir_count img fp it \<longrightarrow> ks_objs s i = Some (OItems (dir_items img fp it))"
    using assms(2) by (auto simp: item_at_def split: if_splits)
  have "take (dir_count img fp it) (dir_items img fp it) = dir_items img fp it" by (simp add: length_dir_items)
  then show ?thesis
    using p find_item_eq [of "\<lparr>fd_item = i, fd_total = int (dir_count img fp it), fd_sector_pos = 0, fd_ending_sector_pos = 0\<rparr>"
        "dir_count img fp it" "dir_items img fp it" s name nm P DISK] assms(3,4) dir_items_shape length_dir_items
    by auto
qed

text \<open>
  What the walk returns: \<open>walked\<close> when memory lasts, or else null with nothing held, or,
  when a component other than the last could not be allocated, nothing at all.
\<close>

definition walked ::
  "'d ports \<Rightarrow> (nat \<Rightarrow> u8) \<Rightarrow> nat \<Rightarrow> ('d \<Rightarrow> bool) \<Rightarrow> fat_private \<Rightarrow> (u32 \<Rightarrow> nat option) \<Rightarrow> 'd kst \<Rightarrow> walk \<Rightarrow>
   (u32 \<times> 'd kst) option \<Rightarrow> bool" where
  "walked P img cap idle fp B s0 w r \<longleftrightarrow> (case w of
      Found it \<Rightarrow> \<exists>f A t. r = Some (f, t) \<and> holding P img cap idle fp B s0 t f it A
    | Missing \<Rightarrow> \<exists>t. r = Some (0, t) \<and> heap_ok t B \<and> evolved s0 {} t \<and> mounted P img cap idle fp t
    | Null_Item \<Rightarrow> r = None)"

definition starved ::
  "'d ports \<Rightarrow> (nat \<Rightarrow> u8) \<Rightarrow> nat \<Rightarrow> ('d \<Rightarrow> bool) \<Rightarrow> fat_private \<Rightarrow> (u32 \<Rightarrow> nat option) \<Rightarrow> 'd kst \<Rightarrow> u8 list list \<Rightarrow>
   (u32 \<times> 'd kst) option \<Rightarrow> bool" where
  "starved P img cap idle fp B s0 cs r \<longleftrightarrow> (\<exists>t. r = Some (0, t) \<and> no_room P img cap idle fp B 6 s0 t) \<or>
     r = None \<and> free_count (ks_heap s0) < 6 \<and> 2 \<le> length cs"

lemma starved_longer: "starved P img cap idle fp B s0 cs r \<Longrightarrow> starved P img cap idle fp B s0 (c # cs) r"
  by (auto simp: starved_def)

lemma walk_null: "walk_from img fp it cs = Null_Item \<Longrightarrow> 2 \<le> length cs"
  by (induction cs arbitrary: it) (fastforce split: if_splits option.splits simp: Suc_le_eq)+

lemma directory_entry_loop_null:
  assumes "heap_ok t B" "parts_at (ks_objs s) next ps cs"
  shows "directory_entry_loop P DISK 0 next t = (if cs = [] then Some (0, t) else None)"
proof -
  have "next = 0 \<longleftrightarrow> cs = []" using assms(2) by (cases cs) (auto simp: parts_at_Nil parts_at_Cons)
  then show ?thesis using heap_ok_null [OF assms(1)] by (subst directory_entry_loop.simps) (simp add: deref)
qed

lemma directory_entry_loop_walk:
  assumes "holding P img cap idle fp B s0 s f it A" "heap_ok s0 B" "parts_at (ks_objs s0) next ps cs"
    "loadable img fp cap it cs"
  shows "walked P img cap idle fp B s0 (walk_from img fp it cs) (directory_entry_loop P DISK f next s) \<or>
    starved P img cap idle fp B s0 cs (directory_entry_loop P DISK f next s)"
  using assms(1,3,4)
proof (induction cs arbitrary: s f it A "next" ps)
  case Nil
  have "next = 0" using Nil.prems(2) by (simp add: parts_at_Nil)
  then have "directory_entry_loop P DISK f next s = Some (f, s)" by (subst directory_entry_loop.simps) simp
  then show ?case using Nil.prems(1) by (auto simp: walked_def)
next
  case (Cons c cs)
  obtain q a nx ps' bs where n: "next = q" "q \<noteq> 0" "ks_objs s0 q = Some (OPart \<lparr>pp_part = a, pp_next = nx\<rparr>)"
    "ks_objs s0 a = Some (OBytes bs)" "terminated bs" "cstr bs = c" "parts_at (ks_objs s0) nx ps' cs"
    using Cons.prems(2) by (auto simp: parts_at_Cons)
  have keep: "ks_objs u p = Some x" if "holding P img cap idle fp B s0 u f' it' A'" "ks_objs s0 p = Some x" "\<forall>y. x \<noteq> OStream y"
    for u f' it' A' p x
  proof (rule evolved_objs [of s0 A'])
    show "p \<notin> A'" using that(1,2) heap_ok_None [OF assms(2), of p] by (auto simp: holding_def)
  qed (use that in \<open>simp_all add: holding_def\<close>)
  have sq: "ks_objs s q = Some (OPart \<lparr>pp_part = a, pp_next = nx\<rparr>)" "ks_objs s a = Some (OBytes bs)"
    using keep [OF Cons.prems(1) n(3)] keep [OF Cons.prems(1) n(4)] by simp_all
  have at: "item_at img fp s f it A" using Cons.prems(1) by (simp add: holding_def)
  show ?case
  proof (cases "is_dir it")
    case False
    obtain t where t: "fat16_item_free f s = Some t" "heap_ok t B" "evolved s0 {} t" "mounted P img cap idle fp t"
      using holding_release [OF Cons.prems(1) assms(2)] by blast
    obtain p where "ks_objs s f = Some (OFatItem \<lparr>fi_shared = p, fi_type = 1\<rparr>)"
      using at False by (auto simp: item_at_def)
    then have "directory_entry_loop P DISK f next s = Some (0, t)"
      using n(1,2) t(1) by (subst directory_entry_loop.simps) (simp add: deref)
    then show ?thesis using False t by (simp add: walked_def)
  next
    case True
    obtain p dir where d: "ks_objs s f = Some (OFatItem \<lparr>fi_shared = p, fi_type = 0\<rparr>)" "ks_objs s p = Some (ODirectory dir)"
      "fat16_find_item_in_directory P DISK dir a s =
        (case find (hit c) (dir_items img fp it) of None \<Rightarrow> Some (0, s)
         | Some it' \<Rightarrow> fat16_new_fat_item_for_directory_item P DISK it' s)"
      using holding_directory [OF Cons.prems(1) True sq(2) n(5)] n(6) by auto
    show ?thesis
    proof (cases "find (hit c) (dir_items img fp it)")
      case None
      obtain t where t: "fat16_item_free f s = Some t" "heap_ok t B" "evolved s0 {} t" "mounted P img cap idle fp t"
        using holding_release [OF Cons.prems(1) assms(2)] by blast
      have "ks_objs t q = Some (OPart \<lparr>pp_part = a, pp_next = nx\<rparr>)" by (rule evolved_objs [OF t(3) _ n(3)]) simp_all
      then have step: "directory_entry_loop P DISK f next s = directory_entry_loop P DISK 0 nx t"
        using n(1,2) d None t(1) sq(1) by (subst directory_entry_loop.simps) (simp add: deref)
      show ?thesis
        using True None t unfolding step directory_entry_loop_null [OF t(2) n(7)] by (simp add: walked_def)
    next
      case (Some it')
      have l: "loadable img fp cap it' cs" using Cons.prems(3) True Some by simp
      have w: "walk_from img fp it (c # cs) = walk_from img fp it' cs" using True Some by simp
      have step: "directory_entry_loop P DISK f next s = directory_entry_loop P DISK f' nx t"
        if "fat16_new_fat_item_for_directory_item P DISK it' s = Some (f', s1)" "fat16_item_free f s1 = Some t"
          "ks_objs t q = Some (OPart \<lparr>pp_part = a, pp_next = nx\<rparr>)" for f' s1 t
        using n(1,2) d Some that sq(1) by (subst directory_entry_loop.simps) (simp add: deref)
      have ld: "is_dir it' \<longrightarrow> dir_ok img fp cap it'" using loadable_dir [OF l] by blast
      from Cons.prems(1) assms(2) ld show ?thesis
      proof (cases rule: holding_next)
        case t: (made f' A' s1 t)
        have "ks_objs t q = Some (OPart \<lparr>pp_part = a, pp_next = nx\<rparr>)" using keep [OF t(3) n(3)] by simp
        note to = step [OF t(1,2) this]
        show ?thesis using Cons.IH [OF t(3) n(7) l] starved_longer unfolding w to by blast
      next
        case t: (null s1 t)
        have r: "heap_ok t B" "evolved s0 {} t" "free_count (ks_heap s0) < 6" using t(3) by (simp_all add: no_room_def)
        have "ks_objs t q = Some (OPart \<lparr>pp_part = a, pp_next = nx\<rparr>)" by (rule evolved_objs [OF r(2) _ n(3)]) simp_all
        note to = step [OF t(1,2) this]
        show ?thesis
          using r(3) t(3) unfolding to directory_entry_loop_null [OF r(1) n(7)]
          by (cases cs) (simp_all add: starved_def)
      qed
    qed
  qed
qed

section \<open>From the root directory\<close>

text \<open>\<open>has_root fp items s\<close>: the root directory of the volume is in memory with the items \<open>items\<close>.\<close>

definition has_root :: "fat_private \<Rightarrow> fat_directory_item list \<Rightarrow> 'd kst \<Rightarrow> bool" where
  "has_root fp items s \<longleftrightarrow> (\<exists>xs. ks_objs s (fd_item (fp_root_directory fp)) = Some (OItems xs) \<and>
     fd_total (fp_root_directory fp) = int (length items) \<and> length items \<le> length xs \<and>
     items = take (length items) xs \<and> (\<forall>it \<in> set xs. item_shape it))"

definition loadable_path ::
  "(nat \<Rightarrow> u8) \<Rightarrow> fat_private \<Rightarrow> nat \<Rightarrow> fat_directory_item list \<Rightarrow> u8 list \<Rightarrow> u8 list list \<Rightarrow> bool" where
  "loadable_path img fp cap items c cs \<longleftrightarrow>
     (case find (hit c) items of None \<Rightarrow> True | Some it \<Rightarrow> loadable img fp cap it cs)"

lemma has_root_evolved: "has_root fp items s \<Longrightarrow> evolved s X t \<Longrightarrow> fd_item (fp_root_directory fp) \<notin> X \<Longrightarrow> has_root fp items t"
  by (auto simp: has_root_def intro!: evolved_objs [of s X t])

lemma holding_start:
  assumes "heap_ok s B" "mounted P img cap idle fp s" "is_dir it \<longrightarrow> dir_ok img fp cap it"
  obtains (made) f A t where "fat16_new_fat_item_for_directory_item P DISK it s = Some (f, t)"
      "holding P img cap idle fp B s t f it A" "f \<noteq> 0"
  | (null) t where "fat16_new_fat_item_for_directory_item P DISK it s = Some (0, t)" "no_room P img cap idle fp B 3 s t"
  using new_item_any [OF assms] item_at_finite by (fastforce simp: holding_def)

lemma directory_entry_walk:
  assumes "heap_ok s B" "mounted P img cap idle fp s" "has_root fp items s" "parts_at (ks_objs s) path ps (c # cs)"
    "loadable_path img fp cap items c cs"
  shows "walked P img cap idle fp B s (walk_root img fp items c cs) (fat16_get_directory_entry P DISK path s) \<or>
    starved P img cap idle fp B s cs (fat16_get_directory_entry P DISK path s)"
proof -
  obtain a nx ps' bs where n: "ks_objs s path = Some (OPart \<lparr>pp_part = a, pp_next = nx\<rparr>)"
    "ks_objs s a = Some (OBytes bs)" "terminated bs" "cstr bs = c" "parts_at (ks_objs s) nx ps' cs"
    using assms(4) by (auto simp: parts_at_Cons)
  obtain xs where xs: "ks_objs s (fd_item (fp_root_directory fp)) = Some (OItems xs)"
    "fd_total (fp_root_directory fp) = int (length items)" "length items \<le> length xs"
    "take (length items) xs = items" "\<forall>it \<in> set xs. item_shape it"
    using assms(3) by (auto simp: has_root_def)
  have priv: "ks_objs s (dk_fs_private (ks_disk s)) = Some (OPrivate fp)" using assms(2) by (simp add: mounted_def)
  have f: "fat16_find_item_in_directory P DISK (fp_root_directory fp) a s =
      (case find (hit c) items of None \<Rightarrow> Some (0, s) | Some it \<Rightarrow> fat16_new_fat_item_for_directory_item P DISK it s)"
    using find_item_eq [OF xs(2,3) _ n(2,3) xs(5), of P DISK] xs(1,4) n(4) by simp
  show ?thesis
  proof (cases "find (hit c) items")
    case None
    then have "fat16_get_directory_entry P DISK path s = Some (0, s)"
      using f n(1) priv by (simp add: fat16_get_directory_entry_def disk_of_def deref)
    then show ?thesis using None assms(1,2) evolved_refl by (auto simp: walk_root_def walked_def)
  next
    case (Some it)
    have l: "loadable img fp cap it cs" using assms(5) Some by (simp add: loadable_path_def)
    have w: "walk_root img fp items c cs = walk_from img fp it cs" using Some by (simp add: walk_root_def)
    have ld: "is_dir it \<longrightarrow> dir_ok img fp cap it" using loadable_dir [OF l] by blast
    from assms(1,2) ld show ?thesis
    proof (cases rule: holding_start)
      case t: (made f0 A t)
      have "path \<notin> A" using t(2) n(1) heap_ok_None [OF assms(1), of path] by (auto simp: holding_def)
      then have "ks_objs t path = Some (OPart \<lparr>pp_part = a, pp_next = nx\<rparr>)"
        using t(2) n(1) by (intro evolved_objs [of s A t]) (simp_all add: holding_def)
      then have step: "fat16_get_directory_entry P DISK path s = directory_entry_loop P DISK f0 nx t"
        using Some f n(1) priv t(1,3) by (simp add: fat16_get_directory_entry_def disk_of_def deref)
      show ?thesis using directory_entry_loop_walk [OF t(2) assms(1) n(5) l] unfolding w step .
    next
      case t: (null t)
      then have "fat16_get_directory_entry P DISK path s = Some (0, t)"
        using Some f n(1) priv by (simp add: fat16_get_directory_entry_def disk_of_def deref)
      then show ?thesis using t(2) by (simp add: starved_def no_room_def)
    qed
  qed
qed

lemma walked_room:
  "walked P img cap idle fp B s w r \<or> starved P img cap idle fp B s cs r \<Longrightarrow> 6 \<le> free_count (ks_heap s) \<Longrightarrow>
   walked P img cap idle fp B s w r"
  by (auto simp: starved_def no_room_def)

section \<open>Two paths on the demo volume\<close>

text \<open>The demo kernel with the parsed paths \<open>HELLO.TXT\<close> and \<open>D/X/Y\<close> in memory.\<close>

definition hello_name :: "u8 list" where
  "hello_name = [0x68, 0x65, 0x6C, 0x6C, 0x6F, 0x2E, 0x74, 0x78, 0x74]"

definition demo_paths :: "sim_disk kst" where
  "demo_paths = demo_state
     \<lparr>ks_heap := \<lparr>hp_table = \<lparr>ht_entries = Some (replicate 13 0x41 @ replicate 7 0), ht_total = 20\<rparr>, hp_saddr = 0x01000000\<rparr>,
      ks_objs := (ks_objs demo_state)(
        0x01005000 \<mapsto> OPart \<lparr>pp_part = 0x01006000, pp_next = 0\<rparr>, 0x01006000 \<mapsto> OBytes (hello_name @ [0]),
        0x01007000 \<mapsto> OPart \<lparr>pp_part = 0x01008000, pp_next = 0x01009000\<rparr>, 0x01008000 \<mapsto> OBytes [0x64, 0],
        0x01009000 \<mapsto> OPart \<lparr>pp_part = 0x0100A000, pp_next = 0x0100B000\<rparr>, 0x0100A000 \<mapsto> OBytes [0x78, 0],
        0x0100B000 \<mapsto> OPart \<lparr>pp_part = 0x0100C000, pp_next = 0\<rparr>, 0x0100C000 \<mapsto> OBytes [0x79, 0])\<rparr>"

definition demo_paths_owned :: "u32 \<Rightarrow> nat option" where
  "demo_paths_owned = demo_owned(0x01005000 \<mapsto> 1, 0x01006000 \<mapsto> 1, 0x01007000 \<mapsto> 1, 0x01008000 \<mapsto> 1,
     0x01009000 \<mapsto> 1, 0x0100A000 \<mapsto> 1, 0x0100B000 \<mapsto> 1, 0x0100C000 \<mapsto> 1)"

definition demo_items :: "fat_directory_item list" where
  "demo_items = [decode_item (slice demo_img 153088 32), decode_item (slice demo_img 153120 32)]"

lemma owns_step:
  "heap_owns h B \<Longrightarrow> heap_malloc h 8 = Some (p, h') \<Longrightarrow> p \<noteq> 0 \<Longrightarrow> heap_owns h' (B(p \<mapsto> 1))"
  using kernel.alloc_rep [of h B 8 p h'] by (simp add: blocks_of_def)

lemma demo_paths_heap_ok: "heap_ok demo_paths demo_paths_owned" "free_count (ks_heap demo_paths) = 7"
proof -
  let ?h = "\<lambda>k. \<lparr>hp_table = \<lparr>ht_entries = Some (replicate k 0x41 @ replicate (20 - k) 0), ht_total = 20\<rparr>, hp_saddr = 0x01000000\<rparr>"
  have r: "heap_malloc (?h 5) 8 = Some (0x01005000, ?h 6)" "heap_malloc (?h 6) 8 = Some (0x01006000, ?h 7)"
    "heap_malloc (?h 7) 8 = Some (0x01007000, ?h 8)" "heap_malloc (?h 8) 8 = Some (0x01008000, ?h 9)"
    "heap_malloc (?h 9) 8 = Some (0x01009000, ?h 10)" "heap_malloc (?h 10) 8 = Some (0x0100A000, ?h 11)"
    "heap_malloc (?h 11) 8 = Some (0x0100B000, ?h 12)" "heap_malloc (?h 12) 8 = Some (0x0100C000, ?h 13)"
    by code_simp+
  have "heap_owns (?h 5) demo_owned" using demo_heap_ok by (simp add: heap_ok_def demo_state_def demo_heap_def)
  from owns_step [OF owns_step [OF owns_step [OF owns_step [OF owns_step [OF owns_step [OF owns_step [OF owns_step
    [OF this r(1)] r(2)] r(3)] r(4)] r(5)] r(6)] r(7)] r(8)]
  have "heap_owns (ks_heap demo_paths) demo_paths_owned" by (simp add: demo_paths_def demo_paths_owned_def)
  then show "heap_ok demo_paths demo_paths_owned"
    using demo_heap_ok by (auto simp: heap_ok_def demo_paths_def demo_paths_owned_def)
  show "free_count (ks_heap demo_paths) = 7" by (simp add: demo_paths_def free_count_def)
qed

lemma demo_paths_mounted: "mounted (sim_ports demo_img) demo_img 4000 sim_idle demo_fp demo_paths"
  by (rule mounted_cong [OF demo_mounted]) (auto simp: demo_paths_def demo_state_def stream_at_def)

lemma slice_part: "k + n \<le> m \<Longrightarrow> take n (drop k (slice img a m)) = slice img (a + k) n"
  by (rule nth_equalityI) (auto simp: slice_def add.assoc)

lemma slice_unfold: "slice img a 0 = []" "slice img a (Suc 0) = [img a]" "slice img a (numeral k) = img a # slice img (a + 1) (pred_numeral k)"
proof -
  have "slice img a (Suc n) = img a # slice img (a + 1) n" for n
    by (simp add: slice_def upt_conv_Cons del: upt_Suc)
  then show "slice img a (Suc 0) = [img a]" "slice img a (numeral k) = img a # slice img (a + 1) (pred_numeral k)"
    by (simp_all add: numeral_eq_Suc slice_def)
qed (simp add: slice_def)

lemma take_decode_items: "n \<le> length bs div 32 \<Longrightarrow> take n (decode_items bs) = map (\<lambda>i. decode_item (take 32 (drop (32 * i) bs))) [0..<n]"
  by (simp add: decode_items_def take_map)

lemma demo_root_items: "take 2 (decode_items (slice demo_img 153088 512)) = demo_items"
proof -
  have "length (slice demo_img 153088 512) div 32 = 16" by simp
  moreover have "take 32 (slice demo_img 153088 512) = slice demo_img 153088 32"
    using slice_part [of 0 32 512 demo_img 153088] by simp
  ultimately show ?thesis
    by (simp add: take_decode_items upt_rec [of 0] upt_rec [of 1] slice_part demo_items_def numeral_2_eq_2)
qed

lemma demo_has_root: "has_root demo_fp demo_items demo_paths"
proof -
  have "length demo_items = 2" by (simp add: demo_items_def)
  then show ?thesis
    unfolding has_root_def
    by (intro exI [of _ "decode_items (slice demo_img 153088 512)"])
      (auto simp: demo_fp_def demo_paths_def demo_state_def length_decode_items decode_items_shape demo_root_items)
qed

lemma demo_parts:
  "parts_at (ks_objs demo_paths) 0x01005000 [(0x01005000, 0x01006000)] [hello_name]"
  "parts_at (ks_objs demo_paths) 0x01007000 [(0x01007000, 0x01008000), (0x01009000, 0x0100A000), (0x0100B000, 0x0100C000)]
     [[0x64], [0x78], [0x79]]"
  by (simp_all add: demo_paths_def hello_name_def terminated_def)

lemma demo_find:
  "find (hit hello_name) demo_items = Some (decode_item (slice demo_img 153088 32))"
  "find (hit [0x64]) demo_items = Some (decode_item (slice demo_img 153120 32))"
  "\<not> is_dir (decode_item (slice demo_img 153088 32))" "is_dir (decode_item (slice demo_img 153120 32))"
  "find (hit [0x79]) demo_items = None"
proof -
  have g: "slice demo_img 153088 8 = [72, 69, 76, 76, 79, 32, 32, 32]" "slice demo_img 153096 3 = [84, 88, 84]"
    "slice demo_img 153120 8 = [68, 32, 0, 0, 0, 0, 0, 0]" "slice demo_img 153128 3 = [32, 0, 0]"
    by (simp_all add: slice_unfold demo_bytes_def)
  have f: "take 8 (slice demo_img 153088 32) = [72, 69, 76, 76, 79, 32, 32, 32]"
    "take 3 (drop 8 (slice demo_img 153088 32)) = [84, 88, 84]"
    "take 8 (slice demo_img 153120 32) = [68, 32, 0, 0, 0, 0, 0, 0]"
    "take 3 (drop 8 (slice demo_img 153120 32)) = [32, 0, 0]"
    by (simp_all add: slice_part slice_part [where k = 0, simplified] g)
  show "find (hit hello_name) demo_items = Some (decode_item (slice demo_img 153088 32))"
    by (simp add: demo_items_def hit_def same_text_tolower decode_item_def f item_name_def trim_def hello_name_def tolower_def demo_bytes_def)
  show "find (hit [0x64]) demo_items = Some (decode_item (slice demo_img 153120 32))"
    by (simp add: demo_items_def hit_def same_text_tolower decode_item_def f item_name_def trim_def tolower_def demo_bytes_def)
  show "find (hit [0x79]) demo_items = None"
    by (simp add: demo_items_def hit_def same_text_tolower decode_item_def f item_name_def trim_def tolower_def demo_bytes_def)
qed (simp_all add: is_dir_def decode_item_def demo_bytes_def)

lemma demo_directory:
  "dir_items demo_img demo_fp (decode_item (slice demo_img 153120 32)) = [decode_item (slice demo_img 154624 32)]"
  "dir_ok demo_img demo_fp 4000 (decode_item (slice demo_img 153120 32))"
proof -
  let ?d = "decode_item (slice demo_img 153120 32)"
  have c: "fat16_get_first_cluster ?d = 4"
    unfolding fat16_get_first_cluster_def by (simp add: decode_item_def field16_def le16_def demo_bytes_def i32_id)
  have k: "contents demo_img demo_fp 4 i = demo_img (154624 + i)" if "i < 512" for i
    using that by (simp add: contents_def demo_geometry cluster_pos_def)
  have e: "(129 :: nat) = Suc (Suc 127)" by simp
  have n: "dir_count demo_img demo_fp ?d = 1"
    unfolding dir_count_def dir_cluster_def c e entries_used.simps by (simp add: k demo_bytes_def)
  have "slice (contents demo_img demo_fp 4) 0 32 = slice demo_img 154624 32"
    by (rule nth_equalityI) (simp_all add: k)
  then show "dir_items demo_img demo_fp ?d = [decode_item (slice demo_img 154624 32)]"
    by (simp add: dir_items_def n dir_cluster_def c decode_items_def)
  show "dir_ok demo_img demo_fp 4000 ?d"
    unfolding dir_ok_def n dir_cluster_def c by (simp add: demo_chain_covers)
qed

lemma demo_walk:
  "loadable_path demo_img demo_fp 4000 demo_items hello_name []"
  "loadable_path demo_img demo_fp 4000 demo_items [0x64] [[0x78], [0x79]]"
  "walk_root demo_img demo_fp demo_items hello_name [] \<noteq> Null_Item"
  "walk_root demo_img demo_fp demo_items [0x64] [[0x78], [0x79]] = Null_Item"
proof -
  have g: "slice demo_img 154624 8 = [65, 0, 0, 0, 0, 0, 0, 0]" "slice demo_img 154632 3 = [0, 0, 0]"
    by (simp_all add: slice_unfold demo_bytes_def)
  have "\<not> hit [0x78] (decode_item (slice demo_img 154624 32))"
    by (simp add: hit_def same_text_tolower decode_item_def slice_part slice_part [where k = 0, simplified] g item_name_def trim_def tolower_def)
  then show "loadable_path demo_img demo_fp 4000 demo_items hello_name []"
    "loadable_path demo_img demo_fp 4000 demo_items [0x64] [[0x78], [0x79]]"
    "walk_root demo_img demo_fp demo_items hello_name [] \<noteq> Null_Item"
    "walk_root demo_img demo_fp demo_items [0x64] [[0x78], [0x79]] = Null_Item"
    by (simp_all add: loadable_path_def walk_root_def demo_find demo_directory)
qed

section \<open>Properties\<close>

text \<open>
  C6. On a mounted volume with six free blocks, \<open>fat16_get_directory_entry\<close> agrees with the
  path lookup on the disk (names compared without case): it returns a new item for the
  entry the path denotes, a loaded directory or a copy of a file's entry, and null when
  there is none, unless a directory in the middle of the path is missing; every item it
  made on the way is freed again and the volume stays mounted.
\<close>

theorem directory_entry_lookup:
  assumes "heap_ok s B" "mounted P img cap idle fp s" "has_root fp items s" "parts_at (ks_objs s) path ps (c # cs)"
    "6 \<le> free_count (ks_heap s)" "loadable_path img fp cap items c cs" "walk_root img fp items c cs \<noteq> Null_Item"
  shows "case lookup img fp items (c # cs) of
      Some it \<Rightarrow> \<exists>f A t. fat16_get_directory_entry P DISK path s = Some (f, t) \<and> item_at img fp t f it A \<and>
        heap_ok t (with_blocks B A) \<and> (\<forall>a \<in> A. B a = None) \<and> evolved s A t \<and> mounted P img cap idle fp t
    | None \<Rightarrow> \<exists>t. fat16_get_directory_entry P DISK path s = Some (0, t) \<and> heap_ok t B \<and> evolved s {} t \<and>
        mounted P img cap idle fp t"
proof -
  have w: "walked P img cap idle fp B s (walk_root img fp items c cs) (fat16_get_directory_entry P DISK path s)"
    by (rule walked_room [OF directory_entry_walk [OF assms(1-4,6)] assms(5)])
  show ?thesis
  proof (cases "lookup img fp items (c # cs)")
    case None
    then have "walk_root img fp items c cs = Missing"
      using assms(7) walk_root_lookup [of img fp items c cs] by (cases "walk_root img fp items c cs") auto
    then show ?thesis using w None by (simp add: walked_def)
  next
    case (Some it)
    then have "walk_root img fp items c cs = Found it" by (simp only: walk_root_lookup)
    then show ?thesis using w Some by (auto simp: walked_def holding_def)
  qed
qed

theorem directory_entry_lookup_witness:
  "case lookup demo_img demo_fp demo_items [hello_name] of
      Some it \<Rightarrow> \<exists>f A t. fat16_get_directory_entry (sim_ports demo_img) DISK 0x01005000 demo_paths = Some (f, t) \<and>
        item_at demo_img demo_fp t f it A \<and> heap_ok t (with_blocks demo_paths_owned A) \<and>
        (\<forall>a \<in> A. demo_paths_owned a = None) \<and> evolved demo_paths A t \<and>
        mounted (sim_ports demo_img) demo_img 4000 sim_idle demo_fp t
    | None \<Rightarrow> \<exists>t. fat16_get_directory_entry (sim_ports demo_img) DISK 0x01005000 demo_paths = Some (0, t) \<and>
        heap_ok t demo_paths_owned \<and> evolved demo_paths {} t \<and> mounted (sim_ports demo_img) demo_img 4000 sim_idle demo_fp t"
  by (rule directory_entry_lookup [OF demo_paths_heap_ok(1) demo_paths_mounted demo_has_root demo_parts(1) _ demo_walk(1,3)])
    (simp add: demo_paths_heap_ok)

text \<open>
  C31. When a directory in the middle of a path does not exist, the loop goes on with the
  null item and dereferences it: \<open>fat16_get_directory_entry\<close> does not return.
\<close>

theorem missing_directory_dereferenced:
  assumes "heap_ok s B" "mounted P img cap idle fp s" "has_root fp items s" "parts_at (ks_objs s) path ps (c # cs)"
    "6 \<le> free_count (ks_heap s)" "loadable_path img fp cap items c cs" "walk_root img fp items c cs = Null_Item"
  shows "fat16_get_directory_entry P DISK path s = None"
  using walked_room [OF directory_entry_walk [OF assms(1-4,6)] assms(5)] assms(7) by (simp add: walked_def)

theorem missing_directory_dereferenced_witness:
  "fat16_get_directory_entry (sim_ports demo_img) DISK 0x01007000 demo_paths = None"
  by (rule missing_directory_dereferenced [OF demo_paths_heap_ok(1) demo_paths_mounted demo_has_root demo_parts(2) _ demo_walk(2,4)])
    (simp add: demo_paths_heap_ok)

end
