(* ===== verification/File_Contract.thy ===== *)
theory File_Contract
  imports Base
begin

text \<open>
  What \<open>src/fs/file.h\<close> expects of the operations in a \<open>struct filesystem\<close>: an open file is
  a byte sequence and a position, and \<open>read\<close> and \<open>seek\<close> act on the pair. The locale
  \<open>file_provider\<close> states this for one operation, \<open>file_session\<close> adds opening and closing;
  their lemmas carry it over to sequences of operations. FAT16 is an interpretation in
  \<open>Fat16_File\<close>, the descriptor layer in \<open>File_Layer\<close>.
\<close>

section \<open>Sequences of file operations\<close>

text \<open>\<open>Read size nmemb\<close> and \<open>Seek offset whence\<close>; each gives a result and bytes.\<close>

datatype file_op = Read u32 u32 | Seek u32 u32

type_synonym op_result = "int \<times> u8 list"

fun valid_op :: "file_op \<Rightarrow> bool" where
  "valid_op (Read z n) \<longleftrightarrow> z \<noteq> 0 \<and> n \<noteq> 0"
| "valid_op (Seek off m) \<longleftrightarrow> True"

text \<open>The abstract file: the contents, and the position before and after the operation.\<close>

fun file_op_spec :: "u8 list \<Rightarrow> nat \<Rightarrow> file_op \<Rightarrow> op_result \<times> nat" where
  "file_op_spec bs pos (Read z n) =
     (let k = min (unat n) ((length bs - pos) div unat z) in
      ((int k, take (k * unat z) (drop pos bs)), pos + k * unat z))"
| "file_op_spec bs pos (Seek off m) =
     (let target = (if m = 0 then Some (unat off) else if m = 1 then Some (pos + unat off) else None) in
      case target of
        Some q \<Rightarrow> if q \<le> length bs then ((0, []), q) else ((- EIO, []), pos)
      | None \<Rightarrow> ((if m = 2 then - EUNIMP else - EINVARG, []), pos))"

fun file_run_spec :: "u8 list \<Rightarrow> nat \<Rightarrow> file_op list \<Rightarrow> op_result list" where
  "file_run_spec bs pos [] = []"
| "file_run_spec bs pos (x # xs) = (let (r, pos') = file_op_spec bs pos x in r # file_run_spec bs pos' xs)"

text \<open>The same sequence on an implementation.\<close>

fun do_op ::
  "('h \<Rightarrow> u32 \<Rightarrow> u32 \<Rightarrow> 's \<Rightarrow> (int \<times> u8 list \<times> 's) option) \<Rightarrow> ('h \<Rightarrow> u32 \<Rightarrow> u32 \<Rightarrow> 's \<Rightarrow> (int \<times> 's) option) \<Rightarrow>
   'h \<Rightarrow> file_op \<Rightarrow> 's \<Rightarrow> (op_result \<times> 's) option" where
  "do_op rd sk h (Read z n) s = do { (r, bs, t) \<leftarrow> rd h z n s; Some ((r, bs), t) }"
| "do_op rd sk h (Seek off m) s = do { (r, t) \<leftarrow> sk h off m s; Some ((r, []), t) }"

fun run_ops ::
  "('h \<Rightarrow> u32 \<Rightarrow> u32 \<Rightarrow> 's \<Rightarrow> (int \<times> u8 list \<times> 's) option) \<Rightarrow> ('h \<Rightarrow> u32 \<Rightarrow> u32 \<Rightarrow> 's \<Rightarrow> (int \<times> 's) option) \<Rightarrow>
   'h \<Rightarrow> file_op list \<Rightarrow> 's \<Rightarrow> (op_result list \<times> 's) option" where
  "run_ops rd sk h [] s = Some ([], s)"
| "run_ops rd sk h (x # xs) s = do {
     (r, s1) \<leftarrow> do_op rd sk h x s;
     (rs, s2) \<leftarrow> run_ops rd sk h xs s1;
     Some (r # rs, s2) }"

definition file_run ::
  "('s \<Rightarrow> ('h \<times> 's) option) \<Rightarrow> ('h \<Rightarrow> u32 \<Rightarrow> u32 \<Rightarrow> 's \<Rightarrow> (int \<times> u8 list \<times> 's) option) \<Rightarrow>
   ('h \<Rightarrow> u32 \<Rightarrow> u32 \<Rightarrow> 's \<Rightarrow> (int \<times> 's) option) \<Rightarrow> ('h \<Rightarrow> 's \<Rightarrow> (int \<times> 's) option) \<Rightarrow>
   file_op list \<Rightarrow> 's \<Rightarrow> (op_result list \<times> int \<times> 's) option" where
  "file_run op rd sk cl xs s = do {
     (h, s1) \<leftarrow> op s;
     (rs, s2) \<leftarrow> run_ops rd sk h xs s1;
     (r, s3) \<leftarrow> cl h s2;
     Some (rs, r, s3) }"

lemma file_op_spec_bound: "pos \<le> length bs \<Longrightarrow> snd (file_op_spec bs pos x) \<le> length bs"
proof (cases x)
  case (Read z n)
  assume p: "pos \<le> length bs"
  let ?k = "min (unat n) ((length bs - pos) div unat z)"
  have "?k * unat z \<le> (length bs - pos) div unat z * unat z" by (intro mult_right_mono) simp_all
  then have "?k * unat z \<le> length bs - pos" using div_times_less_eq_dividend le_trans by blast
  then show ?thesis using p Read by (simp add: Let_def)
qed (auto simp: Let_def split: option.splits)

section \<open>The contract\<close>

locale file_provider =
  fixes is_open :: "'h \<Rightarrow> 's \<Rightarrow> u8 list \<Rightarrow> nat \<Rightarrow> bool"
    and rd :: "'h \<Rightarrow> u32 \<Rightarrow> u32 \<Rightarrow> 's \<Rightarrow> (int \<times> u8 list \<times> 's) option"
    and sk :: "'h \<Rightarrow> u32 \<Rightarrow> u32 \<Rightarrow> 's \<Rightarrow> (int \<times> 's) option"
  assumes in_bounds: "is_open h s bs pos \<Longrightarrow> pos \<le> length bs"
    and rd_law: "is_open h s bs pos \<Longrightarrow> z \<noteq> 0 \<Longrightarrow> n \<noteq> 0 \<Longrightarrow> k = min (unat n) ((length bs - pos) div unat z) \<Longrightarrow>
      \<exists>t. rd h z n s = Some (int k, take (k * unat z) (drop pos bs), t) \<and> is_open h t bs (pos + k * unat z)"
    and sk_set: "is_open h s bs pos \<Longrightarrow> unat off \<le> length bs \<Longrightarrow>
      \<exists>t. sk h off 0 s = Some (0, t) \<and> is_open h t bs (unat off)"
    and sk_cur: "is_open h s bs pos \<Longrightarrow> pos + unat off \<le> length bs \<Longrightarrow>
      \<exists>t. sk h off 1 s = Some (0, t) \<and> is_open h t bs (pos + unat off)"
    and sk_refused: "is_open h s bs pos \<Longrightarrow> m = 0 \<and> length bs < unat off \<or> m = 1 \<and> length bs < pos + unat off \<or> m \<noteq> 0 \<and> m \<noteq> 1 \<Longrightarrow>
      sk h off m s = Some (if m = 0 \<or> m = 1 then - EIO else if m = 2 then - EUNIMP else - EINVARG, s)"
begin

lemma step_refines:
  assumes "is_open h s bs pos" "valid_op x"
  shows "\<exists>t. do_op rd sk h x s = Some (fst (file_op_spec bs pos x), t) \<and> is_open h t bs (snd (file_op_spec bs pos x))"
proof (cases x)
  case (Read z n)
  then show ?thesis using rd_law [OF assms(1), of z n] assms(2) by (auto simp: Let_def)
next
  case (Seek off m)
  consider "m = 0" "unat off \<le> length bs" | "m = 1" "pos + unat off \<le> length bs"
    | "m = 0 \<and> length bs < unat off \<or> m = 1 \<and> length bs < pos + unat off \<or> m \<noteq> 0 \<and> m \<noteq> 1"
    by fastforce
  then show ?thesis
  proof cases
    case 1 then show ?thesis using sk_set [OF assms(1) 1(2)] Seek by auto
  next
    case 2 then show ?thesis using sk_cur [OF assms(1) 2(2)] Seek by auto
  next
    case 3
    then show ?thesis using sk_refused [OF assms(1) 3] assms(1) Seek 3 by (auto simp: Let_def)
  qed
qed

lemma run_refines:
  assumes "is_open h s bs pos" "\<forall>x \<in> set xs. valid_op x"
  shows "\<exists>t pos'. run_ops rd sk h xs s = Some (file_run_spec bs pos xs, t) \<and> is_open h t bs pos'"
  using assms
proof (induction xs arbitrary: s pos)
  case Nil
  then show ?case by auto
next
  case (Cons x xs)
  obtain t where t: "do_op rd sk h x s = Some (fst (file_op_spec bs pos x), t)" "is_open h t bs (snd (file_op_spec bs pos x))"
    using step_refines [OF Cons.prems(1)] Cons.prems(2) by auto
  obtain u pos' where u: "run_ops rd sk h xs t = Some (file_run_spec bs (snd (file_op_spec bs pos x)) xs, u)" "is_open h u bs pos'"
    using Cons.IH [OF t(2)] Cons.prems(2) by auto
  have "run_ops rd sk h (x # xs) s = Some (file_run_spec bs pos (x # xs), u)"
    using t(1) u(1) by (simp add: split_def Let_def)
  then show ?case using u(2) by blast
qed

text \<open>From the start, one read of single bytes returns the whole file.\<close>

lemma reads_all:
  assumes "is_open h s bs 0" "length bs \<le> unat n" "n \<noteq> 0"
  shows "\<exists>t. rd h 1 n s = Some (int (length bs), bs, t) \<and> is_open h t bs (length bs)"
  using rd_law [OF assms(1), of 1 n "length bs"] assms(2,3) by auto

end

locale file_session = file_provider is_open rd sk
  for is_open :: "'h \<Rightarrow> 's \<Rightarrow> u8 list \<Rightarrow> nat \<Rightarrow> bool" and rd sk +
  fixes op :: "'s \<Rightarrow> ('h \<times> 's) option" and cl :: "'h \<Rightarrow> 's \<Rightarrow> (int \<times> 's) option"
    and holds :: "'s \<Rightarrow> u8 list \<Rightarrow> bool" and closed :: "'s \<Rightarrow> bool"
  assumes op_law: "holds s bs \<Longrightarrow> \<exists>h t. op s = Some (h, t) \<and> is_open h t bs 0"
    and cl_law: "is_open h s bs pos \<Longrightarrow> \<exists>t. cl h s = Some (0, t) \<and> closed t"
begin

lemma session_refines:
  assumes "holds s bs" "\<forall>x \<in> set xs. valid_op x"
  shows "\<exists>t. file_run op rd sk cl xs s = Some (file_run_spec bs 0 xs, 0, t) \<and> closed t"
proof -
  obtain h s1 where s1: "op s = Some (h, s1)" "is_open h s1 bs 0" using op_law [OF assms(1)] by blast
  obtain s2 pos where s2: "run_ops rd sk h xs s1 = Some (file_run_spec bs 0 xs, s2)" "is_open h s2 bs pos"
    using run_refines [OF s1(2) assms(2)] by blast
  obtain t where "cl h s2 = Some (0, t)" "closed t" using cl_law [OF s2(2)] by blast
  then show ?thesis using s1(1) s2(1) by (simp add: file_run_def)
qed

end

end
