(* ===== verification/Fat16_File.thy ===== *)
theory Fat16_File
  imports Fat16_Directory File_Contract
begin

text \<open>
  Open files: \<open>src/fs/fat/fat16.c\<close>, lines 633 to 786, the operations FAT16 registers in its
  \<open>struct filesystem\<close>, and the contract \<open>src/fs/file.h\<close> expects of them, as the locale
  \<open>file_provider\<close>, interpreted on the operations of FAT16.
\<close>

section \<open>Operations\<close>

text \<open>\<open>src/fs/file.h\<close>, lines 10 to 44\<close>

abbreviation (input) SEEK_SET :: u32 where "SEEK_SET \<equiv> 0"
abbreviation (input) SEEK_CUR :: u32 where "SEEK_CUR \<equiv> 1"
abbreviation (input) SEEK_END :: u32 where "SEEK_END \<equiv> 2"
abbreviation (input) FILE_MODE_READ :: u32 where "FILE_MODE_READ \<equiv> 0"
abbreviation (input) FILE_MODE_WRITE :: u32 where "FILE_MODE_WRITE \<equiv> 1"
abbreviation (input) FILE_MODE_APPEND :: u32 where "FILE_MODE_APPEND \<equiv> 2"
abbreviation (input) FILE_MODE_INVALID :: u32 where "FILE_MODE_INVALID \<equiv> 3"
abbreviation (input) FILE_STAT_READ_ONLY :: u32 where "FILE_STAT_READ_ONLY \<equiv> 1"

record file_stat =
  fs_flags :: u32
  fs_files :: u32
  fs_filesize :: u32

text \<open>The macros \<open>ERROR\<close> and \<open>ISERR\<close> of \<open>src/kernel.h\<close>, on pointers.\<close>

definition ERROR :: "int \<Rightarrow> u32" where
  "ERROR v = word_of_int v"

definition ISERR :: "u32 \<Rightarrow> bool" where
  "ISERR v \<longleftrightarrow> to_int v < 0"

definition fat16_open :: "'d ports \<Rightarrow> disk_ptr \<Rightarrow> u32 \<Rightarrow> u32 \<Rightarrow> 'd kst \<Rightarrow> (u32 \<times> 'd kst) option" where
  "fat16_open P dk path mode s =
     (if dk = DISK_NULL \<or> path = 0 then Some (ERROR (- EINVARG), s)
      else if mode \<noteq> FILE_MODE_READ then Some (ERROR (- ERDONLY), s)
      else do {
        (desc, s1) \<leftarrow> kzalloc 8 as_fat_file s;
        if desc = 0 then Some (ERROR (- ENOMEM), s1)
        else do {
          (item, s2) \<leftarrow> fat16_get_directory_entry P dk path s1;
          ff \<leftarrow> obj_fat_file s2 desc;
          let s3 = store desc (OFatFile (ff\<lparr>ff_item := item\<rparr>)) s2;
          if item = 0 then do { s4 \<leftarrow> kfree desc s3; Some (ERROR (- EIO), s4) }
          else do {
            fi \<leftarrow> obj_fat_item s3 item;
            if fi_type fi \<noteq> FAT_ITEM_TYPE_FILE then do {
              s4 \<leftarrow> fat16_item_free item s3;
              s5 \<leftarrow> kfree desc s4;
              Some (ERROR (- EINVARG), s5) }
            else Some (desc, store desc (OFatFile (ff\<lparr>ff_item := item, ff_pos := 0\<rparr>)) s3) } } })"

text \<open>
  The loop of \<open>fat16_read\<close>; \<open>n\<close> is \<open>nmemb - i\<close>. The result carries \<open>res\<close>, the new \<open>offset\<close> and
  \<open>read_count\<close>, and the bytes stored from \<open>out_ptr\<close> on.
\<close>

fun fat16_read_loop ::
  "'d ports \<Rightarrow> disk_ptr \<Rightarrow> u32 \<Rightarrow> u32 \<Rightarrow> nat \<Rightarrow> u32 \<Rightarrow> u32 \<Rightarrow> 'd kst \<Rightarrow>
   (int \<times> u32 \<times> u32 \<times> u8 list \<times> 'd kst) option" where
  "fat16_read_loop P dk item size1 0 offset read_count s = Some (0, offset, read_count, [], s)"
| "fat16_read_loop P dk item size1 (Suc n) offset read_count s = do {
     items \<leftarrow> obj_items s item;
     it \<leftarrow> at_idx items 0;
     if offset \<ge> di_filesize it \<or> size1 > di_filesize it - offset then Some (0, offset, read_count, [], s)
     else do {
       (res, bytes, s1) \<leftarrow> fat16_read_internal P dk (fat16_get_first_cluster it) (to_int offset) (to_int size1) s;
       if res < 0 then Some (res, offset, read_count, bytes, s1)
       else do {
         (res', offset', read_count', rest, s2) \<leftarrow>
           fat16_read_loop P dk item size1 n (offset + size1) (read_count + 1) s1;
         Some (res', offset', read_count', bytes @ rest, s2) } } }"

definition fat16_read ::
  "'d ports \<Rightarrow> disk_ptr \<Rightarrow> u32 \<Rightarrow> u32 \<Rightarrow> u32 \<Rightarrow> u32 \<Rightarrow> 'd kst \<Rightarrow> (int \<times> u8 list \<times> 'd kst) option" where
  "fat16_read P dk desc size1 nmemb out_ptr s =
     (if size1 = 0 \<or> nmemb = 0 then Some (0, [], s)
      else if desc = 0 then Some (- EINVARG, [], s)
      else do {
        fat_desc \<leftarrow> obj_fat_file s desc;
        if ff_item fat_desc = 0 then Some (- EINVARG, [], s)
        else do {
          fi \<leftarrow> obj_fat_item s (ff_item fat_desc);
          if fi_type fi \<noteq> FAT_ITEM_TYPE_FILE \<or> out_ptr = 0 then Some (- EINVARG, [], s)
          else do {
            (res, offset, read_count, bytes, s1) \<leftarrow>
              fat16_read_loop P dk (fi_shared fi) size1 (unat nmemb) (ff_pos fat_desc) 0 s;
            if res < 0 then Some (res, bytes, s1)
            else do {
              fd1 \<leftarrow> obj_fat_file s1 desc;
              Some (to_int read_count, bytes, store desc (OFatFile (fd1\<lparr>ff_pos := offset\<rparr>)) s1) } } } })"

text \<open>The \<open>switch\<close> of \<open>fat16_seek\<close>: \<open>res\<close> and \<open>new_pos\<close>.\<close>

definition seek_target :: "u32 \<Rightarrow> u32 \<Rightarrow> u32 \<Rightarrow> u32 \<Rightarrow> int \<times> u32" where
  "seek_target seek_mode offset pos filesize =
     (if seek_mode = SEEK_SET then (0, offset)
      else if seek_mode = SEEK_END then (- EUNIMP, pos)
      else if seek_mode = SEEK_CUR then
        (if pos > filesize then (- EIO, pos)
         else if offset > filesize - pos then (- EIO, pos)
         else (0, pos + offset))
      else (- EINVARG, pos))"

definition fat16_seek :: "u32 \<Rightarrow> u32 \<Rightarrow> u32 \<Rightarrow> 'd kst \<Rightarrow> (int \<times> 'd kst) option" where
  "fat16_seek private offset seek_mode s =
     (if private = 0 then Some (- EINVARG, s)
      else do {
        desc \<leftarrow> obj_fat_file s private;
        if ff_item desc = 0 then Some (- EINVARG, s)
        else do {
          desc_item \<leftarrow> obj_fat_item s (ff_item desc);
          if fi_type desc_item \<noteq> FAT_ITEM_TYPE_FILE then Some (- EINVARG, s)
          else do {
            items \<leftarrow> obj_items s (fi_shared desc_item);
            ritem \<leftarrow> at_idx items 0;
            let (res, new_pos) = seek_target seek_mode offset (ff_pos desc) (di_filesize ritem);
            if res = SAMOS_ALL_OK then
              if new_pos > di_filesize ritem then Some (- EIO, s)
              else Some (res, store private (OFatFile (desc\<lparr>ff_pos := new_pos\<rparr>)) s)
            else Some (res, s) } } })"

text \<open>\<open>fat16_stat\<close>; the caller's \<open>stat\<close> is an argument, None for a null pointer.\<close>

definition fat16_stat ::
  "disk_ptr \<Rightarrow> u32 \<Rightarrow> file_stat option \<Rightarrow> 'd kst \<Rightarrow> (int \<times> file_stat option \<times> 'd kst) option" where
  "fat16_stat dk private stat s =
     (if private = 0 then Some (- EINVARG, stat, s)
      else do {
        desc \<leftarrow> obj_fat_file s private;
        if ff_item desc = 0 then Some (- EINVARG, stat, s)
        else case stat of None \<Rightarrow> Some (- EINVARG, None, s) | Some st \<Rightarrow> do {
          desc_item \<leftarrow> obj_fat_item s (ff_item desc);
          if fi_type desc_item \<noteq> FAT_ITEM_TYPE_FILE then Some (- EINVARG, stat, s)
          else do {
            items \<leftarrow> obj_items s (fi_shared desc_item);
            ritem \<leftarrow> at_idx items 0;
            let st1 = st\<lparr>fs_filesize := di_filesize ritem, fs_flags := 0\<rparr>;
            let st2 = (if di_attribute ritem AND FAT_FILE_READ_ONLY \<noteq> 0
                       then st1\<lparr>fs_flags := fs_flags st1 OR FILE_STAT_READ_ONLY\<rparr> else st1);
            Some (0, Some st2, s) } } })"

definition fat16_free_file_descriptor :: "u32 \<Rightarrow> 'd kst \<Rightarrow> 'd kst option" where
  "fat16_free_file_descriptor desc s = do {
     ff \<leftarrow> obj_fat_file s desc;
     s1 \<leftarrow> fat16_fat_item_free (ff_item ff) s;
     kfree desc s1 }"

definition fat16_close :: "u32 \<Rightarrow> 'd kst \<Rightarrow> (int \<times> 'd kst) option" where
  "fat16_close private s = do { s1 \<leftarrow> fat16_free_file_descriptor private s; Some (0, s1) }"

section \<open>Reading an open file\<close>

text \<open>\<open>file_at\<close>: at \<open>d\<close> lies the descriptor of the file \<open>it\<close> at position \<open>pos\<close>; it owns \<open>A\<close>.\<close>

definition file_at ::
  "(nat \<Rightarrow> u8) \<Rightarrow> fat_private \<Rightarrow> 'd kst \<Rightarrow> u32 \<Rightarrow> fat_directory_item \<Rightarrow> u32 \<Rightarrow> u32 set \<Rightarrow> bool" where
  "file_at img fp s d it pos A \<longleftrightarrow> d \<noteq> 0 \<and> \<not> is_dir it \<and> (\<exists>f C. A = insert d C \<and> d \<notin> C \<and>
     ks_objs s d = Some (OFatFile \<lparr>ff_item = f, ff_pos = pos\<rparr>) \<and> item_at img fp s f it C)"

definition file_data :: "(nat \<Rightarrow> u8) \<Rightarrow> fat_private \<Rightarrow> fat_directory_item \<Rightarrow> u8 list" where
  "file_data img fp it = slice (contents img fp (dir_cluster it)) 0 (unat (di_filesize it))"

definition file_ok :: "(nat \<Rightarrow> u8) \<Rightarrow> fat_private \<Rightarrow> nat \<Rightarrow> fat_directory_item \<Rightarrow> bool" where
  "file_ok img fp cap it \<longleftrightarrow> 0 \<le> fat16_get_first_cluster it \<and> unat (di_filesize it) < 2147483648 \<and>
     chain_covers img fp cap (dir_cluster it) (unat (di_filesize it))"

lemma length_file_data [simp]: "length (file_data img fp it) = unat (di_filesize it)"
  by (simp add: file_data_def)

lemma file_data_part:
  "o1 + n \<le> unat (di_filesize it) \<Longrightarrow> take n (drop o1 (file_data img fp it)) = slice (contents img fp (dir_cluster it)) o1 n"
  by (simp add: file_data_def slice_part)

lemma file_atE:
  assumes "file_at img fp s d it pos A"
  obtains f C p where "d \<noteq> 0" "f \<noteq> 0" "p \<noteq> 0" "A = insert d C" "d \<notin> C" "ks_objs s d = Some (OFatFile \<lparr>ff_item = f, ff_pos = pos\<rparr>)"
    "item_at img fp s f it C" "ks_objs s f = Some (OFatItem \<lparr>fi_shared = p, fi_type = 1\<rparr>)" "ks_objs s p = Some (OItems [it])"
  using assms by (auto simp: file_at_def item_at_def)

lemma file_at_items: "file_at img fp s d it pos A \<Longrightarrow> a \<in> A \<Longrightarrow>
    \<exists>x. ks_objs s a = Some x \<and> (\<forall>q. x \<noteq> OStream q) \<and> (\<forall>q. x \<noteq> OPrivate q)"
  using item_at_not_stream by (fastforce simp: file_at_def)

lemma read_loop_step:
  assumes "ks_objs s p = Some (OItems [it])" "\<not> offset \<ge> di_filesize it" "\<not> size1 > di_filesize it - offset"
    "fat16_read_internal P DISK (fat16_get_first_cluster it) (to_int offset) (to_int size1) s = Some (0, bytes, s1)"
    "fat16_read_loop P DISK p size1 n (offset + size1) (read_count + 1) s1 = Some (r, offset', count', rest, t)"
  shows "fat16_read_loop P DISK p size1 (Suc n) offset read_count s = Some (r, offset', count', bytes @ rest, t)"
  using assms by (simp add: deref at_idx_def)

lemma read_loop_ok:
  assumes "mounted P img cap idle fp s" "ks_objs s p = Some (OItems [it])" "file_ok img fp cap it" "size1 \<noteq> 0"
    "k = min n ((unat (di_filesize it) - unat offset) div unat size1)"
  shows "\<exists>t. fat16_read_loop P DISK p size1 n offset read_count s =
      Some (0, offset + of_nat (k * unat size1), read_count + of_nat k,
        slice (contents img fp (dir_cluster it)) (unat offset) (k * unat size1), t) \<and>
    io_only s t \<and> mounted P img cap idle fp t"
  using assms
proof (induction n arbitrary: offset read_count s k)
  case 0
  then show ?case by (simp add: slice_def)
next
  case (Suc n)
  let ?F = "unat (di_filesize it)" and ?o = "unat offset" and ?z = "unat size1" and ?c = "dir_cluster it"
  have z: "0 < ?z" using Suc.prems(4) by (simp add: unat_gt_0)
  have F: "?F < 2147483648" "fat16_get_first_cluster it = int ?c" "chain_covers img fp cap ?c ?F"
    using Suc.prems(3) by (simp_all add: file_ok_def dir_cluster_def)
  show ?case
  proof (cases "offset \<ge> di_filesize it \<or> size1 > di_filesize it - offset")
    case True
    have "(?F - ?o) div ?z = 0"
    proof (cases "offset \<ge> di_filesize it")
      case False
      then have "unat (di_filesize it - offset) = ?F - ?o" by (simp add: unat_sub)
      then show ?thesis using True False by (simp add: word_less_nat_alt)
    qed (simp add: word_le_nat_alt)
    then have "k = 0" using Suc.prems(5) by simp
    then show ?thesis using True Suc.prems(1,2) by (auto simp: deref at_idx_def slice_def)
  next
    case False
    then have o: "?o < ?F" by (simp add: word_le_nat_alt)
    then have "unat (di_filesize it - offset) = ?F - ?o" by (simp add: unat_sub word_le_nat_alt)
    then have fits: "?o + ?z \<le> ?F" using False o by (simp add: word_less_nat_alt) linarith
    have cov: "chain_covers img fp cap ?c (?o + ?z)" using F(3) fits by (auto simp: chain_covers_def)
    obtain s1 where s1: "fat16_read_internal P DISK (int ?c) (int ?o) (int ?z) s = Some (0, slice (contents img fp ?c) ?o ?z, s1)"
      "io_only s s1" "mounted P img cap idle fp s1"
      using fat16_read_ok [OF Suc.prems(1) z _ cov] fits F(1) by auto
    have off: "unat (offset + size1) = ?o + ?z"
      using fits F(1) by (subst unat_add_lem [THEN iffD1]) simp_all
    let ?k = "min n ((?F - (?o + ?z)) div ?z)"
    have k: "k = Suc ?k"
    proof -
      have "?F - ?o = ?F - (?o + ?z) + ?z" using fits by simp
      then have "(?F - ?o) div ?z = Suc ((?F - (?o + ?z)) div ?z)" using z by (simp only: div_add_self2)
      then show ?thesis using Suc.prems(5) by (simp only: min_Suc_Suc)
    qed
    obtain t where t: "fat16_read_loop P DISK p size1 n (offset + size1) (read_count + 1) s1 =
        Some (0, offset + size1 + of_nat (?k * ?z), read_count + 1 + of_nat ?k,
          slice (contents img fp ?c) (?o + ?z) (?k * ?z), t)" "io_only s1 t" "mounted P img cap idle fp t"
      using Suc.IH [OF s1(3) io_only_objs [OF s1(2) Suc.prems(2)] Suc.prems(3,4), of ?k "offset + size1" "read_count + 1"]
      unfolding off by auto
    have i: "to_int offset = int ?o" "to_int size1 = int ?z" using o fits F(1) by (simp_all add: to_int_small)
    have "fat16_read_loop P DISK p size1 (Suc n) offset read_count s =
        Some (0, offset + size1 + of_nat (?k * ?z), read_count + 1 + of_nat ?k,
          slice (contents img fp ?c) ?o ?z @ slice (contents img fp ?c) (?o + ?z) (?k * ?z), t)"
      using False s1(1) t(1) F(2) i by (intro read_loop_step [OF Suc.prems(2)]) simp_all
    moreover have "offset + size1 + of_nat (?k * ?z) = offset + of_nat (k * ?z)"
      by (simp add: k algebra_simps)
    moreover have "read_count + 1 + of_nat ?k = read_count + of_nat k" by (simp add: k)
    moreover have "slice (contents img fp ?c) ?o ?z @ slice (contents img fp ?c) (?o + ?z) (?k * ?z) =
        slice (contents img fp ?c) ?o (k * ?z)"
      by (simp add: slice_append k)
    ultimately show ?thesis using io_only_trans [OF s1(2) t(2)] t(3) by auto
  qed
qed

section \<open>Opening and closing\<close>

lemma mounted_store:
  assumes "mounted P img cap idle fp s" "ks_objs s p = Some x" "\<forall>q. x \<noteq> OStream q" "\<forall>q. x \<noteq> OPrivate q"
  shows "mounted P img cap idle fp (store p y s)"
  by (rule mounted_touched [OF assms(1) grown_store]) (use assms in simp)

text \<open>
  What an open returns: \<open>opened\<close> when memory lasts, else an error with nothing held, or, when
  a directory in the middle of the path could not be loaded, nothing at all.
\<close>

definition opened ::
  "'d ports \<Rightarrow> (nat \<Rightarrow> u8) \<Rightarrow> nat \<Rightarrow> ('d \<Rightarrow> bool) \<Rightarrow> fat_private \<Rightarrow> (u32 \<Rightarrow> nat option) \<Rightarrow> 'd kst \<Rightarrow> walk \<Rightarrow>
   (u32 \<times> 'd kst) option \<Rightarrow> bool" where
  "opened P img cap idle fp B s w r \<longleftrightarrow> (case w of
      Found it \<Rightarrow> if is_dir it
        then \<exists>t. r = Some (ERROR (- EINVARG), t) \<and> heap_ok t B \<and> evolved s {} t \<and> mounted P img cap idle fp t
        else \<exists>d A t. r = Some (d, t) \<and> \<not> ISERR d \<and> file_at img fp t d it 0 A \<and>
          heap_ok t (with_blocks B A) \<and> (\<forall>a \<in> A. B a = None) \<and> evolved s A t \<and> mounted P img cap idle fp t
    | Missing \<Rightarrow> \<exists>t. r = Some (ERROR (- EIO), t) \<and> heap_ok t B \<and> evolved s {} t \<and> mounted P img cap idle fp t
    | Null_Item \<Rightarrow> r = None)"

definition open_starved ::
  "'d ports \<Rightarrow> (nat \<Rightarrow> u8) \<Rightarrow> nat \<Rightarrow> ('d \<Rightarrow> bool) \<Rightarrow> fat_private \<Rightarrow> (u32 \<Rightarrow> nat option) \<Rightarrow> 'd kst \<Rightarrow> u8 list list \<Rightarrow>
   (u32 \<times> 'd kst) option \<Rightarrow> bool" where
  "open_starved P img cap idle fp B s cs r \<longleftrightarrow>
     (\<exists>e t. e \<in> {ENOMEM, EIO} \<and> r = Some (ERROR (- e), t) \<and> no_room P img cap idle fp B 7 s t) \<or>
     r = None \<and> free_count (ks_heap s) < 7 \<and> 2 \<le> length cs"

lemma open_no_item:
  assumes "heap_ok s B" "heap_ok t (with_blocks B {d})" "B d = None" "evolved s {d} t" "mounted P img cap idle fp t"
    "ks_objs t d = Some (OFatFile \<lparr>ff_item = 0, ff_pos = 0\<rparr>)"
    "zalloc 8 (OFatFile \<lparr>ff_item = 0, ff_pos = 0\<rparr>) s = Some (d, s1)" "d \<noteq> 0" "path \<noteq> 0"
    "fat16_get_directory_entry P DISK path s1 = Some (0, t)"
  shows "\<exists>u. fat16_open P DISK path FILE_MODE_READ s = Some (ERROR (- EIO), u) \<and> heap_ok u B \<and> evolved s {} u \<and>
    mounted P img cap idle fp u"
  using free_one_block [OF assms(1-6)] assms(6-10) by (auto simp: fat16_open_def deref store_same)

lemma open_item:
  assumes "heap_ok s B" "heap_ok t (with_blocks (with_blocks B {d}) C)" "evolved s (insert d C) t" "mounted P img cap idle fp t"
    "item_at img fp t f it C" "\<forall>a \<in> C. with_blocks B {d} a = None" "f \<noteq> 0"
    "ks_objs t d = Some (OFatFile \<lparr>ff_item = 0, ff_pos = 0\<rparr>)"
    "zalloc 8 (OFatFile \<lparr>ff_item = 0, ff_pos = 0\<rparr>) s = Some (d, s1)" "d \<noteq> 0" "unat d < 2147483648" "B d = None" "path \<noteq> 0"
    "fat16_get_directory_entry P DISK path s1 = Some (f, t)"
  shows "opened P img cap idle fp B s (Found it) (fat16_open P DISK path FILE_MODE_READ s)"
proof -
  have C: "d \<notin> C" "\<forall>a \<in> C. B a = None" using assms(6) by (auto simp: with_blocks_None)
  let ?t = "store d (OFatFile \<lparr>ff_item = f, ff_pos = 0\<rparr>) t"
  have it: "item_at img fp ?t f it C" by (rule item_at_cong [OF assms(5)]) (use C in auto)
  have m: "mounted P img cap idle fp ?t" by (rule mounted_store [OF assms(4,8)]) simp_all
  have h: "heap_ok ?t (with_blocks (with_blocks B {d}) C)" by (rule heap_ok_store [OF assms(2)]) (simp add: assms(8))
  have e: "evolved s (insert d C) ?t"
    by (rule evolved_mono [OF evolved_trans [OF assms(3) grown_evolved [OF grown_store [of _ d]]]]) auto
  obtain p where "ks_objs ?t f = Some (OFatItem \<lparr>fi_shared = p, fi_type = if is_dir it then 0 else 1\<rparr>)"
    using it by (auto simp: item_at_def split: if_splits)
  then have op: "fat16_open P DISK path FILE_MODE_READ s = (if is_dir it then
      do { s4 \<leftarrow> fat16_item_free f ?t; s5 \<leftarrow> kfree d s4; Some (ERROR (- EINVARG), s5) } else Some (d, ?t))"
    using assms(7-10,13,14) by (simp add: fat16_open_def deref)
  show ?thesis
  proof (cases "is_dir it")
    case True
    obtain t4 where t4: "fat16_item_free f ?t = Some t4" "heap_ok t4 (with_blocks B {d})" "grown ?t C t4"
      using item_free_ok [OF it h assms(6)] by blast
    have "evolved s ({d} \<union> C) t4"
      by (rule evolved_mono [OF evolved_trans [OF e grown_evolved [OF t4(3)]]]) auto
    then have e4: "evolved s {d} t4"
      using evolved_freed [OF _ assms(1) t4(2) C(2)] by (simp add: Un_commute)
    have "ks_objs t4 d = Some (OFatFile \<lparr>ff_item = f, ff_pos = 0\<rparr>)" using grown_objs [OF t4(3) C(1)] by simp
    then show ?thesis
      using free_one_block [OF assms(1) t4(2) assms(12) e4 mounted_free [OF m it t4(3)]] op True t4(1)
      by (auto simp: opened_def)
  next
    case False
    have "file_at img fp ?t d it 0 (insert d C)"
      using assms(10) False C(1) it unfolding file_at_def by auto
    moreover have "\<not> ISERR d" using assms(11) by (simp add: ISERR_def to_int_small)
    moreover have "with_blocks (with_blocks B {d}) C = with_blocks B (insert d C)" by (auto simp: with_blocks_def fun_eq_iff)
    ultimately show ?thesis using op False h e m C(2) assms(12) by (auto simp: opened_def)
  qed
qed

lemma open_walk:
  assumes "heap_ok s B" "mounted P img cap idle fp s" "has_root fp items s" "parts_at (ks_objs s) path ps (c # cs)"
    "loadable_path img fp cap items c cs"
  shows "opened P img cap idle fp B s (walk_root img fp items c cs) (fat16_open P DISK path FILE_MODE_READ s) \<or>
    open_starved P img cap idle fp B s cs (fat16_open P DISK path FILE_MODE_READ s)"
proof -
  let ?z = "OFatFile \<lparr>ff_item = 0, ff_pos = 0\<rparr>"
  have path: "path \<noteq> 0" using assms(4) by (auto simp: parts_at_Cons)
  have s8: "0 < unat (8 :: u32)" "unat (8 :: u32) \<le> 4096" by simp_all
  from assms(1) s8 show ?thesis
  proof (cases rule: zalloc_one_cases [of s B 8 ?z])
    case null
    then have "fat16_open P DISK path FILE_MODE_READ s = Some (ERROR (- ENOMEM), s)"
      using path by (simp add: fat16_open_def)
    then show ?thesis using null(2) assms(1,2) evolved_refl [of s] unfolding open_starved_def no_room_def by auto
  next
    case k: (fresh d h)
    let ?s1 = "store d ?z (s\<lparr>ks_heap := h\<rparr>)"
    have g1: "grown s {d} ?s1" by (rule grown_zalloc [OF k(7)])
    have m1: "mounted P img cap idle fp ?s1" by (rule mounted_grown [OF assms(2) g1 assms(1)]) (use k(5) in simp)
    have dn: "ks_objs s d = None" using heap_ok_None [OF assms(1)] k(5) by simp
    have r1: "has_root fp items ?s1"
      by (rule has_root_evolved [OF assms(3) grown_evolved [OF g1]]) (use dn assms(3) in \<open>auto simp: has_root_def\<close>)
    have p1: "parts_at (ks_objs ?s1) path ps (c # cs)"
      by (rule parts_at_evolved [OF assms(4) grown_evolved [OF g1]]) (use parts_at_kind [OF assms(4)] dn in force)
    have from1: "evolved s (insert d X) t" if "evolved ?s1 X t" for X t
      by (rule evolved_mono [OF evolved_trans [OF grown_evolved [OF g1] that]]) simp
    have d1: "ks_objs t d = Some ?z" if "evolved ?s1 X t" "d \<notin> X" for X t
      by (rule evolved_objs [OF that]) simp_all
    have none: "opened P img cap idle fp B s Missing (fat16_open P DISK path FILE_MODE_READ s)"
      if "fat16_get_directory_entry P DISK path ?s1 = Some (0, t)" "heap_ok t (with_blocks B {d})" "evolved ?s1 {} t"
        "mounted P img cap idle fp t" for t
      using open_no_item [OF assms(1) that(2) k(5) from1 [OF that(3)] that(4) d1 [OF that(3)] k(1,2) path that(1)]
      by (simp add: opened_def)
    from directory_entry_walk [OF k(6) m1 r1 p1 assms(5)] show ?thesis
    proof
      assume w: "walked P img cap idle fp (with_blocks B {d}) ?s1 (walk_root img fp items c cs)
        (fat16_get_directory_entry P DISK path ?s1)"
      show ?thesis
      proof (cases "walk_root img fp items c cs")
        case (Found it)
        then obtain f C t where f: "fat16_get_directory_entry P DISK path ?s1 = Some (f, t)"
          "holding P img cap idle fp (with_blocks B {d}) ?s1 t f it C"
          using w by (auto simp: walked_def)
        then have t: "heap_ok t (with_blocks (with_blocks B {d}) C)" "evolved ?s1 C t" "mounted P img cap idle fp t"
          "item_at img fp t f it C" "\<forall>a \<in> C. with_blocks B {d} a = None"
          by (simp_all add: holding_def)
        have "d \<notin> C" "f \<noteq> 0" using t(5) item_at_finite [OF t(4)] by (auto simp: with_blocks_None)
        then show ?thesis
          using open_item [OF assms(1) t(1) from1 [OF t(2)] t(3-5) _ d1 [OF t(2)] k(1-3,5) path f(1)] Found by simp
      next
        case Missing
        then show ?thesis using w none by (auto simp: walked_def)
      next
        case Null_Item
        then show ?thesis using w k(1,2) path by (simp add: walked_def opened_def fat16_open_def)
      qed
    next
      assume "starved P img cap idle fp (with_blocks B {d}) ?s1 cs (fat16_get_directory_entry P DISK path ?s1)"
      then consider t where "fat16_get_directory_entry P DISK path ?s1 = Some (0, t)" "heap_ok t (with_blocks B {d})"
          "evolved ?s1 {} t" "mounted P img cap idle fp t" "free_count h < 6"
        | "fat16_get_directory_entry P DISK path ?s1 = None" "free_count h < 6" "2 \<le> length cs"
        by (auto simp: starved_def no_room_def)
      then show ?thesis
      proof cases
        case 1
        then show ?thesis using none [OF 1(1-4)] k(8) unfolding open_starved_def opened_def no_room_def by auto
      next
        case 2
        then show ?thesis using k(1,2,8) path by (simp add: open_starved_def fat16_open_def)
      qed
    qed
  qed
qed

lemma opened_room:
  "opened P img cap idle fp B s w r \<or> open_starved P img cap idle fp B s cs r \<Longrightarrow> 7 \<le> free_count (ks_heap s) \<Longrightarrow>
   opened P img cap idle fp B s w r"
  by (auto simp: open_starved_def no_room_def)

lemma close_frees:
  assumes "file_at img fp s d it pos A" "heap_ok s (with_blocks B A)" "\<forall>a \<in> A. B a = None"
  obtains t where "fat16_close d s = Some (0, t)" "heap_ok t B" "grown s A t"
proof -
  obtain f C where f: "d \<noteq> 0" "A = insert d C" "d \<notin> C" "ks_objs s d = Some (OFatFile \<lparr>ff_item = f, ff_pos = pos\<rparr>)"
    "item_at img fp s f it C"
    using assms(1) by (auto simp: file_at_def)
  have "with_blocks B A = with_blocks (with_blocks B {d}) C" using f(2,3) assms(3) by (auto simp: with_blocks_def fun_eq_iff)
  then obtain t where t: "fat16_item_free f s = Some t" "heap_ok t (with_blocks B {d})" "grown s C t"
    using item_free_ok [OF f(5), of "with_blocks B {d}"] assms(2,3) f(2,3) by (auto simp: with_blocks_None)
  have "B d = None" using assms(3) f(2) by simp
  from t(2) this obtain h where h: "kfree d t = Some (released d h t)" "heap_ok (released d h t) (with_blocks B ({d} - {d}))"
    "grown t {d} (released d h t)"
    by (rule kfree_block)
  have "fat16_close d s = Some (0, released d h t)"
    using f(4) t(1) h(1) by (auto simp: fat16_close_def fat16_free_file_descriptor_def fat16_item_free_def deref)
  moreover have "grown s A (released d h t)" by (rule grown_mono [OF grown_trans [OF t(3) h(3)]]) (use f(2) in auto)
  ultimately show thesis using h(2) that by simp
qed

lemma close_ok:
  assumes "file_at img fp s d it pos A" "heap_ok s (with_blocks B A)" "\<forall>a \<in> A. B a = None" "evolved s0 A s" "heap_ok s0 B"
    "mounted P img cap idle fp s"
  shows "\<exists>t. fat16_close d s = Some (0, t) \<and> heap_ok t B \<and> evolved s0 {} t \<and> mounted P img cap idle fp t"
proof -
  obtain t where t: "fat16_close d s = Some (0, t)" "heap_ok t B" "grown s A t" by (rule close_frees [OF assms(1-3)])
  have "evolved s0 {} t"
    by (rule evolved_freed [OF evolved_mono [OF evolved_trans [OF assms(4) grown_evolved [OF t(3)]]] assms(5) _ assms(3)])
      (use t(2) in auto)
  moreover have "mounted P img cap idle fp t"
    by (rule mounted_touched [OF assms(6) t(3)]) (use file_at_items [OF assms(1)] in fastforce)
  ultimately show ?thesis using t(1,2) by blast
qed

section \<open>FAT16 as a provider of files\<close>

text \<open>
  The open file \<open>it\<close> of the volume, opened in the state \<open>s0\<close>: its contents, its position,
  and the allocations made for it.
\<close>

definition fat_file ::
  "'d ports \<Rightarrow> (nat \<Rightarrow> u8) \<Rightarrow> nat \<Rightarrow> ('d \<Rightarrow> bool) \<Rightarrow> fat_private \<Rightarrow> (u32 \<Rightarrow> nat option) \<Rightarrow> 'd kst \<Rightarrow>
   fat_directory_item \<Rightarrow> u32 \<Rightarrow> 'd kst \<Rightarrow> u8 list \<Rightarrow> nat \<Rightarrow> bool" where
  "fat_file P img cap idle fp B s0 it d s bs pos \<longleftrightarrow> mounted P img cap idle fp s \<and> heap_ok s0 B \<and>
     file_ok img fp cap it \<and> bs = file_data img fp it \<and> pos \<le> length bs \<and>
     (\<exists>A. file_at img fp s d it (of_nat pos) A \<and> heap_ok s (with_blocks B A) \<and> (\<forall>a \<in> A. B a = None) \<and> evolved s0 A s)"

definition fat_start ::
  "'d ports \<Rightarrow> (nat \<Rightarrow> u8) \<Rightarrow> nat \<Rightarrow> ('d \<Rightarrow> bool) \<Rightarrow> fat_private \<Rightarrow> (u32 \<Rightarrow> nat option) \<Rightarrow> 'd kst \<Rightarrow>
   fat_directory_item \<Rightarrow> u32 \<Rightarrow> 'd kst \<Rightarrow> u8 list \<Rightarrow> bool" where
  "fat_start P img cap idle fp B s0 it path s bs \<longleftrightarrow> s = s0 \<and> heap_ok s0 B \<and> mounted P img cap idle fp s0 \<and>
     \<not> is_dir it \<and> file_ok img fp cap it \<and> bs = file_data img fp it \<and> 7 \<le> free_count (ks_heap s0) \<and>
     (\<exists>items ps c cs. has_root fp items s0 \<and> parts_at (ks_objs s0) path ps (c # cs) \<and>
       loadable_path img fp cap items c cs \<and> lookup img fp items (c # cs) = Some it)"

definition fat_closed ::
  "'d ports \<Rightarrow> (nat \<Rightarrow> u8) \<Rightarrow> nat \<Rightarrow> ('d \<Rightarrow> bool) \<Rightarrow> fat_private \<Rightarrow> (u32 \<Rightarrow> nat option) \<Rightarrow> 'd kst \<Rightarrow> 'd kst \<Rightarrow> bool" where
  "fat_closed P img cap idle fp B s0 t \<longleftrightarrow> heap_ok t B \<and> evolved s0 {} t \<and> mounted P img cap idle fp t"

text \<open>What a caller of \<open>fat16_open\<close> does with its result; reads are made into a buffer at \<open>0x1000\<close>.\<close>

definition open_checked :: "'d ports \<Rightarrow> u32 \<Rightarrow> 'd kst \<Rightarrow> (u32 \<times> 'd kst) option" where
  "open_checked P path s = do { (d, t) \<leftarrow> fat16_open P DISK path FILE_MODE_READ s; if ISERR d then None else Some (d, t) }"

definition read_buffer :: "'d ports \<Rightarrow> u32 \<Rightarrow> u32 \<Rightarrow> u32 \<Rightarrow> 'd kst \<Rightarrow> (int \<times> u8 list \<times> 'd kst) option" where
  "read_buffer P d z n s = fat16_read P DISK d z n 0x1000 s"

lemma fat_fileE:
  assumes "fat_file P img cap idle fp B s0 it d s bs pos"
  obtains f p where "d \<noteq> 0" "f \<noteq> 0" "ks_objs s d = Some (OFatFile \<lparr>ff_item = f, ff_pos = of_nat pos\<rparr>)"
    "ks_objs s f = Some (OFatItem \<lparr>fi_shared = p, fi_type = 1\<rparr>)" "ks_objs s p = Some (OItems [it])"
    "unat (of_nat pos :: u32) = pos" "pos \<le> unat (di_filesize it)" "unat (di_filesize it) < 2147483648"
    "length bs = unat (di_filesize it)" "mounted P img cap idle fp s" "file_ok img fp cap it" "bs = file_data img fp it"
proof -
  obtain A where A: "file_at img fp s d it (of_nat pos) A" "pos \<le> length bs" "bs = file_data img fp it"
    "file_ok img fp cap it" "mounted P img cap idle fp s"
    using assms by (auto simp: fat_file_def)
  have "length bs = unat (di_filesize it)" "unat (di_filesize it) < 2147483648" using A by (simp_all add: file_ok_def)
  moreover from this have "unat (of_nat pos :: u32) = pos" using A(2) by (intro unat_of_nat_small) simp
  ultimately show thesis using file_atE [OF A(1)] that A by metis
qed

lemma fat_file_moved:
  assumes "fat_file P img cap idle fp B s0 it d s bs pos" "ks_objs s d = Some (OFatFile \<lparr>ff_item = f, ff_pos = p\<rparr>)"
    "io_only s t" "mounted P img cap idle fp t" "q \<le> length bs"
  shows "fat_file P img cap idle fp B s0 it d (store d (OFatFile \<lparr>ff_item = f, ff_pos = of_nat q\<rparr>) t) bs q"
proof -
  let ?t = "store d (OFatFile \<lparr>ff_item = f, ff_pos = of_nat q\<rparr>) t"
  obtain A where A: "file_at img fp s d it (of_nat pos) A" "heap_ok s (with_blocks B A)" "\<forall>a \<in> A. B a = None" "evolved s0 A s"
    using assms(1) by (auto simp: fat_file_def)
  obtain C where C: "d \<noteq> 0" "\<not> is_dir it" "A = insert d C" "d \<notin> C" "item_at img fp s f it C"
    using A(1) assms(2) by (auto simp: file_at_def)
  have td: "ks_objs t d = Some (OFatFile \<lparr>ff_item = f, ff_pos = p\<rparr>)" by (rule io_only_objs [OF assms(3,2)]) simp
  have "item_at img fp ?t f it C"
    by (rule item_at_cong [OF item_at_io [OF C(5) assms(3)]]) (use C(4) in auto)
  then have "file_at img fp ?t d it (of_nat q) A" using C by (auto simp: file_at_def)
  moreover have "heap_ok ?t (with_blocks B A)"
    by (rule heap_ok_store [OF io_only_heap_ok [OF assms(3) A(2)]]) (simp add: td)
  moreover have "evolved s0 A ?t"
    by (rule evolved_mono [OF evolved_trans [OF evolved_trans [OF A(4) io_only_evolved [OF assms(3)]] grown_evolved [OF grown_store [of _ d]]]])
      (use C(3) in auto)
  moreover have "mounted P img cap idle fp ?t" by (rule mounted_store [OF assms(4) td]) simp_all
  ultimately show ?thesis using assms(1,5) A(3) unfolding fat_file_def by blast
qed

lemma read_size_bound:
  assumes "z \<noteq> (0 :: u32)" "F < 2147483648" "k = min n ((F - p) div unat z)"
  shows "k < 2147483648" "p \<le> F \<Longrightarrow> p + k * unat z \<le> F"
proof -
  have "(F - p) div unat z \<le> F" by (rule order_trans [OF div_le_dividend]) simp
  then show "k < 2147483648" using assms(2,3) by simp
  have "k * unat z \<le> (F - p) div unat z * unat z" using assms(3) by (intro mult_right_mono) simp_all
  also have "\<dots> \<le> F - p" by (rule div_times_less_eq_dividend)
  finally show "p \<le> F \<Longrightarrow> p + k * unat z \<le> F" by simp
qed

lemma fat_read_ok:
  assumes "fat_file P img cap idle fp B s0 it d s bs pos" "z \<noteq> 0" "n \<noteq> 0" "out_ptr \<noteq> 0"
    "k = min (unat n) ((length bs - pos) div unat z)"
  shows "\<exists>t. fat16_read P DISK d z n out_ptr s = Some (int k, take (k * unat z) (drop pos bs), t) \<and>
    fat_file P img cap idle fp B s0 it d t bs (pos + k * unat z)"
  using assms(1)
proof (cases rule: fat_fileE)
  fix f p
  assume f: "d \<noteq> 0" "f \<noteq> 0" "ks_objs s d = Some (OFatFile \<lparr>ff_item = f, ff_pos = of_nat pos\<rparr>)"
    "ks_objs s f = Some (OFatItem \<lparr>fi_shared = p, fi_type = 1\<rparr>)" "ks_objs s p = Some (OItems [it])"
    "unat (of_nat pos :: u32) = pos" "pos \<le> unat (di_filesize it)" "unat (di_filesize it) < 2147483648"
    "length bs = unat (di_filesize it)" "mounted P img cap idle fp s" "file_ok img fp cap it" "bs = file_data img fp it"
  note b = read_size_bound [OF assms(2) f(8) assms(5) [unfolded f(9)]]
  obtain t where t: "fat16_read_loop P DISK p z (unat n) (of_nat pos) 0 s =
      Some (0, of_nat pos + of_nat (k * unat z), 0 + of_nat k, slice (contents img fp (dir_cluster it)) pos (k * unat z), t)"
    "io_only s t" "mounted P img cap idle fp t"
    using read_loop_ok [OF f(10,5,11) assms(2), of k "unat n" "of_nat pos" 0] assms(5) f(6,9) by auto
  have td: "ks_objs t d = Some (OFatFile \<lparr>ff_item = f, ff_pos = of_nat pos\<rparr>)" by (rule io_only_objs [OF t(2) f(3)]) simp
  have k: "to_int (of_nat k) = int k" using b(1) by (simp add: to_int_small unat_of_nat_small)
  have "take (k * unat z) (drop pos bs) = slice (contents img fp (dir_cluster it)) pos (k * unat z)"
    unfolding f(12) by (rule file_data_part [OF b(2) [OF f(7)]])
  then have "fat16_read P DISK d z n out_ptr s = Some (int k, take (k * unat z) (drop pos bs),
      store d (OFatFile \<lparr>ff_item = f, ff_pos = of_nat (pos + k * unat z)\<rparr>) t)"
    using assms(2-4) f(1-4) t(1) td k by (simp add: fat16_read_def deref)
  moreover have "pos + k * unat z \<le> length bs" unfolding f(9) by (rule b(2) [OF f(7)])
  ultimately show ?thesis using fat_file_moved [OF assms(1) f(3) t(2,3)] by blast
qed

lemma fat_seek_eq:
  assumes "fat_file P img cap idle fp B s0 it d s bs pos"
  shows "\<exists>f. ks_objs s d = Some (OFatFile \<lparr>ff_item = f, ff_pos = of_nat pos\<rparr>) \<and>
    (let target = (if m = 0 then Some (unat off) else if m = 1 then Some (pos + unat off) else None) in
     fat16_seek d off m s = (case target of
        Some q \<Rightarrow> if q \<le> length bs then Some (0, store d (OFatFile \<lparr>ff_item = f, ff_pos = of_nat q\<rparr>) s) else Some (- EIO, s)
      | None \<Rightarrow> Some (if m = 2 then - EUNIMP else - EINVARG, s)))"
  using assms
proof (cases rule: fat_fileE)
  fix f p
  assume f: "d \<noteq> 0" "f \<noteq> 0" "ks_objs s d = Some (OFatFile \<lparr>ff_item = f, ff_pos = of_nat pos\<rparr>)"
    "ks_objs s f = Some (OFatItem \<lparr>fi_shared = p, fi_type = 1\<rparr>)" "ks_objs s p = Some (OItems [it])"
    "unat (of_nat pos :: u32) = pos" "pos \<le> unat (di_filesize it)" "unat (di_filesize it) < 2147483648"
    "length bs = unat (di_filesize it)"
  let ?p = "of_nat pos :: u32"
  have sub: "unat (di_filesize it - ?p) = unat (di_filesize it) - pos" using f(6,7) by (simp add: unat_sub word_le_nat_alt)
  have le: "?p \<le> di_filesize it" using f(6,7) by (simp add: word_le_nat_alt)
  have fits: "off > di_filesize it - ?p \<longleftrightarrow> \<not> pos + unat off \<le> length bs"
    using sub f(7,9) by (simp add: word_less_nat_alt) linarith
  have set: "off > di_filesize it \<longleftrightarrow> \<not> unat off \<le> length bs" using f(9) by (simp add: word_less_nat_alt not_le)
  have plus: "\<not> ?p + off > di_filesize it" if "pos + unat off \<le> length bs"
  proof -
    have "unat (?p + off) = pos + unat off" using that f(6,8,9) by (subst unat_add_lem [THEN iffD1]) simp_all
    then show ?thesis using that f(9) by (simp add: word_less_nat_alt)
  qed
  have "fat16_seek d off m s = (let (res, q) = seek_target m off ?p (di_filesize it) in
      if res = 0 then if q > di_filesize it then Some (- EIO, s) else Some (0, store d (OFatFile \<lparr>ff_item = f, ff_pos = q\<rparr>) s)
      else Some (res, s))"
    using f(1-5) by (simp add: fat16_seek_def deref at_idx_def Let_def split_def)
  then show ?thesis
    using f(3) le by (auto simp: seek_target_def Let_def fits set plus simp del: not_le)
qed

interpretation fat: file_session "fat_file P img cap idle fp B s0 it" "read_buffer P" fat16_seek
  "open_checked P path" fat16_close "fat_start P img cap idle fp B s0 it path" "fat_closed P img cap idle fp B s0"
  for P img cap idle fp B s0 it path
proof
  fix h s bs pos
  assume o: "fat_file P img cap idle fp B s0 it h s bs pos"
  then show "pos \<le> length bs" unfolding fat_file_def by blast
  have m: "mounted P img cap idle fp s" using o by (simp add: fat_file_def)
  fix off m z n k
  show "\<exists>t. read_buffer P h z n s = Some (int k, take (k * unat z) (drop pos bs), t) \<and>
      fat_file P img cap idle fp B s0 it h t bs (pos + k * unat z)"
    if "z \<noteq> 0" "n \<noteq> 0" "k = min (unat n) ((length bs - pos) div unat z)"
    unfolding read_buffer_def by (rule fat_read_ok [OF o that(1,2) _ that(3)]) simp
  show "\<exists>t. fat16_seek h off 0 s = Some (0, t) \<and> fat_file P img cap idle fp B s0 it h t bs (unat off)"
    if "unat off \<le> length bs"
    using fat_seek_eq [OF o, of 0 off] fat_file_moved [OF o _ io_only_refl m that] that by auto
  show "\<exists>t. fat16_seek h off 1 s = Some (0, t) \<and> fat_file P img cap idle fp B s0 it h t bs (pos + unat off)"
    if "pos + unat off \<le> length bs"
    using fat_seek_eq [OF o, of 1 off] fat_file_moved [OF o _ io_only_refl m that] that by auto
  show "fat16_seek h off m s = Some (if m = 0 \<or> m = 1 then - EIO else if m = 2 then - EUNIMP else - EINVARG, s)"
    if "m = 0 \<and> length bs < unat off \<or> m = 1 \<and> length bs < pos + unat off \<or> m \<noteq> 0 \<and> m \<noteq> 1"
    using fat_seek_eq [OF o, of m off] that by (auto split: if_splits)
  show "\<exists>t. fat16_close h s = Some (0, t) \<and> fat_closed P img cap idle fp B s0 t"
  proof -
    obtain A where "file_at img fp s h it (of_nat pos) A" "heap_ok s (with_blocks B A)" "\<forall>a \<in> A. B a = None" "evolved s0 A s"
      "heap_ok s0 B"
      using o by (auto simp: fat_file_def)
    from close_ok [OF this m] show ?thesis by (simp add: fat_closed_def)
  qed
next
  fix s bs
  assume "fat_start P img cap idle fp B s0 it path s bs"
  then obtain items ps c cs where st: "s = s0" "heap_ok s0 B" "mounted P img cap idle fp s0" "\<not> is_dir it" "file_ok img fp cap it"
    "bs = file_data img fp it" "7 \<le> free_count (ks_heap s0)" "has_root fp items s0" "parts_at (ks_objs s0) path ps (c # cs)"
    "loadable_path img fp cap items c cs" "lookup img fp items (c # cs) = Some it"
    by (auto simp: fat_start_def)
  have "walk_root img fp items c cs = Found it" using st(11) by (simp only: walk_root_lookup)
  then show "\<exists>h t. open_checked P path s = Some (h, t) \<and> fat_file P img cap idle fp B s0 it h t bs 0"
    using opened_room [OF open_walk [OF st(2,3,8,9,10)] st(7)] st by (fastforce simp: open_checked_def fat_file_def opened_def)
qed

section \<open>Properties\<close>

lemma demo_file:
  "lookup demo_img demo_fp demo_items [hello_name] = Some (decode_item (slice demo_img 153088 32))"
  "file_ok demo_img demo_fp 4000 (decode_item (slice demo_img 153088 32))"
proof -
  show "lookup demo_img demo_fp demo_items [hello_name] = Some (decode_item (slice demo_img 153088 32))" by (simp add: demo_find)
  let ?d = "decode_item (slice demo_img 153088 32)"
  have c: "fat16_get_first_cluster ?d = 2"
    unfolding fat16_get_first_cluster_def by (simp add: decode_item_def field16_def le16_def demo_bytes_def i32_id)
  have z: "unat (di_filesize ?d) = 700" by (simp add: decode_item_def field32_def le32_def demo_bytes_def)
  show "file_ok demo_img demo_fp 4000 ?d"
    unfolding file_ok_def z dir_cluster_def c by (simp add: demo_chain_covers)
qed

text \<open>
  C5. A FAT16 file is the byte sequence its cluster chain holds: opening the file a path
  denotes, any sequence of reads and seeks (whole items only, short at the end, refused
  seeks included) and closing it give exactly the results and the bytes of the abstract
  file, and afterwards every allocation made is free again and nothing but stream
  positions changed.
\<close>

theorem fat16_file_refines:
  assumes "heap_ok s B" "mounted P img cap idle fp s" "has_root fp items s" "parts_at (ks_objs s) path ps (c # cs)"
    "7 \<le> free_count (ks_heap s)" "loadable_path img fp cap items c cs" "lookup img fp items (c # cs) = Some it"
    "\<not> is_dir it" "file_ok img fp cap it" "\<forall>x \<in> set xs. valid_op x"
  shows "\<exists>t. file_run (open_checked P path) (read_buffer P) fat16_seek fat16_close xs s =
      Some (file_run_spec (file_data img fp it) 0 xs, 0, t) \<and>
    heap_ok t B \<and> evolved s {} t \<and> mounted P img cap idle fp t"
proof -
  have "fat_start P img cap idle fp B s it path s (file_data img fp it)"
    using assms unfolding fat_start_def by blast
  from fat.session_refines [OF this assms(10)] show ?thesis by (simp add: fat_closed_def)
qed

theorem fat16_file_refines_witness:
  "\<exists>t. file_run (open_checked (sim_ports demo_img) 0x01005000) (read_buffer (sim_ports demo_img)) fat16_seek fat16_close
      [Seek 600 0, Read 64 5, Seek 1 2] demo_paths =
      Some (file_run_spec (file_data demo_img demo_fp (decode_item (slice demo_img 153088 32))) 0 [Seek 600 0, Read 64 5, Seek 1 2], 0, t) \<and>
    heap_ok t demo_paths_owned \<and> evolved demo_paths {} t \<and> mounted (sim_ports demo_img) demo_img 4000 sim_idle demo_fp t"
  by (rule fat16_file_refines [OF demo_paths_heap_ok(1) demo_paths_mounted demo_has_root demo_parts(1) _ demo_walk(1)
      demo_file(1) demo_find(3) demo_file(2)])
    (simp_all add: demo_paths_heap_ok)

text \<open>
  \<open>fat16_open\<close> reports every failure as an error pointer, and takes back what it
  allocated: a missing disk or path, any mode but reading, a path that denotes nothing
  (\<open>-EIO\<close>) and one that denotes a directory (\<open>-EINVARG\<close>).
\<close>

theorem fat16_open_errors:
  assumes "heap_ok s B" "mounted P img cap idle fp s" "has_root fp items s" "parts_at (ks_objs s) path ps (c # cs)"
    "7 \<le> free_count (ks_heap s)" "loadable_path img fp cap items c cs"
  shows "fat16_open P DISK_NULL path m s = Some (ERROR (- EINVARG), s) \<and> fat16_open P DISK 0 m s = Some (ERROR (- EINVARG), s) \<and>
    (m \<noteq> FILE_MODE_READ \<longrightarrow> fat16_open P DISK path m s = Some (ERROR (- ERDONLY), s)) \<and>
    (walk_root img fp items c cs = Missing \<longrightarrow> (\<exists>t. fat16_open P DISK path FILE_MODE_READ s = Some (ERROR (- EIO), t) \<and>
       heap_ok t B \<and> evolved s {} t)) \<and>
    (\<forall>it. lookup img fp items (c # cs) = Some it \<and> is_dir it \<longrightarrow> (\<exists>t. fat16_open P DISK path FILE_MODE_READ s = Some (ERROR (- EINVARG), t) \<and>
       heap_ok t B \<and> evolved s {} t)) \<and>
    ISERR (ERROR (- EINVARG)) \<and> ISERR (ERROR (- ERDONLY)) \<and> ISERR (ERROR (- EIO))"
proof -
  have p: "path \<noteq> 0" using assms(4) by (auto simp: parts_at_Cons)
  have e: "ISERR (ERROR (- EINVARG))" "ISERR (ERROR (- ERDONLY))" "ISERR (ERROR (- EIO))" by code_simp+
  have w: "opened P img cap idle fp B s (walk_root img fp items c cs) (fat16_open P DISK path FILE_MODE_READ s)"
    by (rule opened_room [OF open_walk [OF assms(1-4,6)] assms(5)])
  have "fat16_open P DISK_NULL path m s = Some (ERROR (- EINVARG), s)" "fat16_open P DISK 0 m s = Some (ERROR (- EINVARG), s)"
    "m \<noteq> FILE_MODE_READ \<longrightarrow> fat16_open P DISK path m s = Some (ERROR (- ERDONLY), s)"
    using p by (simp_all add: fat16_open_def)
  then show ?thesis using e w by (auto simp: opened_def simp flip: walk_root_lookup)
qed

theorem fat16_open_errors_witness:
  "fat16_open (sim_ports demo_img) DISK_NULL 0x01005000 1 demo_paths = Some (ERROR (- EINVARG), demo_paths) \<and>
    fat16_open (sim_ports demo_img) DISK 0 1 demo_paths = Some (ERROR (- EINVARG), demo_paths) \<and>
    fat16_open (sim_ports demo_img) DISK 0x01005000 1 demo_paths = Some (ERROR (- ERDONLY), demo_paths) \<and>
    ISERR (ERROR (- EINVARG)) \<and> ISERR (ERROR (- ERDONLY)) \<and> ISERR (ERROR (- EIO))"
  using fat16_open_errors [OF demo_paths_heap_ok(1) demo_paths_mounted demo_has_root demo_parts(1) _ demo_walk(1), of 1]
  by (simp add: demo_paths_heap_ok)

text \<open>
  C14. \<open>fat16_open\<close> with any amount of free memory: it returns a descriptor only for a file
  the path denotes, at position 0 and with its blocks owned; every error pointer is
  \<open>-EIO\<close>, \<open>-EINVARG\<close> or \<open>-ENOMEM\<close> and leaves every allocation as it was; and it fails to
  return only on a path of three or more names, when a directory in the middle is missing
  or could not be loaded.
\<close>

theorem fat16_open_any_memory:
  assumes "heap_ok s B" "mounted P img cap idle fp s" "has_root fp items s" "parts_at (ks_objs s) path ps (c # cs)"
    "loadable_path img fp cap items c cs"
  shows "case fat16_open P DISK path FILE_MODE_READ s of
      None \<Rightarrow> 2 \<le> length cs \<and> (walk_root img fp items c cs = Null_Item \<or> free_count (ks_heap s) < 7)
    | Some (r, t) \<Rightarrow> mounted P img cap idle fp t \<and>
        (if ISERR r
         then r \<in> {ERROR (- EIO), ERROR (- EINVARG), ERROR (- ENOMEM)} \<and> heap_ok t B \<and> evolved s {} t
         else \<exists>it A. lookup img fp items (c # cs) = Some it \<and> \<not> is_dir it \<and> file_at img fp t r it 0 A \<and>
           heap_ok t (with_blocks B A) \<and> (\<forall>a \<in> A. B a = None) \<and> evolved s A t)"
proof -
  let ?r = "fat16_open P DISK path FILE_MODE_READ s"
  have e: "ISERR (ERROR (- EINVARG))" "ISERR (ERROR (- EIO))" "ISERR (ERROR (- ENOMEM))" by code_simp+
  from open_walk [OF assms] show ?thesis
  proof
    assume w: "opened P img cap idle fp B s (walk_root img fp items c cs) ?r"
    show ?thesis
    proof (cases "walk_root img fp items c cs")
      case (Found it)
      then have "lookup img fp items (c # cs) = Some it" by (simp only: walk_root_lookup)
      then show ?thesis using w Found e by (auto simp: opened_def split: if_splits)
    next
      case Missing
      then show ?thesis using w e by (auto simp: opened_def)
    next
      case Null_Item
      moreover from this obtain it where "walk_from img fp it cs = Null_Item"
        by (auto simp: walk_root_def split: option.splits)
      ultimately show ?thesis using w walk_null by (auto simp: opened_def)
    qed
  next
    assume "open_starved P img cap idle fp B s cs ?r"
    then show ?thesis using e by (auto simp: open_starved_def no_room_def)
  qed
qed

theorem fat16_open_any_memory_witness:
  "case fat16_open (sim_ports demo_img) DISK 0x01005000 FILE_MODE_READ demo_paths of
      None \<Rightarrow> 2 \<le> length ([] :: u8 list list) \<and>
        (walk_root demo_img demo_fp demo_items hello_name [] = Null_Item \<or> free_count (ks_heap demo_paths) < 7)
    | Some (r, t) \<Rightarrow> mounted (sim_ports demo_img) demo_img 4000 sim_idle demo_fp t \<and>
        (if ISERR r
         then r \<in> {ERROR (- EIO), ERROR (- EINVARG), ERROR (- ENOMEM)} \<and> heap_ok t demo_paths_owned \<and> evolved demo_paths {} t
         else \<exists>it A. lookup demo_img demo_fp demo_items [hello_name] = Some it \<and> \<not> is_dir it \<and>
           file_at demo_img demo_fp t r it 0 A \<and> heap_ok t (with_blocks demo_paths_owned A) \<and>
           (\<forall>a \<in> A. demo_paths_owned a = None) \<and> evolved demo_paths A t)"
  by (rule fat16_open_any_memory [OF demo_paths_heap_ok(1) demo_paths_mounted demo_has_root demo_parts(1) demo_walk(1)])

text \<open>
  C30. Whatever descriptor, offset and mode it is given, a \<open>fat16_seek\<close> that returns leaves
  the position of the file inside it: 0 means a new position of at most the file's size,
  any other result leaves the memory as it was.
\<close>

theorem fat16_seek_inside:
  assumes "fat16_seek d off m s = Some (r, t)"
  shows "r \<noteq> 0 \<and> t = s \<or>
    (r = 0 \<and> (\<exists>f p ps it q. ks_objs s d = Some (OFatFile \<lparr>ff_item = f, ff_pos = p\<rparr>) \<and>
      ks_objs s f = Some (OFatItem \<lparr>fi_shared = ps, fi_type = FAT_ITEM_TYPE_FILE\<rparr>) \<and>
      (\<exists>xs. ks_objs s ps = Some (OItems (it # xs))) \<and> (m = SEEK_SET \<and> q = off \<or> m = SEEK_CUR \<and> unat q = unat p + unat off) \<and>
      q \<le> di_filesize it \<and> t = store d (OFatFile \<lparr>ff_item = f, ff_pos = q\<rparr>) s))"
proof (cases "r = 0")
  case False
  then show ?thesis using assms
    by (auto simp: fat16_seek_def option_bind_Some_iff Let_def split_def split: if_splits)
next
  case True
  obtain desc fi xs it q where o: "d \<noteq> 0" "ks_objs s d = Some (OFatFile desc)" "ks_objs s (ff_item desc) = Some (OFatItem fi)"
    "fi_type fi = 1" "ks_objs s (fi_shared fi) = Some (OItems xs)" "at_idx xs 0 = Some it"
    "seek_target m off (ff_pos desc) (di_filesize it) = (0, q)" "q \<le> di_filesize it"
    "t = store d (OFatFile (desc\<lparr>ff_pos := q\<rparr>)) s"
    using assms True
    by (auto simp: fat16_seek_def option_bind_Some_iff Let_def split_def deref prod_eq_iff not_less split: if_splits)
  have "m = SEEK_SET \<and> q = off \<or> m = SEEK_CUR \<and> unat q = unat (ff_pos desc) + unat off"
  proof (cases "m = 0")
    case False
    then have "m = 1" "\<not> ff_pos desc > di_filesize it" "\<not> off > di_filesize it - ff_pos desc" "q = ff_pos desc + off"
      using o(7) by (auto simp: seek_target_def split: if_splits)
    moreover have "unat (ff_pos desc) + unat off < 4294967296"
    proof -
      have "unat (di_filesize it - ff_pos desc) = unat (di_filesize it) - unat (ff_pos desc)"
        using calculation(2) by (simp add: unat_sub not_less)
      then show ?thesis using calculation(2,3) unat32_bound [of "di_filesize it"] by (simp add: word_less_nat_alt)
    qed
    ultimately show ?thesis using unat_add_lem [of "ff_pos desc" off] by simp
  qed (use o(7) in \<open>simp add: seek_target_def\<close>)
  moreover obtain ys where "xs = it # ys" using o(6) by (cases xs) (auto simp: at_idx_def)
  moreover have "ks_objs s d = Some (OFatFile \<lparr>ff_item = ff_item desc, ff_pos = ff_pos desc\<rparr>)"
    "ks_objs s (ff_item desc) = Some (OFatItem \<lparr>fi_shared = fi_shared fi, fi_type = 1\<rparr>)"
    "t = store d (OFatFile \<lparr>ff_item = ff_item desc, ff_pos = q\<rparr>) s"
    using o(2-4,9) by (cases desc; cases fi; simp)+
  ultimately show ?thesis using o(5,8) True by blast
qed

definition seek_state :: "unit kst" where
  "seek_state = store 1 (OFatFile \<lparr>ff_item = 2, ff_pos = 5\<rparr>) (store 2 (OFatItem \<lparr>fi_shared = 3, fi_type = 1\<rparr>)
     (store 3 (OItems [zero_item\<lparr>di_filesize := 10, di_attribute := 1\<rparr>]) (boot_state ())))"

theorem fat16_seek_inside_witness:
  "(0 :: int) \<noteq> 0 \<and> store 1 (OFatFile \<lparr>ff_item = 2, ff_pos = 9\<rparr>) seek_state = seek_state \<or>
    ((0 :: int) = 0 \<and> (\<exists>f p ps it q. ks_objs seek_state 1 = Some (OFatFile \<lparr>ff_item = f, ff_pos = p\<rparr>) \<and>
      ks_objs seek_state f = Some (OFatItem \<lparr>fi_shared = ps, fi_type = FAT_ITEM_TYPE_FILE\<rparr>) \<and>
      (\<exists>xs. ks_objs seek_state ps = Some (OItems (it # xs))) \<and>
      ((1 :: u32) = SEEK_SET \<and> q = 4 \<or> (1 :: u32) = SEEK_CUR \<and> unat q = unat p + unat (4 :: u32)) \<and>
      q \<le> di_filesize it \<and> store 1 (OFatFile \<lparr>ff_item = 2, ff_pos = 9\<rparr>) seek_state = store 1 (OFatFile \<lparr>ff_item = f, ff_pos = q\<rparr>) seek_state))"
proof (rule fat16_seek_inside)
  show "fat16_seek 1 4 1 seek_state = Some (0, store 1 (OFatFile \<lparr>ff_item = 2, ff_pos = 9\<rparr>) seek_state)"
    by (simp add: fat16_seek_def seek_state_def seek_target_def deref at_idx_def zero_item_def)
qed

text \<open>
  \<open>fat16_stat\<close> on an open file reports the size in its directory entry and exactly the
  read-only flag, and touches neither the \<open>files\<close> field nor the kernel's memory.
\<close>

theorem fat16_stat_correct:
  assumes "file_at img fp s d it pos A"
  shows "fat16_stat dk d (Some st) s =
    Some (0, Some \<lparr>fs_flags = (if di_attribute it AND 1 = 0 then 0 else FILE_STAT_READ_ONLY), fs_files = fs_files st,
      fs_filesize = di_filesize it\<rparr>, s) \<and>
    fat16_stat dk d None s = Some (- EINVARG, None, s)"
  using assms by (rule file_atE) (auto simp: fat16_stat_def deref at_idx_def)

theorem fat16_stat_correct_witness:
  "fat16_stat DISK 1 (Some \<lparr>fs_flags = 9, fs_files = 8, fs_filesize = 7\<rparr>) seek_state =
    Some (0, Some \<lparr>fs_flags = (if di_attribute (zero_item\<lparr>di_filesize := 10, di_attribute := 1\<rparr>) AND 1 = 0 then 0
        else FILE_STAT_READ_ONLY), fs_files = fs_files \<lparr>fs_flags = 9, fs_files = 8, fs_filesize = 7\<rparr>,
      fs_filesize = di_filesize (zero_item\<lparr>di_filesize := 10, di_attribute := 1\<rparr>)\<rparr>, seek_state) \<and>
    fat16_stat DISK 1 None seek_state = Some (- EINVARG, None, seek_state)"
proof (rule fat16_stat_correct)
  show "file_at demo_img demo_fp seek_state 1 (zero_item\<lparr>di_filesize := 10, di_attribute := 1\<rparr>) 5 {1, 2, 3}"
    unfolding file_at_def item_at_def
    by (intro conjI exI [of _ 2] exI [of _ "{2, 3}"] exI [of _ 3]) (simp_all add: seek_state_def is_dir_def)
qed

end
