(* ===== verification/File_Layer.thy ===== *)
theory File_Layer
  imports Fat16_File
begin

text \<open>
  The file layer: \<open>src/fs/file.c\<close>, and \<open>disk_search_and_init\<close> of \<open>src/disk/disk.c\<close>. A call
  through a \<open>struct filesystem*\<close> is a dispatch on \<open>fs_ptr\<close>: FAT16's functions for the one
  filesystem of the program, and no result for a call through null.
\<close>

section \<open>Filesystems\<close>

text \<open>
  The search stops at \<open>SAMOS_MAX_FILE_DESCRIPTORS\<close> as the code does, while the array has
  \<open>SAMOS_MAX_FILESYSTEMS\<close> slots; \<open>n\<close> is the rest of the loop's rounds.
\<close>

fun free_filesystem_loop :: "fs_ptr list \<Rightarrow> nat \<Rightarrow> nat \<Rightarrow> nat option option" where
  "free_filesystem_loop fss i 0 = Some None"
| "free_filesystem_loop fss i (Suc n) = do {
     f \<leftarrow> at_idx fss i;
     if f = FS_NULL then Some (Some i) else free_filesystem_loop fss (i + 1) n }"

definition fs_get_free_filesystem :: "'d kst \<Rightarrow> nat option option" where
  "fs_get_free_filesystem s = free_filesystem_loop (ks_filesystems s) 0 SAMOS_MAX_FILE_DESCRIPTORS"

text \<open>Both panics print a message and never return.\<close>

definition fs_insert_filesystem :: "fs_ptr \<Rightarrow> 'd kst \<Rightarrow> 'd kst option" where
  "fs_insert_filesystem filesystem s =
     (if filesystem = FS_NULL then None
      else do {
        slot \<leftarrow> fs_get_free_filesystem s;
        i \<leftarrow> slot;
        fss \<leftarrow> put_idx (ks_filesystems s) i filesystem;
        Some (s\<lparr>ks_filesystems := fss\<rparr>) })"

definition fs_static_load :: "'d kst \<Rightarrow> 'd kst option" where
  "fs_static_load s = do {
     (f, name) \<leftarrow> fat16_init (replicate 20 0);
     fs_insert_filesystem f s }"

definition fs_load :: "'d kst \<Rightarrow> 'd kst option" where
  "fs_load s = fs_static_load (s\<lparr>ks_filesystems := replicate SAMOS_MAX_FILESYSTEMS FS_NULL\<rparr>)"

definition fs_int :: "'d kst \<Rightarrow> 'd kst option" where
  "fs_int s = fs_load (s\<lparr>ks_file_descriptors := replicate SAMOS_MAX_FILE_DESCRIPTORS 0\<rparr>)"

text \<open>The members of \<open>struct filesystem\<close>.\<close>

definition fs_call_resolve :: "fs_ptr \<Rightarrow> 'd ports \<Rightarrow> disk_ptr \<Rightarrow> 'd kst \<Rightarrow> (int \<times> 'd kst) option" where
  "fs_call_resolve fs P dk s = (case fs of FS_NULL \<Rightarrow> None | FAT16_FS \<Rightarrow> fat16_resolve P dk s)"

definition fs_call_open :: "fs_ptr \<Rightarrow> 'd ports \<Rightarrow> disk_ptr \<Rightarrow> u32 \<Rightarrow> u32 \<Rightarrow> 'd kst \<Rightarrow> (u32 \<times> 'd kst) option" where
  "fs_call_open fs P dk path mode s = (case fs of FS_NULL \<Rightarrow> None | FAT16_FS \<Rightarrow> fat16_open P dk path mode s)"

definition fs_call_read ::
  "fs_ptr \<Rightarrow> 'd ports \<Rightarrow> disk_ptr \<Rightarrow> u32 \<Rightarrow> u32 \<Rightarrow> u32 \<Rightarrow> u32 \<Rightarrow> 'd kst \<Rightarrow> (int \<times> u8 list \<times> 'd kst) option" where
  "fs_call_read fs P dk private size1 nmemb out_ptr s =
     (case fs of FS_NULL \<Rightarrow> None | FAT16_FS \<Rightarrow> fat16_read P dk private size1 nmemb out_ptr s)"

definition fs_call_seek :: "fs_ptr \<Rightarrow> u32 \<Rightarrow> u32 \<Rightarrow> u32 \<Rightarrow> 'd kst \<Rightarrow> (int \<times> 'd kst) option" where
  "fs_call_seek fs private offset whence s = (case fs of FS_NULL \<Rightarrow> None | FAT16_FS \<Rightarrow> fat16_seek private offset whence s)"

definition fs_call_stat ::
  "fs_ptr \<Rightarrow> disk_ptr \<Rightarrow> u32 \<Rightarrow> file_stat option \<Rightarrow> 'd kst \<Rightarrow> (int \<times> file_stat option \<times> 'd kst) option" where
  "fs_call_stat fs dk private stat s = (case fs of FS_NULL \<Rightarrow> None | FAT16_FS \<Rightarrow> fat16_stat dk private stat s)"

definition fs_call_close :: "fs_ptr \<Rightarrow> u32 \<Rightarrow> 'd kst \<Rightarrow> (int \<times> 'd kst) option" where
  "fs_call_close fs private s = (case fs of FS_NULL \<Rightarrow> None | FAT16_FS \<Rightarrow> fat16_close private s)"

fun fs_resolve_loop :: "'d ports \<Rightarrow> disk_ptr \<Rightarrow> nat \<Rightarrow> nat \<Rightarrow> 'd kst \<Rightarrow> (fs_ptr \<times> 'd kst) option" where
  "fs_resolve_loop P dk i 0 s = Some (FS_NULL, s)"
| "fs_resolve_loop P dk i (Suc n) s = do {
     f \<leftarrow> at_idx (ks_filesystems s) i;
     if f = FS_NULL then fs_resolve_loop P dk (i + 1) n s
     else do {
       (res, s1) \<leftarrow> fs_call_resolve f P dk s;
       if res = 0 then do { fs \<leftarrow> at_idx (ks_filesystems s1) i; Some (fs, s1) }
       else fs_resolve_loop P dk (i + 1) n s1 } }"

definition fs_resolve :: "'d ports \<Rightarrow> disk_ptr \<Rightarrow> 'd kst \<Rightarrow> (fs_ptr \<times> 'd kst) option" where
  "fs_resolve P dk s = fs_resolve_loop P dk 0 SAMOS_MAX_FILESYSTEMS s"

definition disk_search_and_init :: "'d ports \<Rightarrow> 'd kst \<Rightarrow> 'd kst option" where
  "disk_search_and_init P s = do {
     let s1 = s\<lparr>ks_disk := \<lparr>dk_id = 0, dk_type = 0, dk_sector_size = SAMOS_SECTOR_SIZE,
       dk_filesystem = FS_NULL, dk_fs_private = 0\<rparr>\<rparr>;
     (fs, s2) \<leftarrow> fs_resolve P DISK s1;
     Some (s2\<lparr>ks_disk := (ks_disk s2)\<lparr>dk_filesystem := fs\<rparr>\<rparr>) }"

section \<open>File descriptors\<close>

definition file_free_descriptor :: "u32 \<Rightarrow> 'd kst \<Rightarrow> 'd kst option" where
  "file_free_descriptor desc s = do {
     fl \<leftarrow> obj_file s desc;
     fds \<leftarrow> put_int (ks_file_descriptors s) (i32 (fl_index fl - 1)) 0;
     kfree desc (s\<lparr>ks_file_descriptors := fds\<rparr>) }"

text \<open>The result is \<open>res\<close> and the descriptor stored in \<open>*desc_out\<close>, null when none is.\<close>

fun new_descriptor_loop :: "nat \<Rightarrow> nat \<Rightarrow> 'd kst \<Rightarrow> (int \<times> u32 \<times> 'd kst) option" where
  "new_descriptor_loop i 0 s = Some (- ENOMEM, 0, s)"
| "new_descriptor_loop i (Suc n) s = do {
     d \<leftarrow> at_idx (ks_file_descriptors s) i;
     if d = 0 then do {
       (desc, s1) \<leftarrow> kzalloc 16 as_file s;
       fl \<leftarrow> obj_file s1 desc;
       let s2 = store desc (OFile (fl\<lparr>fl_index := int i + 1\<rparr>)) s1;
       fds \<leftarrow> put_idx (ks_file_descriptors s2) i desc;
       Some (0, desc, s2\<lparr>ks_file_descriptors := fds\<rparr>) }
     else new_descriptor_loop (i + 1) n s }"

definition file_new_descriptor :: "'d kst \<Rightarrow> (int \<times> u32 \<times> 'd kst) option" where
  "file_new_descriptor s = new_descriptor_loop 0 SAMOS_MAX_FILE_DESCRIPTORS s"

definition file_get_descriptor :: "int \<Rightarrow> 'd kst \<Rightarrow> u32 option" where
  "file_get_descriptor fd s =
     (if fd < 1 \<or> fd \<ge> int SAMOS_MAX_FILE_DESCRIPTORS then Some 0
      else at_int (ks_file_descriptors s) (fd - 1))"

text \<open>\<open>!strncmp(...) == 0\<close> is \<open>(!strncmp(...)) == 0\<close>: the strings differ.\<close>

definition file_get_mode_by_string :: "u8 list \<Rightarrow> u32 option" where
  "file_get_mode_by_string str = do {
     r \<leftarrow> strncmp str [0x72, 0] 1;
     if r \<noteq> 0 then Some FILE_MODE_READ
     else do {
       w \<leftarrow> strncmp str [0x77, 0] 1;
       if w \<noteq> 0 then Some FILE_MODE_WRITE
       else do {
         a \<leftarrow> strncmp str [0x61, 0] 1;
         if a \<noteq> 0 then Some FILE_MODE_APPEND else Some FILE_MODE_INVALID } } }"

section \<open>The calls of the kernel\<close>

definition fopen_out :: "int \<Rightarrow> int" where
  "fopen_out res = (if res < 0 then 0 else res)"

definition fopen :: "'d ports \<Rightarrow> u8 list option \<Rightarrow> u8 list \<Rightarrow> 'd kst \<Rightarrow> (int \<times> 'd kst) option" where
  "fopen P filename mode_str s = do {
     (root_path, s1) \<leftarrow> pathparser_parse filename None s;
     if root_path = 0 then Some (fopen_out (- EINVARG), s1)
     else do {
       r \<leftarrow> obj_root s1 root_path;
       if pr_first r = 0 then Some (fopen_out (- EINVARG), s1)
       else do {
         let mydisk = disk_get (pr_drive_no r);
         if mydisk = DISK_NULL then Some (fopen_out (- EIO), s1)
         else do {
           d \<leftarrow> disk_of mydisk s1;
           if dk_filesystem d \<noteq> FS_NULL then Some (fopen_out (- EIO), s1)
           else do {
             mode \<leftarrow> file_get_mode_by_string mode_str;
             if mode = FILE_MODE_INVALID then Some (fopen_out (- EINVARG), s1)
             else do {
               (private, s2) \<leftarrow> fs_call_open (dk_filesystem d) P mydisk (pr_first r) mode s1;
               if ISERR private then Some (fopen_out (to_int private), s2)
               else do {
                 (res, desc, s3) \<leftarrow> file_new_descriptor s2;
                 if res < 0 then Some (fopen_out res, s3)
                 else do {
                   d3 \<leftarrow> disk_of mydisk s3;
                   fl \<leftarrow> obj_file s3 desc;
                   Some (fopen_out (fl_index fl),
                     store desc (OFile (fl\<lparr>fl_filesystem := dk_filesystem d3, fl_private := private, fl_disk := mydisk\<rparr>)) s3)
                 } } } } } } } }"

definition fread :: "'d ports \<Rightarrow> u32 \<Rightarrow> u32 \<Rightarrow> u32 \<Rightarrow> int \<Rightarrow> 'd kst \<Rightarrow> (int \<times> u8 list \<times> 'd kst) option" where
  "fread P ptr size1 nmemb fd s =
     (if size1 = 0 \<or> nmemb = 0 \<or> fd < 1 then Some (- EINVARG, [], s)
      else do {
        desc \<leftarrow> file_get_descriptor fd s;
        if desc = 0 then Some (- ENOMEM, [], s)
        else do {
          fl \<leftarrow> obj_file s desc;
          fs_call_read (fl_filesystem fl) P (fl_disk fl) (fl_private fl) size1 nmemb ptr s } })"

definition fseek :: "int \<Rightarrow> int \<Rightarrow> u32 \<Rightarrow> 'd kst \<Rightarrow> (int \<times> 'd kst) option" where
  "fseek fd offset whence s = do {
     desc \<leftarrow> file_get_descriptor fd s;
     if desc = 0 then Some (- EIO, s)
     else do {
       fl \<leftarrow> obj_file s desc;
       fs_call_seek (fl_filesystem fl) (fl_private fl) (word_of_int offset) whence s } }"

definition fstat :: "int \<Rightarrow> file_stat option \<Rightarrow> 'd kst \<Rightarrow> (int \<times> file_stat option \<times> 'd kst) option" where
  "fstat fd stat s = do {
     desc \<leftarrow> file_get_descriptor fd s;
     if desc = 0 then Some (- EIO, stat, s)
     else do {
       fl \<leftarrow> obj_file s desc;
       fs_call_stat (fl_filesystem fl) (fl_disk fl) (fl_private fl) stat s } }"

definition fclose :: "int \<Rightarrow> 'd kst \<Rightarrow> (int \<times> 'd kst) option" where
  "fclose fd s = do {
     desc \<leftarrow> file_get_descriptor fd s;
     if desc = 0 then Some (- EIO, s)
     else do {
       fl \<leftarrow> obj_file s desc;
       (res, s1) \<leftarrow> fs_call_close (fl_filesystem fl) (fl_private fl) s;
       if res \<noteq> 0 then Some (res, s1)
       else do { s2 \<leftarrow> file_free_descriptor desc s1; Some (res, s2) } } }"

section \<open>Tables\<close>

lemma free_filesystem_loop_eq:
  "i \<le> length fss \<Longrightarrow> free_filesystem_loop fss i n = (if \<exists>j. i \<le> j \<and> j < i + n \<and> j < length fss \<and> fss ! j = FS_NULL
     then Some (Some (LEAST j. i \<le> j \<and> fss ! j = FS_NULL)) else if i + n \<le> length fss then Some None else None)"
proof (induction n arbitrary: i)
  case 0
  then show ?case by simp
next
  case (Suc n)
  consider "length fss \<le> i" | "i < length fss" "fss ! i = FS_NULL" | "i < length fss" "fss ! i \<noteq> FS_NULL" by linarith
  then show ?case
  proof cases
    case 1
    then show ?thesis using Suc.prems by (auto simp: at_idx_def)
  next
    case 2
    then have "(LEAST j. i \<le> j \<and> fss ! j = FS_NULL) = i" by (intro Least_equality) auto
    then show ?thesis using 2 by (auto simp: at_idx_def)
  next
    case 3
    then have a: "i \<le> j \<and> fss ! j = FS_NULL \<longleftrightarrow> Suc i \<le> j \<and> fss ! j = FS_NULL" for j
      using le_neq_implies_less by fastforce
    have e: "(\<exists>j. i \<le> j \<and> j < i + Suc n \<and> j < length fss \<and> fss ! j = FS_NULL) \<longleftrightarrow>
        (\<exists>j. Suc i \<le> j \<and> j < Suc i + n \<and> j < length fss \<and> fss ! j = FS_NULL)"
      using a by auto
    show ?thesis using 3 Suc.IH [of "i + 1"] by (simp only: a e) (auto simp: at_idx_def)
  qed
qed

lemma fs_int_eq:
  "fs_int s = Some (s\<lparr>ks_file_descriptors := replicate 512 0, ks_filesystems := FAT16_FS # replicate 11 FS_NULL\<rparr>)"
proof -
  have "fat16_init (replicate 20 0) = Some (FAT16_FS, [0x46, 0x41, 0x54, 0x31, 0x36, 0] @ replicate 14 0)" by code_simp
  moreover have "free_filesystem_loop (replicate 12 FS_NULL) 0 512 = Some (Some 0)" by code_simp
  ultimately show ?thesis
    by (simp add: fs_int_def fs_load_def fs_static_load_def fs_insert_filesystem_def fs_get_free_filesystem_def put_idx_def)
      (simp add: numeral_eq_Suc)
qed

lemma mode_by_string:
  assumes "terminated (c # cs)"
  shows "file_get_mode_by_string (c # cs) = Some (if c = 0x72 then FILE_MODE_WRITE else FILE_MODE_READ)"
proof -
  have "uint c - 114 = 0 \<longleftrightarrow> c = 0x72" unfolding word_uint_eq_iff by simp
  then show ?thesis by (simp add: file_get_mode_by_string_def strncmp_def)
qed

lemma new_descriptor_loop_eq:
  assumes "\<forall>j. i \<le> j \<and> j < k \<longrightarrow> ks_file_descriptors s ! j \<noteq> 0" "i \<le> k" "k < i + n" "k < length (ks_file_descriptors s)"
    "ks_file_descriptors s ! k = 0"
  shows "new_descriptor_loop i n s = new_descriptor_loop k 1 s"
  using assms
proof (induction n arbitrary: i)
  case (Suc n)
  show ?case
  proof (cases "i = k")
    case True
    then show ?thesis using Suc.prems by (simp add: at_idx_def)
  next
    case False
    then have "new_descriptor_loop i (Suc n) s = new_descriptor_loop (i + 1) n s"
      using Suc.prems by (simp add: at_idx_def)
    also have "\<dots> = new_descriptor_loop k 1 s" using Suc.prems False by (intro Suc.IH) auto
    finally show ?thesis .
  qed
qed simp

lemma new_descriptor_full:
  "\<forall>j. i \<le> j \<and> j < i + n \<longrightarrow> j < length (ks_file_descriptors s) \<and> ks_file_descriptors s ! j \<noteq> 0 \<Longrightarrow>
   new_descriptor_loop i n s = Some (- ENOMEM, 0, s)"
  by (induction n arbitrary: i) (auto simp: at_idx_def)

section \<open>Opening\<close>

lemma fopen_zero:
  assumes "fopen P filename mode_str s = Some (r, t)"
  shows "r = 0"
  using assms
  by (auto simp: fopen_def fopen_out_def fs_call_open_def option_bind_Some_iff Let_def split: if_splits)

lemma fopen_parsed:
  assumes "heap_ok s B" "terminated bs" "cstr bs = d # 0x3A # 0x2F # body" "isdigit d" "length (cstr bs) \<le> 108"
    "path_parts body = c # cs" "2 * length (path_parts body) + 1 \<le> free_count (ks_heap s)" "terminated (m # ms)"
  shows "\<exists>X t. (if d \<noteq> 0x30 \<or> dk_filesystem (ks_disk s) \<noteq> FS_NULL then fopen P (Some bs) (m # ms) s = Some (0, t)
      else fopen P (Some bs) (m # ms) s = None) \<and>
    heap_ok t (with_blocks B X) \<and> grown s X t \<and> (\<forall>p \<in> X. B p = None) \<and> card X = 2 * length (path_parts body) + 1"
proof -
  obtain r t ps first where t: "pathparser_parse (Some bs) None s = Some (r, t)" "r \<noteq> 0" "B r = None"
    "grown s (insert r (set (addrs ps))) t" "distinct (r # addrs ps)" "\<forall>p \<in> set (addrs ps). B p = None"
    "heap_ok t (with_blocks B (insert r (set (addrs ps))))"
    "ks_objs t r = Some (ORoot \<lparr>pr_drive_no = sint d - 48, pr_first = first\<rparr>)" "parts_at (ks_objs t) first ps (c # cs)"
    using parse_builds [OF assms(1-6), of None] assms(7) by (metis assms(6))
  have "first \<noteq> 0" using t(9) by (auto simp: parts_at_Cons)
  have len: "length (addrs ps) = 2 * length (c # cs)" by (rule length_addrs [OF t(9)])
  have card: "card (insert r (set (addrs ps))) = 2 * length (path_parts body) + 1"
    using distinct_card [OF t(5)] len by (simp add: assms(6))
  have dig: "sint d - 48 > 0 \<longleftrightarrow> d \<noteq> 0x30"
  proof -
    have "sint (0x30 :: u8) = 48" by simp
    moreover have "48 \<le> sint d" using assms(4) by (auto simp: isdigit_def)
    moreover have "sint d = sint (0x30 :: u8) \<longleftrightarrow> d = 0x30" using signed_word_eqI [of d "0x30"] by blast
    ultimately show ?thesis by auto
  qed
  have disk: "ks_disk t = ks_disk s" using grown_rest [OF t(4)] by simp
  let ?m = "if m = 0x72 then FILE_MODE_WRITE else FILE_MODE_READ"
  have "fopen P (Some bs) (m # ms) s = (if d \<noteq> 0x30 \<or> dk_filesystem (ks_disk s) \<noteq> FS_NULL then Some (0, t) else None)"
    using t(1,2,8) \<open>first \<noteq> 0\<close> mode_by_string [OF assms(8)] disk dig
    by (auto simp: fopen_def fopen_out_def deref disk_get_def disk_of_def fs_call_open_def)
  then show ?thesis using t(3,4,6,7) card
    by (intro exI [of _ "insert r (set (addrs ps))"] exI [of _ t]) auto
qed

section \<open>Open descriptors\<close>

text \<open>An open FAT16 file, whatever state it was opened in.\<close>

definition fat_core ::
  "'d ports \<Rightarrow> (nat \<Rightarrow> u8) \<Rightarrow> nat \<Rightarrow> ('d \<Rightarrow> bool) \<Rightarrow> fat_private \<Rightarrow> (u32 \<Rightarrow> nat option) \<Rightarrow>
   fat_directory_item \<Rightarrow> u32 \<Rightarrow> 'd kst \<Rightarrow> u8 list \<Rightarrow> nat \<Rightarrow> bool" where
  "fat_core P img cap idle fp B it d s bs pos \<longleftrightarrow> mounted P img cap idle fp s \<and>
     file_ok img fp cap it \<and> bs = file_data img fp it \<and> pos \<le> length bs \<and>
     (\<exists>A. file_at img fp s d it (of_nat pos) A \<and> heap_ok s (with_blocks B A) \<and> (\<forall>a \<in> A. B a = None))"

text \<open>Descriptor \<open>fd\<close> of the table is bound to it.\<close>

definition fd_file ::
  "'d ports \<Rightarrow> (nat \<Rightarrow> u8) \<Rightarrow> nat \<Rightarrow> ('d \<Rightarrow> bool) \<Rightarrow> fat_private \<Rightarrow> (u32 \<Rightarrow> nat option) \<Rightarrow>
   fat_directory_item \<Rightarrow> int \<Rightarrow> 'd kst \<Rightarrow> u8 list \<Rightarrow> nat \<Rightarrow> bool" where
  "fd_file P img cap idle fp B it fd s bs pos \<longleftrightarrow> 1 \<le> fd \<and> fd < 512 \<and> length (ks_file_descriptors s) = 512 \<and>
     (\<exists>desc priv. ks_file_descriptors s ! nat (fd - 1) = desc \<and> desc \<noteq> 0 \<and> B desc \<noteq> None \<and>
       ks_objs s desc = Some (OFile \<lparr>fl_index = fd, fl_filesystem = FAT16_FS, fl_private = priv, fl_disk = DISK\<rparr>) \<and>
       fat_core P img cap idle fp B it priv s bs pos)"

lemma core_opened:
  assumes "fat_core P img cap idle fp B it d s bs pos"
  shows "\<exists>s0. fat_file P img cap idle fp B s0 it d s bs pos \<and> fat16_close d s = Some (0, s0)"
proof -
  obtain A where A: "file_at img fp s d it (of_nat pos) A" "heap_ok s (with_blocks B A)" "\<forall>a \<in> A. B a = None"
    using assms by (auto simp: fat_core_def)
  obtain s0 where s0: "fat16_close d s = Some (0, s0)" "heap_ok s0 B" "grown s A s0" by (rule close_frees [OF A])
  then show ?thesis using assms A evolved_sym [OF grown_evolved [OF s0(3)]] unfolding fat_file_def fat_core_def by blast
qed

lemma opened_core: "fat_file P img cap idle fp B s0 it d s bs pos \<Longrightarrow> fat_core P img cap idle fp B it d s bs pos"
  unfolding fat_file_def fat_core_def by blast

text \<open>Objects outside the file stay in place while it is used.\<close>

lemma opened_keeps:
  assumes "fat_file P img cap idle fp B s0 it d s bs pos" "fat_file P img cap idle fp B s0 it d t bs pos'"
    "B p \<noteq> None" "ks_objs s p = Some x" "\<forall>q. x \<noteq> OStream q"
  shows "ks_objs t p = Some x \<and> ks_file_descriptors t = ks_file_descriptors s"
proof -
  have "heap_ok s0 B" using assms(1) by (simp add: fat_file_def)
  obtain A where A: "evolved s0 A s" "\<forall>a \<in> A. B a = None" using assms(1) by (auto simp: fat_file_def)
  obtain A' where A': "evolved s0 A' t" "\<forall>a \<in> A'. B a = None" using assms(2) by (auto simp: fat_file_def)
  have p: "p \<notin> A" "p \<notin> A'" using A(2) A'(2) assms(3) by auto
  have "ks_objs s0 p = Some x" using evolved_cases [OF A(1) p(1)] assms(4,5) by (auto simp: stream_at_def)
  then have "ks_objs t p = Some x" by (rule evolved_objs [OF A'(1) p(2) _ assms(5)])
  then show ?thesis using A(1) A'(1) by (simp add: evolved_def)
qed

lemma fd_fileE:
  assumes "fd_file P img cap idle fp B it fd s bs pos"
  obtains desc priv s0 where "file_get_descriptor fd s = Some desc" "desc \<noteq> 0" "B desc \<noteq> None"
    "ks_objs s desc = Some (OFile \<lparr>fl_index = fd, fl_filesystem = FAT16_FS, fl_private = priv, fl_disk = DISK\<rparr>)"
    "fat_file P img cap idle fp B s0 it priv s bs pos" "fat16_close priv s = Some (0, s0)"
proof -
  have g: "1 \<le> fd" "fd < 512" "length (ks_file_descriptors s) = 512" using assms by (simp_all add: fd_file_def)
  then have "file_get_descriptor fd s = Some (ks_file_descriptors s ! nat (fd - 1))"
    by (simp add: file_get_descriptor_def at_int_Some)
  moreover obtain priv where p: "ks_file_descriptors s ! nat (fd - 1) \<noteq> 0" "B (ks_file_descriptors s ! nat (fd - 1)) \<noteq> None"
    "ks_objs s (ks_file_descriptors s ! nat (fd - 1)) = Some (OFile \<lparr>fl_index = fd, fl_filesystem = FAT16_FS, fl_private = priv, fl_disk = DISK\<rparr>)"
    "fat_core P img cap idle fp B it priv s bs pos"
    using assms by (auto simp: fd_file_def)
  obtain s0 where "fat_file P img cap idle fp B s0 it priv s bs pos" "fat16_close priv s = Some (0, s0)"
    using core_opened [OF p(4)] by blast
  ultimately show thesis using p(1-3) that by blast
qed

lemma fd_file_step:
  assumes "fd_file P img cap idle fp B it fd s bs pos"
    "ks_objs s (ks_file_descriptors s ! nat (fd - 1)) = Some (OFile \<lparr>fl_index = fd, fl_filesystem = FAT16_FS, fl_private = priv, fl_disk = DISK\<rparr>)"
    "fat_file P img cap idle fp B s0 it priv s bs pos" "fat_file P img cap idle fp B s0 it priv t bs pos'"
  shows "fd_file P img cap idle fp B it fd t bs pos'"
proof -
  let ?d = "ks_file_descriptors s ! nat (fd - 1)"
  have B: "B ?d \<noteq> None" "?d \<noteq> 0" using assms(1) by (auto simp: fd_file_def)
  have "ks_objs t ?d = ks_objs s ?d \<and> ks_file_descriptors t = ks_file_descriptors s"
    using opened_keeps [OF assms(3,4) B(1) assms(2)] assms(2) by simp
  then show ?thesis using assms(1,2) opened_core [OF assms(4)] B by (simp add: fd_file_def)
qed

definition fread_buffer :: "'d ports \<Rightarrow> int \<Rightarrow> u32 \<Rightarrow> u32 \<Rightarrow> 'd kst \<Rightarrow> (int \<times> u8 list \<times> 'd kst) option" where
  "fread_buffer P fd z n s = fread P 0x1000 z n fd s"

definition fseek_word :: "int \<Rightarrow> u32 \<Rightarrow> u32 \<Rightarrow> 'd kst \<Rightarrow> (int \<times> 'd kst) option" where
  "fseek_word fd off m s = fseek fd (to_int off) m s"

lemma word_of_to_int [simp]: "word_of_int (to_int w) = (w :: u32)"
proof -
  have "i32 x mod 4294967296 = x mod 4294967296" for x by (simp add: i32_def mod_diff_left_eq)
  then have "(word_of_int (i32 x) :: u32) = word_of_int x" for x
    unfolding word_of_int_eq_iff by (simp add: take_bit_eq_mod)
  then show ?thesis by (simp add: to_int_def)
qed

interpretation fd: file_provider "fd_file P img cap idle fp B it" "fread_buffer P" fseek_word
  for P img cap idle fp B it
proof
  fix fd s bs pos
  assume o: "fd_file P img cap idle fp B it fd s bs pos"
  show "pos \<le> length bs" using o unfolding fd_file_def fat_core_def by blast
  obtain desc priv s0 where f: "file_get_descriptor fd s = Some desc" "desc \<noteq> 0" "B desc \<noteq> None"
    "ks_objs s desc = Some (OFile \<lparr>fl_index = fd, fl_filesystem = FAT16_FS, fl_private = priv, fl_disk = DISK\<rparr>)"
    "fat_file P img cap idle fp B s0 it priv s bs pos"
    using o by (rule fd_fileE)
  have g: "1 \<le> fd" "fd < 512" "length (ks_file_descriptors s) = 512" using o by (simp_all add: fd_file_def)
  then have d: "ks_file_descriptors s ! nat (fd - 1) = desc" using f(1) by (simp add: file_get_descriptor_def at_int_Some)
  note step = fd_file_step [OF o f(4) [folded d] f(5)]
  have sk: "fseek_word fd off m s = fat16_seek priv off m s" for off m
    using f(1,2,4) by (simp add: fseek_word_def fseek_def deref fs_call_seek_def)
  fix off m z n k
  show "\<exists>t. fread_buffer P fd z n s = Some (int k, take (k * unat z) (drop pos bs), t) \<and>
      fd_file P img cap idle fp B it fd t bs (pos + k * unat z)"
    if "z \<noteq> 0" "n \<noteq> 0" "k = min (unat n) ((length bs - pos) div unat z)"
  proof -
    have "fread_buffer P fd z n s = fat16_read P DISK priv z n 0x1000 s"
      using that(1,2) g(1) f(1,2,4) by (simp add: fread_buffer_def fread_def deref fs_call_read_def)
    then show ?thesis using fat_read_ok [OF f(5) that(1,2) _ that(3), where out_ptr = "0x1000"] step by auto
  qed
  show "\<exists>t. fseek_word fd off 0 s = Some (0, t) \<and> fd_file P img cap idle fp B it fd t bs (unat off)" if "unat off \<le> length bs"
    using fat.sk_set [OF f(5) that] step unfolding sk by blast
  show "\<exists>t. fseek_word fd off 1 s = Some (0, t) \<and> fd_file P img cap idle fp B it fd t bs (pos + unat off)"
    if "pos + unat off \<le> length bs"
    using fat.sk_cur [OF f(5) that] step unfolding sk by blast
  show "fseek_word fd off m s = Some (if m = 0 \<or> m = 1 then - EIO else if m = 2 then - EUNIMP else - EINVARG, s)"
    if "m = 0 \<and> length bs < unat off \<or> m = 1 \<and> length bs < pos + unat off \<or> m \<noteq> 0 \<and> m \<noteq> 1"
    unfolding sk by (rule fat.sk_refused [OF f(5) that])
qed

section \<open>Closing and new descriptors\<close>

lemma heap_ok_cong: "heap_ok s B \<Longrightarrow> ks_heap t = ks_heap s \<Longrightarrow> ks_objs t = ks_objs s \<Longrightarrow> heap_ok t B"
  by (simp add: heap_ok_def)

lemma fclose_ok:
  assumes "fd_file P img cap idle fp B it fd s bs pos"
  shows "\<exists>desc t. file_get_descriptor fd s = Some desc \<and> fclose fd s = Some (0, t) \<and> heap_ok t (B(desc := None)) \<and>
    ks_file_descriptors t = (ks_file_descriptors s)[nat (fd - 1) := 0] \<and> file_get_descriptor fd t = Some 0"
  using assms
proof (cases rule: fd_fileE)
  fix desc priv s0
  assume f: "file_get_descriptor fd s = Some desc" "desc \<noteq> 0" "B desc \<noteq> None"
    "ks_objs s desc = Some (OFile \<lparr>fl_index = fd, fl_filesystem = FAT16_FS, fl_private = priv, fl_disk = DISK\<rparr>)"
    "fat_file P img cap idle fp B s0 it priv s bs pos" "fat16_close priv s = Some (0, s0)"
  have g: "1 \<le> fd" "fd < 512" "length (ks_file_descriptors s) = 512" using assms by (simp_all add: fd_file_def)
  have h0: "heap_ok s0 B" using f(5) by (simp add: fat_file_def)
  obtain A where A: "evolved s0 A s" "\<forall>a \<in> A. B a = None" using f(5) by (auto simp: fat_file_def)
  have tab: "ks_file_descriptors s0 = ks_file_descriptors s" using A(1) by (simp add: evolved_def)
  have "desc \<notin> A" using A(2) f(3) by auto
  then have d0: "ks_objs s0 desc = Some (OFile \<lparr>fl_index = fd, fl_filesystem = FAT16_FS, fl_private = priv, fl_disk = DISK\<rparr>)"
    using evolved_cases [OF A(1)] f(4) by (fastforce simp: stream_at_def)
  let ?fds = "(ks_file_descriptors s)[nat (fd - 1) := 0]"
  let ?s1 = "s0\<lparr>ks_file_descriptors := ?fds\<rparr>"
  have "heap_ok ?s1 B" by (rule heap_ok_cong [OF h0]) simp_all
  then obtain h where h: "kfree desc ?s1 = Some (released desc h ?s1)" "heap_ok (released desc h ?s1) (B(desc := None))"
    by (rule kfree_ok [of _ _ desc])
  have "put_int (ks_file_descriptors s0) (i32 (fd - 1)) 0 = Some ?fds"
    using g by (simp add: put_int_def i32_id put_idx_def tab)
  then have "fclose fd s = Some (0, released desc h ?s1)"
    using f(1,2,4,6) d0 h(1) by (simp add: fclose_def deref fs_call_close_def file_free_descriptor_def)
  moreover have "ks_file_descriptors (released desc h ?s1) = ?fds" by (simp add: released_def)
  moreover from this have "file_get_descriptor fd (released desc h ?s1) = Some 0"
    using g by (simp add: file_get_descriptor_def at_int_Some)
  ultimately show ?thesis using f(1) h(2) by blast
qed

lemma new_descriptor_ok:
  assumes "heap_ok s B" "length (ks_file_descriptors s) = 512" "k < 512" "\<forall>j < k. ks_file_descriptors s ! j \<noteq> 0"
    "ks_file_descriptors s ! k = 0" "0 < free_count (ks_heap s)"
  shows "\<exists>desc t. file_new_descriptor s = Some (0, desc, t) \<and> desc \<noteq> 0 \<and> B desc = None \<and>
    ks_objs t desc = Some (OFile \<lparr>fl_index = int k + 1, fl_filesystem = FS_NULL, fl_private = 0, fl_disk = DISK_NULL\<rparr>) \<and>
    ks_file_descriptors t = (ks_file_descriptors s)[k := desc] \<and> heap_ok t (B(desc \<mapsto> 1)) \<and>
    file_get_descriptor (int k + 1) t = Some (if k < 511 then desc else 0) \<and> file_free_descriptor desc t = Some s"
proof -
  let ?z = "OFile \<lparr>fl_index = 0, fl_filesystem = FS_NULL, fl_private = 0, fl_disk = DISK_NULL\<rparr>"
  let ?f = "OFile \<lparr>fl_index = int k + 1, fl_filesystem = FS_NULL, fl_private = 0, fl_disk = DISK_NULL\<rparr>"
  obtain p h where m: "zalloc 16 ?z s = Some (p, store p ?z (s\<lparr>ks_heap := h\<rparr>))" "p \<noteq> 0" "B p = None" "ks_objs s p = None"
    "heap_ok (store p ?z (s\<lparr>ks_heap := h\<rparr>)) (B(p \<mapsto> 1))" "same_frame (ks_heap s) h"
    by (rule zalloc_one_block [OF assms(1), of 16 ?z]) (use assms(6) in auto)
  let ?fds = "(ks_file_descriptors s)[k := p]"
  let ?t = "(store p ?f (s\<lparr>ks_heap := h\<rparr>))\<lparr>ks_file_descriptors := ?fds\<rparr>"
  have "file_new_descriptor s = Some (0, p, ?t)"
    using new_descriptor_loop_eq [of 0 k s 512] assms(2-5) m(1)
    by (simp add: file_new_descriptor_def at_idx_def put_idx_def deref)
  moreover have ht: "heap_ok ?t (B(p \<mapsto> 1))"
    by (rule heap_ok_cong [OF heap_ok_restore [OF m(5), of ?f]]) simp_all
  moreover have "file_get_descriptor (int k + 1) ?t = Some (if k < 511 then p else 0)"
    using assms(2,3) by (auto simp: file_get_descriptor_def at_int_Some)
  moreover have "file_free_descriptor p ?t = Some s"
  proof -
    let ?t1 = "?t\<lparr>ks_file_descriptors := ks_file_descriptors s\<rparr>"
    have "heap_ok ?t1 (B(p \<mapsto> 1))" by (rule heap_ok_cong [OF ht]) simp_all
    then have "kfree p ?t1 = Some (released p (ks_heap s) ?t1)"
      using kfree_last [OF assms(1) m(3), of ?t1 1] m(6) by simp
    moreover have "released p (ks_heap s) ?t1 = s"
      using m(4) by (auto simp: released_def store_def fun_upd_idem)
    moreover have "put_int ?fds (i32 (int k)) 0 = Some (ks_file_descriptors s)"
      using assms(2,3) list_update_id [of "ks_file_descriptors s" k] assms(5)
      by (simp add: put_int_def i32_id put_idx_def)
    ultimately show ?thesis by (simp add: file_free_descriptor_def deref)
  qed
  ultimately show ?thesis using m(2,3) by (intro exI [of _ p] exI [of _ ?t]) simp
qed

text \<open>What \<open>fopen\<close> does after opening makes the file usable through its number.\<close>

lemma bind_descriptor:
  assumes "fat_core P img cap idle fp B it priv s bs pos" "length (ks_file_descriptors s) = 512" "k < 511"
    "\<forall>j < k. ks_file_descriptors s ! j \<noteq> 0" "ks_file_descriptors s ! k = 0" "0 < free_count (ks_heap s)"
  shows "\<exists>desc t. file_new_descriptor s = Some (0, desc, t) \<and> fd_file P img cap idle fp (B(desc \<mapsto> 1)) it (int k + 1)
    (store desc (OFile \<lparr>fl_index = int k + 1, fl_filesystem = FAT16_FS, fl_private = priv, fl_disk = DISK\<rparr>) t) bs pos"
proof -
  obtain A where A: "file_at img fp s priv it (of_nat pos) A" "heap_ok s (with_blocks B A)" "\<forall>a \<in> A. B a = None"
    using assms(1) by (auto simp: fat_core_def)
  obtain desc t where t: "file_new_descriptor s = Some (0, desc, t)" "desc \<noteq> 0" "with_blocks B A desc = None"
    "ks_file_descriptors t = (ks_file_descriptors s)[k := desc]" "heap_ok t ((with_blocks B A)(desc \<mapsto> 1))"
    "ks_objs t desc = Some (OFile \<lparr>fl_index = int k + 1, fl_filesystem = FS_NULL, fl_private = 0, fl_disk = DISK_NULL\<rparr>)"
    "file_free_descriptor desc t = Some s"
    using new_descriptor_ok [OF A(2) assms(2) _ assms(4-6)] assms(3) by auto
  let ?t = "store desc (OFile \<lparr>fl_index = int k + 1, fl_filesystem = FAT16_FS, fl_private = priv, fl_disk = DISK\<rparr>) t"
  have same: "ks_objs ?t p = ks_objs s p" if "p \<noteq> desc" for p
    using t(6,7) that by (auto simp: file_free_descriptor_def option_bind_Some_iff kfree_def deref)
  have rest: "ks_dev ?t = ks_dev s" "ks_disk ?t = ks_disk s"
    using t(7) by (auto simp: file_free_descriptor_def option_bind_Some_iff kfree_def)
  have D: "desc \<notin> A" "B desc = None" using t(3) by (simp_all add: with_blocks_None)
  have dn: "ks_objs s desc = None" using heap_ok_None [OF A(2)] t(3) by blast
  have "mounted P img cap idle fp s" using assms(1) by (simp add: fat_core_def)
  then have "mounted P img cap idle fp ?t"
  proof (rule mounted_cong)
    show "ks_objs ?t (dk_fs_private (ks_disk s)) = ks_objs s (dk_fs_private (ks_disk s))"
      using assms(1) dn by (intro same) (auto simp: fat_core_def mounted_def)
    show "\<forall>p. stream_at s p \<longrightarrow> stream_at ?t p" using same dn by (metis option.distinct(1) stream_at_cong stream_at_def)
  qed (use rest in simp_all)
  moreover have "file_at img fp ?t priv it (of_nat pos) A"
  proof -
    obtain f C where C: "priv \<noteq> 0" "\<not> is_dir it" "A = insert priv C" "priv \<notin> C"
      "ks_objs s priv = Some (OFatFile \<lparr>ff_item = f, ff_pos = of_nat pos\<rparr>)" "item_at img fp s f it C"
      using A(1) by (auto simp: file_at_def)
    have "item_at img fp ?t f it C" using C(3) D(1) by (intro item_at_cong [OF C(6)] ballI same) auto
    moreover have "ks_objs ?t priv = Some (OFatFile \<lparr>ff_item = f, ff_pos = of_nat pos\<rparr>)" using same [of priv] C(3,5) D(1) by auto
    ultimately show ?thesis using C unfolding file_at_def by blast
  qed
  moreover have "heap_ok ?t (with_blocks (B(desc \<mapsto> 1)) A)"
  proof -
    have "with_blocks (B(desc \<mapsto> 1)) A = (with_blocks B A)(desc \<mapsto> 1)" using D by (auto simp: with_blocks_def fun_eq_iff)
    then show ?thesis using heap_ok_store [OF t(5), of desc] t(6) by simp
  qed
  ultimately have "fat_core P img cap idle fp (B(desc \<mapsto> 1)) it priv ?t bs pos"
    using assms(1) A(3) D(1) unfolding fat_core_def by auto
  then have "fd_file P img cap idle fp (B(desc \<mapsto> 1)) it (int k + 1) ?t bs pos"
    using assms(2,3) t(2,4) by (simp add: fd_file_def)
  then show ?thesis using t(1) by blast
qed

section \<open>Finding the disk's filesystem\<close>

lemma fs_resolve_null: "ks_filesystems s = replicate 12 FS_NULL \<Longrightarrow> fs_resolve P dk s = Some (FS_NULL, s)"
proof -
  assume f: "ks_filesystems s = replicate 12 FS_NULL"
  have "i + n \<le> 12 \<Longrightarrow> fs_resolve_loop P dk i n s = Some (FS_NULL, s)" for i n
    by (induction n arbitrary: i) (simp_all add: at_idx_def f)
  then show ?thesis by (simp add: fs_resolve_def)
qed

lemma disk_init_no_filesystem:
  assumes "ks_filesystems s = replicate 12 FS_NULL"
  shows "disk_search_and_init P s =
    Some (s\<lparr>ks_disk := \<lparr>dk_id = 0, dk_type = 0, dk_sector_size = 512, dk_filesystem = FS_NULL, dk_fs_private = 0\<rparr>\<rparr>)"
  using fs_resolve_null [of "s\<lparr>ks_disk := \<lparr>dk_id = 0, dk_type = 0, dk_sector_size = 512, dk_filesystem = FS_NULL, dk_fs_private = 0\<rparr>\<rparr>" P DISK] assms
  by (simp add: disk_search_and_init_def)

lemma fs_resolve_fat16:
  assumes "ks_filesystems s = FAT16_FS # fss" "fat16_resolve P dk s = Some (0, t)" "ks_filesystems t = ks_filesystems s"
  shows "fs_resolve P dk s = Some (FAT16_FS, t)"
proof -
  have "(12 :: nat) = Suc 11" by simp
  then show ?thesis using assms by (simp only: fs_resolve_def fs_resolve_loop.simps) (simp add: at_idx_def fs_call_resolve_def)
qed

section \<open>An open descriptor on the demo volume\<close>

definition demo_open :: "sim_disk kst" where
  "demo_open = demo_state
     \<lparr>ks_heap := \<lparr>hp_table = \<lparr>ht_entries = Some (replicate 9 0x41 @ replicate 11 0), ht_total = 20\<rparr>, hp_saddr = 0x01000000\<rparr>,
      ks_file_descriptors := 0x01008000 # replicate 511 0,
      ks_objs := (ks_objs demo_state)(
        0x01005000 \<mapsto> OFatFile \<lparr>ff_item = 0x01006000, ff_pos = 0\<rparr>, 0x01006000 \<mapsto> OFatItem \<lparr>fi_shared = 0x01007000, fi_type = 1\<rparr>,
        0x01007000 \<mapsto> OItems [decode_item (slice demo_img 153088 32)],
        0x01008000 \<mapsto> OFile \<lparr>fl_index = 1, fl_filesystem = FAT16_FS, fl_private = 0x01005000, fl_disk = DISK\<rparr>)\<rparr>"

lemma demo_open_heap_ok: "heap_ok demo_open (with_blocks (demo_owned(0x01008000 \<mapsto> 1)) {0x01005000, 0x01006000, 0x01007000})"
proof -
  let ?h = "\<lambda>k. \<lparr>hp_table = \<lparr>ht_entries = Some (replicate k 0x41 @ replicate (20 - k) 0), ht_total = 20\<rparr>, hp_saddr = 0x01000000\<rparr>"
  have r: "heap_malloc (?h 5) 8 = Some (0x01005000, ?h 6)" "heap_malloc (?h 6) 8 = Some (0x01006000, ?h 7)"
    "heap_malloc (?h 7) 8 = Some (0x01007000, ?h 8)" "heap_malloc (?h 8) 8 = Some (0x01008000, ?h 9)"
    by code_simp+
  have "heap_owns (?h 5) demo_owned" using demo_heap_ok by (simp add: heap_ok_def demo_state_def demo_heap_def)
  from owns_step [OF owns_step [OF owns_step [OF owns_step [OF this r(1)] r(2)] r(3)] r(4)]
  have "heap_owns (ks_heap demo_open) (demo_owned(0x01005000 \<mapsto> 1, 0x01006000 \<mapsto> 1, 0x01007000 \<mapsto> 1, 0x01008000 \<mapsto> 1))"
    by (simp add: demo_open_def)
  moreover have "demo_owned(0x01005000 \<mapsto> 1, 0x01006000 \<mapsto> 1, 0x01007000 \<mapsto> 1, 0x01008000 \<mapsto> 1) =
      with_blocks (demo_owned(0x01008000 \<mapsto> 1)) {0x01005000, 0x01006000, 0x01007000}"
    by (auto simp: with_blocks_def fun_eq_iff)
  ultimately show ?thesis using demo_heap_ok by (auto simp: heap_ok_def demo_open_def with_blocks_def)
qed

lemma demo_fd_file:
  "fd_file (sim_ports demo_img) demo_img 4000 sim_idle demo_fp (demo_owned(0x01008000 \<mapsto> 1))
     (decode_item (slice demo_img 153088 32)) 1 demo_open (file_data demo_img demo_fp (decode_item (slice demo_img 153088 32))) 0"
proof -
  have "mounted (sim_ports demo_img) demo_img 4000 sim_idle demo_fp demo_open"
    by (rule mounted_cong [OF demo_mounted]) (auto simp: demo_open_def demo_state_def stream_at_def)
  moreover have "file_at demo_img demo_fp demo_open 0x01005000 (decode_item (slice demo_img 153088 32)) (of_nat 0)
      {0x01005000, 0x01006000, 0x01007000}"
    unfolding file_at_def item_at_def
    by (intro conjI exI [of _ "0x01006000"] exI [of _ "{0x01006000, 0x01007000}"] exI [of _ "0x01007000"])
      (simp_all add: demo_open_def demo_find(3))
  moreover have "\<forall>a \<in> {0x01005000, 0x01006000, 0x01007000}. (demo_owned(0x01008000 \<mapsto> 1)) a = None"
    by (simp add: demo_owned_def)
  ultimately have "fat_core (sim_ports demo_img) demo_img 4000 sim_idle demo_fp (demo_owned(0x01008000 \<mapsto> 1))
     (decode_item (slice demo_img 153088 32)) 0x01005000 demo_open (file_data demo_img demo_fp (decode_item (slice demo_img 153088 32))) 0"
    using demo_open_heap_ok demo_file(2) unfolding fat_core_def by blast
  then show ?thesis by (simp add: fd_file_def demo_open_def)
qed

section \<open>Properties\<close>

text \<open>
  C28. \<open>fopen\<close> never opens a file: whatever the file name, the mode, the disk and the
  state, a call that returns returns 0. With a filesystem bound to the disk it gives up at
  the inverted test \<open>if (mydisk->filesystem)\<close>, and without one it calls through null.
\<close>

theorem fopen_never_opens:
  assumes "fopen P filename mode_str s = Some (r, t)"
  shows "r = 0"
  using assms by (rule fopen_zero)

theorem fopen_never_opens_witness:
  "\<exists>r t. fopen (sim_ports demo_img) (Some [0x30, 0x3A, 97, 0]) [0x72, 0] demo_state = Some (r, t) \<and> r = 0"
proof -
  have "pathparser_parse (Some [0x30, 0x3A, 97, 0]) None demo_state = Some (0, demo_state)"
    by (simp add: pathparser_parse_def strlen_eq terminated_def get_drive_eq drive_path_def)
  then have f: "fopen (sim_ports demo_img) (Some [0x30, 0x3A, 97, 0]) [0x72, 0] demo_state = Some (fopen_out (- EINVARG), demo_state)"
    by (simp add: fopen_def)
  show ?thesis using f fopen_never_opens [OF f] by blast
qed

text \<open>
  C29. On a valid path \<open>fopen\<close> either calls \<open>open\<close> through a null filesystem (drive 0 with no
  filesystem bound) or returns 0 and leaves the parsed path on the heap: two blocks for
  each component and one for the root are lost in every call.
\<close>

theorem fopen_loses_path:
  assumes "heap_ok s B" "terminated bs" "cstr bs = d # 0x3A # 0x2F # body" "isdigit d" "length (cstr bs) \<le> 108"
    "path_parts body = c # cs" "2 * length (path_parts body) + 1 \<le> free_count (ks_heap s)" "terminated (m # ms)"
  shows "\<exists>X t. (if d \<noteq> 0x30 \<or> dk_filesystem (ks_disk s) \<noteq> FS_NULL then fopen P (Some bs) (m # ms) s = Some (0, t)
      else fopen P (Some bs) (m # ms) s = None) \<and>
    heap_ok t (with_blocks B X) \<and> grown s X t \<and> (\<forall>p \<in> X. B p = None) \<and> card X = 2 * length (path_parts body) + 1"
  using assms by (rule fopen_parsed)

theorem fopen_loses_path_witness:
  "\<exists>X t. (if (0x30 :: u8) \<noteq> 0x30 \<or> dk_filesystem (ks_disk demo_state) \<noteq> FS_NULL
      then fopen (sim_ports demo_img) (Some [0x30, 0x3A, 0x2F, 97, 0]) (0x72 # [0]) demo_state = Some (0, t)
      else fopen (sim_ports demo_img) (Some [0x30, 0x3A, 0x2F, 97, 0]) (0x72 # [0]) demo_state = None) \<and>
    heap_ok t (with_blocks demo_owned X) \<and> grown demo_state X t \<and> (\<forall>p \<in> X. demo_owned p = None) \<and>
    card X = 2 * length (path_parts [97]) + 1"
proof (rule fopen_loses_path [OF demo_heap_ok, where d = "0x30" and c = "[97]" and cs = "[]"])
  show "2 * length (path_parts [97]) + 1 \<le> free_count (ks_heap demo_state)"
    by (simp add: path_parts.simps demo_state_def demo_heap_def free_count_def)
qed (simp_all add: path_parts.simps isdigit_def terminated_def)

text \<open>
  C19. Through the numbers of the descriptor table a file behaves as the abstract file: any
  sequence of \<open>fread\<close> and \<open>fseek\<close> calls on a descriptor bound to an open FAT16 file gives
  the results and bytes of the file's contents, and the descriptor stays bound.
\<close>

theorem descriptor_file_refines:
  assumes "fd_file P img cap idle fp B it fd s bs pos" "\<forall>x \<in> set xs. valid_op x"
  shows "\<exists>t pos'. run_ops (fread_buffer P) fseek_word fd xs s = Some (file_run_spec bs pos xs, t) \<and>
    fd_file P img cap idle fp B it fd t bs pos'"
  using assms by (rule fd.run_refines)

theorem descriptor_file_refines_witness:
  "\<exists>t pos'. run_ops (fread_buffer (sim_ports demo_img)) fseek_word 1 [Read 7 10, Seek 5 1, Read 1 999] demo_open =
      Some (file_run_spec (file_data demo_img demo_fp (decode_item (slice demo_img 153088 32))) 0 [Read 7 10, Seek 5 1, Read 1 999], t) \<and>
    fd_file (sim_ports demo_img) demo_img 4000 sim_idle demo_fp (demo_owned(0x01008000 \<mapsto> 1))
      (decode_item (slice demo_img 153088 32)) 1 t (file_data demo_img demo_fp (decode_item (slice demo_img 153088 32))) pos'"
  by (rule descriptor_file_refines [OF demo_fd_file]) simp

text \<open>
  C12. \<open>fclose\<close> on such a descriptor returns 0, gives back every block of the open file and
  of the descriptor, and empties its slot, so that the number is not open any more.
\<close>

theorem fclose_releases:
  assumes "fd_file P img cap idle fp B it fd s bs pos"
  shows "\<exists>desc t. file_get_descriptor fd s = Some desc \<and> fclose fd s = Some (0, t) \<and> heap_ok t (B(desc := None)) \<and>
    ks_file_descriptors t = (ks_file_descriptors s)[nat (fd - 1) := 0] \<and> file_get_descriptor fd t = Some 0"
  using assms by (rule fclose_ok)

theorem fclose_releases_witness:
  "\<exists>desc t. file_get_descriptor 1 demo_open = Some desc \<and> fclose 1 demo_open = Some (0, t) \<and>
    heap_ok t ((demo_owned(0x01008000 \<mapsto> 1))(desc := None)) \<and>
    ks_file_descriptors t = (ks_file_descriptors demo_open)[nat (1 - 1) := 0] \<and> file_get_descriptor 1 t = Some 0"
  by (rule fclose_releases [OF demo_fd_file])

text \<open>
  C32. \<open>file_new_descriptor\<close> takes the lowest free slot of the table and numbers the
  descriptor from 1, and \<open>file_free_descriptor\<close> restores the very state before; but the
  number of the last slot, 512, is refused by \<open>file_get_descriptor\<close>.
\<close>

theorem file_descriptor_roundtrip:
  assumes "heap_ok s B" "length (ks_file_descriptors s) = 512" "k < 512" "\<forall>j < k. ks_file_descriptors s ! j \<noteq> 0"
    "ks_file_descriptors s ! k = 0" "0 < free_count (ks_heap s)"
  shows "\<exists>desc t. file_new_descriptor s = Some (0, desc, t) \<and> desc \<noteq> 0 \<and> B desc = None \<and>
    ks_objs t desc = Some (OFile \<lparr>fl_index = int k + 1, fl_filesystem = FS_NULL, fl_private = 0, fl_disk = DISK_NULL\<rparr>) \<and>
    ks_file_descriptors t = (ks_file_descriptors s)[k := desc] \<and> heap_ok t (B(desc \<mapsto> 1)) \<and>
    file_get_descriptor (int k + 1) t = Some (if k < 511 then desc else 0) \<and> file_free_descriptor desc t = Some s"
  using assms by (rule new_descriptor_ok)

theorem file_descriptor_roundtrip_witness:
  "\<exists>desc t. file_new_descriptor demo_state = Some (0, desc, t) \<and> desc \<noteq> 0 \<and> demo_owned desc = None \<and>
    ks_objs t desc = Some (OFile \<lparr>fl_index = int 0 + 1, fl_filesystem = FS_NULL, fl_private = 0, fl_disk = DISK_NULL\<rparr>) \<and>
    ks_file_descriptors t = (ks_file_descriptors demo_state)[0 := desc] \<and> heap_ok t (demo_owned(desc \<mapsto> 1)) \<and>
    file_get_descriptor (int 0 + 1) t = Some (if 0 < (511 :: nat) then desc else 0) \<and> file_free_descriptor desc t = Some demo_state"
  by (rule file_descriptor_roundtrip [OF demo_heap_ok])
    (simp_all add: demo_state_def demo_heap_def boot_state_def free_count_def)

text \<open>
  The search for a free filesystem slot is bounded by the number of file descriptors
  instead of the 12 slots: it finds the lowest free slot when there is one, and on a full
  table it reads past the end of the array instead of returning null.
\<close>

theorem free_filesystem_overruns:
  assumes "length (ks_filesystems s) = 12"
  shows "fs_get_free_filesystem s =
    (if \<exists>j < 12. ks_filesystems s ! j = FS_NULL then Some (Some (LEAST j. ks_filesystems s ! j = FS_NULL)) else None)"
  using free_filesystem_loop_eq [of 0 "ks_filesystems s" 512] assms
  by (auto simp: fs_get_free_filesystem_def intro: less_trans)

theorem free_filesystem_overruns_witness:
  "fs_get_free_filesystem (demo_state\<lparr>ks_filesystems := replicate 12 FAT16_FS\<rparr>) =
    (if \<exists>j < 12. ks_filesystems (demo_state\<lparr>ks_filesystems := replicate 12 FAT16_FS\<rparr>) ! j = FS_NULL
     then Some (Some (LEAST j. ks_filesystems (demo_state\<lparr>ks_filesystems := replicate 12 FAT16_FS\<rparr>) ! j = FS_NULL)) else None)"
  by (rule free_filesystem_overruns) simp

text \<open>
  \<open>file_get_mode_by_string\<close> inverts its comparisons: the string \<open>r\<close> gives the mode for
  writing, every other string the mode for reading, and no string is invalid.
\<close>

theorem mode_string_inverted:
  assumes "terminated (c # cs)"
  shows "file_get_mode_by_string (c # cs) = Some (if c = 0x72 then FILE_MODE_WRITE else FILE_MODE_READ)"
  using assms by (rule mode_by_string)

theorem mode_string_inverted_witness:
  "file_get_mode_by_string (0x72 # [0]) = Some (if (0x72 :: u8) = 0x72 then FILE_MODE_WRITE else FILE_MODE_READ)"
  by (rule mode_string_inverted) (simp add: terminated_def)

lemma disk_init_ok:
  assumes "heap_ok s B" "disk_ready P img cap idle s" "ks_filesystems s = FAT16_FS # fss"
    "hdr = decode_header (slice img 0 62)" "fx_signature (fh_extended hdr) = 0x29"
    "0 < root_entries (fh_primary hdr)" "root_entries (fh_primary hdr) \<le> 128"
    "512 * root_sector (fh_primary hdr) + 32 * root_entries (fh_primary hdr) \<le> 512 * cap" "cap < 4194304"
    "fh_sectors_per_cluster (fh_primary hdr) \<noteq> 0" "unat (fh_reserved_sectors (fh_primary hdr)) + 256 \<le> cap"
    "6 \<le> free_count (ks_heap s)"
  obtains X t fp dir where "disk_search_and_init P s = Some t" "dk_filesystem (ks_disk t) = FAT16_FS"
    "mounted P img cap idle fp t" "fp_header fp = hdr" "fp_root_directory fp = loaded_root img (fh_primary hdr) dir"
    "ks_objs t dir = Some (OItems (decode_items (slice img (512 * root_sector (fh_primary hdr)) (32 * root_entries (fh_primary hdr)))))"
    "heap_ok t (with_blocks B X)" "finite X" "card X = 5" "\<forall>p \<in> X. B p = None" "evolved s X t"
proof -
  let ?s = "s\<lparr>ks_disk := \<lparr>dk_id = 0, dk_type = 0, dk_sector_size = 512, dk_filesystem = FS_NULL, dk_fs_private = 0\<rparr>\<rparr>"
  have h: "heap_ok ?s B" by (rule heap_ok_cong [OF assms(1)]) simp_all
  have d: "disk_ready P img cap idle ?s" using assms(2) by (simp add: disk_ready_def)
  obtain priv a b c dir t fp where t: "fat16_resolve P DISK ?s = Some (0, t)"
    "fp = \<lparr>fp_header = hdr, fp_root_directory = loaded_root img (fh_primary hdr) dir,
      fp_cluster_read_stream = a, fp_fat_read_stream = b, fp_directory_stream = c\<rparr>"
    "mounted P img cap idle fp t" "dk_filesystem (ks_disk t) = FAT16_FS"
    "ks_objs t dir = Some (OItems (decode_items (slice img (512 * root_sector (fh_primary hdr)) (32 * root_entries (fh_primary hdr)))))"
    "heap_ok t (with_blocks B {priv, a, b, c, dir})" "evolved ?s {priv, a, b, c, dir} t" "distinct [0, priv, a, b, c, dir]"
    "\<forall>p \<in> {priv, a, b, c, dir}. B p = None"
    using resolve_mounts [OF h d _ _ assms(4-11)] assms(12) by auto
  have "ks_filesystems t = ks_filesystems ?s" using t(7) by (simp add: evolved_def)
  then have "disk_search_and_init P s = Some (t\<lparr>ks_disk := (ks_disk t)\<lparr>dk_filesystem := FAT16_FS\<rparr>\<rparr>)"
    using fs_resolve_fat16 [of ?s fss P DISK t] assms(3) t(1) by (simp add: disk_search_and_init_def)
  moreover have "(ks_disk t)\<lparr>dk_filesystem := FAT16_FS\<rparr> = ks_disk t" using t(4) by (cases "ks_disk t") simp
  ultimately have "disk_search_and_init P s = Some t" by simp
  moreover have "card {priv, a, b, c, dir} = 5" using t(8) by simp
  moreover have "evolved s {priv, a, b, c, dir} t" using evolved_trans [OF evolved_disk t(7)] by simp
  ultimately show thesis using t by (intro that [of t fp dir "{priv, a, b, c, dir}"]) simp_all
qed

text \<open>
  C20. With FAT16 registered first, \<open>disk_search_and_init\<close> mounts a FAT16 disk: the disk is
  bound to FAT16, the volume carries the header's geometry and the decoded root directory,
  and five allocations were made. With an empty table of filesystems, as at boot, it binds
  none.
\<close>

theorem disk_init_mounts:
  assumes "heap_ok s B" "disk_ready P img cap idle s" "ks_filesystems s = FAT16_FS # fss"
    "hdr = decode_header (slice img 0 62)" "fx_signature (fh_extended hdr) = 0x29"
    "0 < root_entries (fh_primary hdr)" "root_entries (fh_primary hdr) \<le> 128"
    "512 * root_sector (fh_primary hdr) + 32 * root_entries (fh_primary hdr) \<le> 512 * cap" "cap < 4194304"
    "fh_sectors_per_cluster (fh_primary hdr) \<noteq> 0" "unat (fh_reserved_sectors (fh_primary hdr)) + 256 \<le> cap"
    "6 \<le> free_count (ks_heap s)"
  shows "(\<exists>X t fp dir. disk_search_and_init P s = Some t \<and> dk_filesystem (ks_disk t) = FAT16_FS \<and>
      mounted P img cap idle fp t \<and> fp_header fp = hdr \<and> fp_root_directory fp = loaded_root img (fh_primary hdr) dir \<and>
      ks_objs t dir = Some (OItems (decode_items (slice img (512 * root_sector (fh_primary hdr)) (32 * root_entries (fh_primary hdr))))) \<and>
      heap_ok t (with_blocks B X) \<and> card X = 5) \<and>
    (\<exists>u. disk_search_and_init P (s\<lparr>ks_filesystems := replicate 12 FS_NULL\<rparr>) = Some u \<and>
      dk_filesystem (ks_disk u) = FS_NULL \<and> ks_heap u = ks_heap s)"
proof
  show "\<exists>X t fp dir. disk_search_and_init P s = Some t \<and> dk_filesystem (ks_disk t) = FAT16_FS \<and>
      mounted P img cap idle fp t \<and> fp_header fp = hdr \<and> fp_root_directory fp = loaded_root img (fh_primary hdr) dir \<and>
      ks_objs t dir = Some (OItems (decode_items (slice img (512 * root_sector (fh_primary hdr)) (32 * root_entries (fh_primary hdr))))) \<and>
      heap_ok t (with_blocks B X) \<and> card X = 5"
    by (rule disk_init_ok [OF assms]) blast
qed (simp add: disk_init_no_filesystem)

theorem disk_init_mounts_witness:
  "let s = unmounted_state\<lparr>ks_filesystems := FAT16_FS # replicate 11 FS_NULL\<rparr>; hdr = decode_header (slice demo_img 0 62) in
   (\<exists>X t fp dir. disk_search_and_init (sim_ports demo_img) s = Some t \<and> dk_filesystem (ks_disk t) = FAT16_FS \<and>
      mounted (sim_ports demo_img) demo_img 4000 sim_idle fp t \<and> fp_header fp = hdr \<and>
      fp_root_directory fp = loaded_root demo_img (fh_primary hdr) dir \<and>
      ks_objs t dir = Some (OItems (decode_items (slice demo_img (512 * root_sector (fh_primary hdr)) (32 * root_entries (fh_primary hdr))))) \<and>
      heap_ok t (with_blocks Map.empty X) \<and> card X = 5) \<and>
    (\<exists>u. disk_search_and_init (sim_ports demo_img) (s\<lparr>ks_filesystems := replicate 12 FS_NULL\<rparr>) = Some u \<and>
      dk_filesystem (ks_disk u) = FS_NULL \<and> ks_heap u = ks_heap s)"
  unfolding Let_def
proof (rule disk_init_mounts [where cap = 4000 and idle = sim_idle])
  show "heap_ok (unmounted_state\<lparr>ks_filesystems := FAT16_FS # replicate 11 FS_NULL\<rparr>) Map.empty"
    by (rule heap_ok_cong [OF unmounted_ok(1)]) simp_all
  show "disk_ready (sim_ports demo_img) demo_img 4000 sim_idle (unmounted_state\<lparr>ks_filesystems := FAT16_FS # replicate 11 FS_NULL\<rparr>)"
    using unmounted_ok(3) by (simp add: disk_ready_def)
qed (simp_all add: unmounted_ok demo_header)

end
