(* ===== verification/Paging.thy ===== *)
theory Paging
  imports Kernel_State
begin

text \<open>
  Page tables: \<open>src/memory/paging/paging.c\<close>. A directory and a table are arrays of 1024
  words on the kernel heap. The two control registers that the assembly routines
  \<open>paging_load_directory\<close> and \<open>enable_paging\<close> write are the record \<open>mmu_regs\<close>; what the
  processor makes of them, the walk through directory and table, is \<open>translate\<close>.
\<close>

section \<open>Operations\<close>

abbreviation (input) PAGING_ACCESS_FROM_ALL :: u8 where "PAGING_ACCESS_FROM_ALL \<equiv> 4"
abbreviation (input) PAGING_IS_WRITABLE :: u8 where "PAGING_IS_WRITABLE \<equiv> 2"
abbreviation (input) PAGING_IS_PRESENT :: u8 where "PAGING_IS_PRESENT \<equiv> 1"
abbreviation (input) PAGING_TOTAL_ENTRIES_PER_TABLE :: u32 where "PAGING_TOTAL_ENTRIES_PER_TABLE \<equiv> 1024"
abbreviation (input) PAGING_PAGE_SIZE :: u32 where "PAGING_PAGE_SIZE \<equiv> 4096"

record mmu_regs =
  mm_current_directory :: u32
  mm_cr3 :: u32
  mm_enabled :: bool

definition obj_chunk :: "'d kst \<Rightarrow> u32 \<Rightarrow> u32 option" where
  "obj_chunk s p = (case ks_objs s p of Some (OChunk x) \<Rightarrow> Some x | _ \<Rightarrow> None)"

text \<open>The inner loop of \<open>paging_new_4gb\<close>; \<open>n\<close> is \<open>1024 - b\<close>.\<close>

fun entry_loop :: "u32 \<Rightarrow> u8 \<Rightarrow> nat \<Rightarrow> nat \<Rightarrow> u32 list \<Rightarrow> u32 list option" where
  "entry_loop offset flags b 0 entry = Some entry"
| "entry_loop offset flags b (Suc n) entry = do {
     entry1 \<leftarrow> put_idx entry b ((offset + of_nat b * PAGING_PAGE_SIZE) OR ucast flags);
     entry_loop offset flags (b + 1) n entry1 }"

text \<open>The outer loop; \<open>offset\<close>, an \<open>int\<close> in the code, only takes part in unsigned arithmetic.\<close>

fun directory_loop :: "u8 \<Rightarrow> u32 \<Rightarrow> nat \<Rightarrow> nat \<Rightarrow> u32 \<Rightarrow> 'd kst \<Rightarrow> 'd kst option" where
  "directory_loop flags directory i 0 offset s = Some s"
| "directory_loop flags directory i (Suc n) offset s = do {
     (entry, s1) \<leftarrow> kzalloc 4096 as_words s;
     words \<leftarrow> obj_words s1 entry;
     words1 \<leftarrow> entry_loop offset flags 0 1024 words;
     let s2 = store entry (OWords words1) s1;
     dir \<leftarrow> obj_words s2 directory;
     dir1 \<leftarrow> put_idx dir i (entry OR ucast flags OR ucast PAGING_IS_WRITABLE);
     directory_loop flags directory (i + 1) n (offset + PAGING_TOTAL_ENTRIES_PER_TABLE * PAGING_PAGE_SIZE)
       (store directory (OWords dir1) s2) }"

definition paging_new_4gb :: "u8 \<Rightarrow> 'd kst \<Rightarrow> (u32 \<times> 'd kst) option" where
  "paging_new_4gb flags s = do {
     (directory, s1) \<leftarrow> kzalloc 4096 as_words s;
     s2 \<leftarrow> directory_loop flags directory 0 1024 0 s1;
     (chunk_4gb, s3) \<leftarrow> kzalloc 4 as_chunk s2;
     c \<leftarrow> obj_chunk s3 chunk_4gb;
     Some (chunk_4gb, store chunk_4gb (OChunk directory) s3) }"

definition paging_switch :: "u32 \<Rightarrow> mmu_regs \<Rightarrow> mmu_regs" where
  "paging_switch directory m = m\<lparr>mm_cr3 := directory, mm_current_directory := directory\<rparr>"

definition enable_paging :: "mmu_regs \<Rightarrow> mmu_regs" where
  "enable_paging m = m\<lparr>mm_enabled := True\<rparr>"

definition pagin_4gb_chunk_get_directory :: "u32 \<Rightarrow> 'd kst \<Rightarrow> u32 option" where
  "pagin_4gb_chunk_get_directory chunk_4gb s = obj_chunk s chunk_4gb"

definition paging_is_aligned :: "u32 \<Rightarrow> bool" where
  "paging_is_aligned address \<longleftrightarrow> address mod PAGING_PAGE_SIZE = 0"

text \<open>The two out parameters are arguments and results.\<close>

definition paging_get_index :: "u32 \<Rightarrow> u32 \<Rightarrow> u32 \<Rightarrow> int \<times> u32 \<times> u32" where
  "paging_get_index virtual_address directory_index_out table_index_out =
     (if \<not> paging_is_aligned virtual_address then (- EINVARG, directory_index_out, table_index_out)
      else (0, virtual_address div (PAGING_TOTAL_ENTRIES_PER_TABLE * PAGING_PAGE_SIZE),
        virtual_address mod (PAGING_TOTAL_ENTRIES_PER_TABLE * PAGING_PAGE_SIZE) div PAGING_PAGE_SIZE))"

definition paging_set :: "u32 \<Rightarrow> u32 \<Rightarrow> u32 \<Rightarrow> 'd kst \<Rightarrow> (int \<times> 'd kst) option" where
  "paging_set directory VA PA s =
     (let (status, directory_index, table_index) = paging_get_index VA 0 0 in
      if status < 0 then Some (status, s)
      else do {
        dir \<leftarrow> obj_words s directory;
        entry \<leftarrow> at_idx dir (unat directory_index);
        let table = entry AND 0xfffff000;
        words \<leftarrow> obj_words s table;
        words1 \<leftarrow> put_idx words (unat table_index) PA;
        Some (0, store table (OWords words1) s) })"

section \<open>The walk of the processor\<close>

text \<open>
  The 32-bit, 4 KB-page walk: bits 31 to 22 select the directory entry, bits 21 to 12 the
  table entry; an entry without the present bit has no translation.
\<close>

definition translate :: "'d kst \<Rightarrow> u32 \<Rightarrow> u32 \<Rightarrow> u32 option" where
  "translate s cr3 va = do {
     dir \<leftarrow> obj_words s cr3;
     pde \<leftarrow> at_idx dir (unat (drop_bit 22 va));
     if \<not> bit pde 0 then None
     else do {
       words \<leftarrow> obj_words s (pde AND NOT (mask 12));
       pte \<leftarrow> at_idx words (unat (take_bit 10 (drop_bit 12 va)));
       if \<not> bit pte 0 then None else Some ((pte AND NOT (mask 12)) OR take_bit 12 va) } }"

text \<open>A directory in memory: its 1024 entries point to the distinct tables \<open>ts\<close>.\<close>

definition directory_at :: "'d kst \<Rightarrow> u32 \<Rightarrow> u32 \<Rightarrow> u32 list \<Rightarrow> u32 list list \<Rightarrow> bool" where
  "directory_at s dir fl ts ws \<longleftrightarrow> length ts = 1024 \<and> length ws = 1024 \<and> distinct (dir # ts) \<and> bit fl 0 \<and> fl AND NOT (mask 12) = 0 \<and>
     (\<forall>t \<in> set ts. t AND mask 12 = 0) \<and> ks_objs s dir = Some (OWords (map (\<lambda>t. t OR fl) ts)) \<and>
     (\<forall>i < 1024. length (ws ! i) = 1024 \<and> ks_objs s (ts ! i) = Some (OWords (ws ! i)))"

section \<open>Indices\<close>

lemma page_mask: "0xFFFFF000 = NOT (mask 12 :: u32)"
  by (simp add: mask_eq_exp_minus_1)

lemma aligned_mask: "paging_is_aligned a \<longleftrightarrow> a AND mask 12 = 0"
proof -
  have "a mod 4096 = take_bit 12 a" by (simp add: take_bit_eq_mod)
  then show ?thesis by (simp add: paging_is_aligned_def take_bit_eq_mask)
qed

lemma unat_dir_index: "unat (drop_bit 22 va) < 1024" for va :: u32
proof -
  have "unat (drop_bit 22 va) = unat va div 4194304" by (simp add: drop_bit_eq_div unat_div)
  then show ?thesis using unat32_bound [of va] by (simp add: less_mult_imp_div_less)
qed

lemma unat_table_index: "unat (take_bit 10 (drop_bit 12 va)) < 1024" for va :: u32
  by (simp add: take_bit_eq_mod unat_mod)

lemma get_index_eq:
  "paging_is_aligned va \<Longrightarrow> paging_get_index va a b = (0, drop_bit 22 va, take_bit 10 (drop_bit 12 va))"
proof -
  have "va mod 4194304 div 4096 = take_bit 10 (drop_bit 12 va)"
  proof -
    have "va mod 4194304 div 4096 = drop_bit 12 (take_bit 22 va)" by (simp add: drop_bit_eq_div take_bit_eq_mod)
    then show ?thesis by (simp add: drop_bit_take_bit)
  qed
  moreover have "va div 4194304 = drop_bit 22 va" by (simp add: drop_bit_eq_div)
  ultimately show "paging_is_aligned va \<Longrightarrow> paging_get_index va a b = (0, drop_bit 22 va, take_bit 10 (drop_bit 12 va))"
    by (simp add: paging_get_index_def)
qed

lemma or_flags:
  assumes "t AND mask 12 = (0 :: u32)" "fl AND NOT (mask 12) = 0"
  shows "(t OR fl) AND NOT (mask 12) = t"
proof (rule bit_word_eqI)
  fix n
  have "bit (t AND mask 12) n = False" "bit (fl AND NOT (mask 12)) n = False" using assms by simp_all
  then show "n < LENGTH(32) \<Longrightarrow> bit ((t OR fl) AND NOT (mask 12)) n = bit t n" by (auto simp: bit_simps)
qed

lemma page_split: "(va AND NOT (mask 12)) OR take_bit 12 va = (va :: u32)"
  by (rule bit_word_eqI) (auto simp: bit_simps)

lemma translate_eq:
  assumes "directory_at s dir fl ts ws"
  shows "translate s dir va = (let pte = ws ! unat (drop_bit 22 va) ! unat (take_bit 10 (drop_bit 12 va)) in
    if bit pte 0 then Some ((pte AND NOT (mask 12)) OR take_bit 12 va) else None)"
proof -
  let ?i = "unat (drop_bit 22 va)" and ?j = "unat (take_bit 10 (drop_bit 12 va))"
  have i: "?i < 1024" "?j < 1024" by (rule unat_dir_index, rule unat_table_index)
  have d: "length ts = 1024" "bit fl 0" "ks_objs s dir = Some (OWords (map (\<lambda>t. t OR fl) ts))"
    "length (ws ! ?i) = 1024" "ks_objs s (ts ! ?i) = Some (OWords (ws ! ?i))" "(ts ! ?i OR fl) AND NOT (mask 12) = ts ! ?i"
    using assms i(1) by (auto simp: directory_at_def intro!: or_flags)
  show ?thesis
    using i d by (simp add: translate_def deref at_idx_def bit_or_iff Let_def)
qed

section \<open>Setting a page\<close>

lemma page_eq_iff:
  "drop_bit 12 va = drop_bit 12 va' \<longleftrightarrow>
     drop_bit 22 va = drop_bit 22 va' \<and> take_bit 10 (drop_bit 12 va) = take_bit 10 (drop_bit 12 va')" for va :: u32
proof
  assume a: "drop_bit 12 va = drop_bit 12 va'"
  have "drop_bit 22 x = drop_bit 10 (drop_bit 12 x)" for x :: u32 by simp
  then show "drop_bit 22 va = drop_bit 22 va' \<and> take_bit 10 (drop_bit 12 va) = take_bit 10 (drop_bit 12 va')"
    using a by metis
next
  assume "drop_bit 22 va = drop_bit 22 va' \<and> take_bit 10 (drop_bit 12 va) = take_bit 10 (drop_bit 12 va')"
  moreover have "drop_bit 12 x = push_bit 10 (drop_bit 22 x) OR take_bit 10 (drop_bit 12 x)" for x :: u32
    by (rule bit_word_eqI) (auto simp: bit_simps)
  ultimately show "drop_bit 12 va = drop_bit 12 va'" by metis
qed

lemma paging_set_ok:
  assumes "directory_at s dir fl ts ws" "paging_is_aligned va"
  shows "\<exists>t ws'. paging_set dir va pa s = Some (0, t) \<and> directory_at t dir fl ts ws' \<and> grown s (set ts) t \<and>
    (\<forall>p. ks_objs t p = None \<longleftrightarrow> ks_objs s p = None) \<and> ks_heap t = ks_heap s \<and>
    (\<forall>va'. translate t dir va' = (if drop_bit 12 va' = drop_bit 12 va
       then (if bit pa 0 then Some ((pa AND NOT (mask 12)) OR take_bit 12 va') else None) else translate s dir va'))"
proof -
  let ?i = "unat (drop_bit 22 va)" and ?j = "unat (take_bit 10 (drop_bit 12 va))"
  have i: "?i < 1024" "?j < 1024" by (rule unat_dir_index, rule unat_table_index)
  have d: "length ts = 1024" "ks_objs s dir = Some (OWords (map (\<lambda>t. t OR fl) ts))" "length ws = 1024"
    "length (ws ! ?i) = 1024" "ks_objs s (ts ! ?i) = Some (OWords (ws ! ?i))" "(ts ! ?i OR fl) AND NOT (mask 12) = ts ! ?i"
    "distinct (dir # ts)"
    using assms(1) i(1) by (auto simp: directory_at_def intro!: or_flags)
  let ?t = "store (ts ! ?i) (OWords ((ws ! ?i)[?j := pa])) s" and ?ws = "ws[?i := (ws ! ?i)[?j := pa]]"
  have "paging_set dir va pa s = Some (0, ?t)"
    using get_index_eq [OF assms(2)] i d(1-6) unfolding paging_set_def page_mask
    by (simp add: deref at_idx_def put_idx_def)
  moreover have at: "directory_at ?t dir fl ts ?ws"
  proof -
    have "ts ! ?i \<in> set ts" using i(1) d(1) by simp
    then have "ts ! ?i \<noteq> dir" using d(7) by auto
    moreover have "ts ! k = ts ! ?i \<longleftrightarrow> k = ?i" if "k < 1024" for k
      using that i(1) d(1,7) by (simp add: nth_eq_iff_index_eq)
    ultimately show ?thesis using assms(1) i by (simp add: directory_at_def nth_list_update)
  qed
  moreover have "grown s (set ts) ?t"
    by (rule grown_mono [OF grown_store]) (use i(1) d(1) in auto)
  moreover have "translate ?t dir va' = (if drop_bit 12 va' = drop_bit 12 va
       then (if bit pa 0 then Some ((pa AND NOT (mask 12)) OR take_bit 12 va') else None) else translate s dir va')" for va'
  proof (cases "drop_bit 12 va' = drop_bit 12 va")
    case True
    then have "drop_bit 22 va' = drop_bit 22 va" "take_bit 10 (drop_bit 12 va') = take_bit 10 (drop_bit 12 va)"
      by (simp_all only: page_eq_iff)
    then show ?thesis using True translate_eq [OF at, of va'] i d(3,4) by (simp add: Let_def)
  next
    case False
    then have "?i \<noteq> unat (drop_bit 22 va') \<or> ?j \<noteq> unat (take_bit 10 (drop_bit 12 va'))"
      by (metis page_eq_iff word_unat_eq_iff)
    then have "?ws ! unat (drop_bit 22 va') ! unat (take_bit 10 (drop_bit 12 va')) =
        ws ! unat (drop_bit 22 va') ! unat (take_bit 10 (drop_bit 12 va'))"
      using i d(3) by (cases "?i = unat (drop_bit 22 va')") auto
    then show ?thesis using False by (simp only: translate_eq [OF at] translate_eq [OF assms(1)] if_False)
  qed
  ultimately show ?thesis using d(5) by (intro exI [of _ ?t] exI [of _ ?ws]) simp
qed

section \<open>A new directory\<close>

lemma entry_loop_eq:
  "b + n \<le> length es \<Longrightarrow> entry_loop offset flags b n es =
     Some (take b es @ map (\<lambda>k. (offset + of_nat k * 4096) OR ucast flags) [b..<b + n] @ drop (b + n) es)"
proof (induction n arbitrary: b es)
  case (Suc n)
  let ?v = "(offset + of_nat b * 4096) OR ucast flags"
  have "entry_loop offset flags b (Suc n) es = entry_loop offset flags (b + 1) n (es[b := ?v])"
    using Suc.prems by (simp add: put_idx_def)
  also have "\<dots> = Some (take (b + 1) (es[b := ?v]) @
      map (\<lambda>k. (offset + of_nat k * 4096) OR ucast flags) [b + 1..<b + 1 + n] @ drop (b + 1 + n) (es[b := ?v]))"
    using Suc.prems by (intro Suc.IH) simp
  also have "take (b + 1) (es[b := ?v]) = take b es @ [?v]"
    using Suc.prems by (simp add: take_Suc_conv_app_nth)
  finally show ?case using Suc.prems by (simp add: upt_conv_Cons del: upt_Suc)
qed simp

definition table_words :: "u8 \<Rightarrow> nat \<Rightarrow> u32 list" where
  "table_words flags i = map (\<lambda>b. (of_nat (1024 * i + b) * 4096) OR ucast flags) [0..<1024]"

definition dir_flags :: "u8 \<Rightarrow> u32" where
  "dir_flags flags = ucast flags OR 2"

text \<open>The directory after \<open>length ts\<close> rounds of the outer loop.\<close>

definition building ::
  "(u32 \<Rightarrow> nat option) \<Rightarrow> 'd kst \<Rightarrow> u8 \<Rightarrow> u32 \<Rightarrow> u32 list \<Rightarrow> 'd kst \<Rightarrow> bool" where
  "building B s0 flags dir ts s \<longleftrightarrow> distinct (dir # ts) \<and> length ts \<le> 1024 \<and>
     heap_ok s (with_blocks B (set (dir # ts))) \<and> grown s0 (set (dir # ts)) s \<and> (\<forall>p \<in> set (dir # ts). B p = None) \<and>
     ks_objs s dir = Some (OWords (map (\<lambda>t. t OR dir_flags flags) ts @ replicate (1024 - length ts) 0)) \<and>
     (\<forall>i < length ts. ks_objs s (ts ! i) = Some (OWords (table_words flags i)))"

lemma directory_round:
  assumes "zalloc 4096 (OWords (replicate 1024 0)) s = Some (e, s1)" "ks_objs s1 e = Some (OWords w)"
    "entry_loop offset flags 0 1024 w = Some w1" "ks_objs (store e (OWords w1) s1) dir = Some (OWords d)" "i < length d"
  shows "directory_loop flags dir i (Suc n) offset s = directory_loop flags dir (Suc i) n (offset + 4194304)
    (store dir (OWords (d[i := e OR dir_flags flags])) (store e (OWords w1) s1))"
  using assms by (simp add: deref put_idx_def or.assoc dir_flags_def)

lemma building_step:
  assumes "building B s0 flags dir ts s" "length ts < 1024" "0 < free_count (ks_heap s)"
  shows "\<exists>e t. directory_loop flags dir (length ts) (Suc n) (of_nat (length ts) * 4194304) s =
      directory_loop flags dir (Suc (length ts)) n (of_nat (Suc (length ts)) * 4194304) t \<and>
    building B s0 flags dir (ts @ [e]) t \<and> free_count (ks_heap s) = Suc (free_count (ks_heap t))"
proof -
  let ?X = "set (dir # ts)" and ?z = "OWords (replicate 1024 0)"
  have b: "distinct (dir # ts)" "heap_ok s (with_blocks B ?X)" "grown s0 ?X s" "\<forall>p \<in> ?X. B p = None"
    "ks_objs s dir = Some (OWords (map (\<lambda>t. t OR dir_flags flags) ts @ replicate (1024 - length ts) 0))"
    "\<forall>i < length ts. ks_objs s (ts ! i) = Some (OWords (table_words flags i))"
    using assms(1) by (simp_all add: building_def)
  obtain e h where e: "zalloc 4096 ?z s = Some (e, store e ?z (s\<lparr>ks_heap := h\<rparr>))" "e \<noteq> 0" "with_blocks B ?X e = None"
    "heap_ok (store e ?z (s\<lparr>ks_heap := h\<rparr>)) ((with_blocks B ?X)(e \<mapsto> 1))" "same_frame (ks_heap s) h"
    "free_count (ks_heap s) = Suc (free_count h)"
    by (rule zalloc_one_block [OF b(2), of 4096 ?z]) (use assms(3) in auto)
  have en: "e \<notin> ?X" "B e = None" using e(3) by (simp_all add: with_blocks_None)
  have "entry_loop (of_nat (length ts) * 4194304) flags 0 1024 (replicate 1024 0) =
      Some (map (\<lambda>k. (of_nat (length ts) * 4194304 + of_nat k * 4096) OR ucast flags) [0..<1024])"
    using entry_loop_eq [of 0 1024 "replicate 1024 0"] by simp
  also have "map (\<lambda>k. (of_nat (length ts) * 4194304 + of_nat k * 4096) OR ucast flags) [0..<1024] =
      table_words flags (length ts)"
    by (simp add: table_words_def algebra_simps)
  finally have el: "entry_loop (of_nat (length ts) * 4194304) flags 0 1024 (replicate 1024 0) = Some (table_words flags (length ts))" .
  let ?D = "OWords (map (\<lambda>t. t OR dir_flags flags) (ts @ [e]) @ replicate (1024 - length (ts @ [e])) 0)"
  let ?t = "store dir ?D (store e (OWords (table_words flags (length ts))) (s\<lparr>ks_heap := h\<rparr>))"
  have upd: "(map (\<lambda>t. t OR dir_flags flags) ts @ replicate (1024 - length ts) 0)[length ts := e OR dir_flags flags] =
      map (\<lambda>t. t OR dir_flags flags) (ts @ [e]) @ replicate (1024 - length (ts @ [e])) 0"
  proof -
    have "replicate (1024 - length ts) (0 :: u32) = 0 # replicate (1024 - Suc (length ts)) 0"
      using assms(2) by (simp add: Suc_diff_Suc flip: replicate_Suc)
    then show ?thesis by (simp add: list_update_append)
  qed
  have "directory_loop flags dir (length ts) (Suc n) (of_nat (length ts) * 4194304) s =
      directory_loop flags dir (Suc (length ts)) n (of_nat (Suc (length ts)) * 4194304) ?t"
  proof -
    have o: "of_nat (length ts) * 4194304 + 4194304 = (of_nat (Suc (length ts)) * 4194304 :: u32)" by (simp add: algebra_simps)
    have st: "store e (OWords (table_words flags (length ts))) (s\<lparr>ks_heap := h\<rparr>) =
        store e (OWords (table_words flags (length ts))) (store e ?z (s\<lparr>ks_heap := h\<rparr>))"
      by simp
    show ?thesis
      unfolding o [symmetric] upd [symmetric] st
      by (rule directory_round [OF e(1) _ el]) (use b(5) en(1) assms(2) in auto)
  qed
  moreover have "building B s0 flags dir (ts @ [e]) ?t"
    unfolding building_def
  proof (intro conjI)
    have X: "set (dir # ts @ [e]) = insert e ?X" by auto
    have h1: "heap_ok (store e (OWords (table_words flags (length ts))) (s\<lparr>ks_heap := h\<rparr>)) (with_blocks B (insert e ?X))"
      using heap_ok_restore [OF e(4), of "OWords (table_words flags (length ts))"] by (simp only: with_blocks_insert)
    show "heap_ok ?t (with_blocks B (set (dir # ts @ [e])))"
      unfolding X by (rule heap_ok_store [OF h1]) (use b(5) in simp)
    show "grown s0 (set (dir # ts @ [e])) ?t"
      unfolding X by (rule grown_mono [OF grown_trans [OF grown_trans [OF b(3) grown_zalloc [OF e(5), of e]] grown_store [of _ dir]]]) auto
    show "distinct (dir # ts @ [e])" using b(1) en(1) by auto
    show "\<forall>i < length (ts @ [e]). ks_objs ?t ((ts @ [e]) ! i) = Some (OWords (table_words flags i))"
    proof (intro allI impI)
      fix i assume i: "i < length (ts @ [e])"
      show "ks_objs ?t ((ts @ [e]) ! i) = Some (OWords (table_words flags i))"
      proof (cases "i < length ts")
        case True
        then have "ts ! i \<in> set ts" by simp
        then have "ts ! i \<noteq> dir" "ts ! i \<noteq> e" using b(1) en(1) by auto
        then show ?thesis using True b(6) by (simp add: nth_append)
      next
        case False
        then have "i = length ts" using i by simp
        then show ?thesis using en(1) by simp
      qed
    qed
  qed (use assms(2) b(4) en in auto)
  ultimately show ?thesis using e(6) by (intro exI [of _ e] exI [of _ ?t]) simp
qed

lemma directory_loop_ok:
  assumes "building B s0 flags dir ts s" "length ts + n = 1024" "n \<le> free_count (ks_heap s)"
  shows "\<exists>ts' t. directory_loop flags dir (length ts) n (of_nat (length ts) * 4194304) s = Some t \<and>
    building B s0 flags dir ts' t \<and> length ts' = 1024 \<and> free_count (ks_heap s) = free_count (ks_heap t) + n"
  using assms
proof (induction n arbitrary: ts s)
  case 0
  then show ?case by auto
next
  case (Suc n)
  obtain e t where e: "directory_loop flags dir (length ts) (Suc n) (of_nat (length ts) * 4194304) s =
      directory_loop flags dir (length (ts @ [e])) n (of_nat (length (ts @ [e])) * 4194304) t"
    "building B s0 flags dir (ts @ [e]) t" "free_count (ks_heap s) = Suc (free_count (ks_heap t))"
    using building_step [OF Suc.prems(1), of n] Suc.prems(2,3) by auto
  have "\<exists>ts' u. directory_loop flags dir (length (ts @ [e])) n (of_nat (length (ts @ [e])) * 4194304) t = Some u \<and>
    building B s0 flags dir ts' u \<and> length ts' = 1024 \<and> free_count (ks_heap t) = free_count (ks_heap u) + n"
    using Suc.prems(2,3) e(3) by (intro Suc.IH [OF e(2)]) auto
  then show ?case using e(1,3) by auto
qed

lemma ucast_flags: "ucast (flags :: u8) AND NOT (mask 12) = (0 :: u32)"
proof (rule bit_word_eqI)
  fix n
  have "bit flags n \<Longrightarrow> n < 8" using bit_imp_le_length [of flags n] by simp
  then show "bit (ucast flags AND NOT (mask 12) :: u32) n = bit (0 :: u32) n" by (auto simp: bit_simps)
qed

lemma page_number: "(of_nat (1024 * unat (drop_bit 22 va) + unat (take_bit 10 (drop_bit 12 va))) * 4096 :: u32) = va AND NOT (mask 12)"
  for va :: u32
proof -
  have "drop_bit 22 va = drop_bit 12 va div 1024"
  proof -
    have "drop_bit 22 va = drop_bit 10 (drop_bit 12 va)" by simp
    then show ?thesis unfolding drop_bit_eq_div [of 10] by simp
  qed
  moreover have "take_bit 10 (drop_bit 12 va) = drop_bit 12 va mod 1024" by (simp add: take_bit_eq_mod)
  ultimately have "of_nat (1024 * unat (drop_bit 22 va) + unat (take_bit 10 (drop_bit 12 va))) = drop_bit 12 va"
    using div_mult_mod_eq [of "drop_bit 12 va" 1024] by (simp add: mult.commute)
  then have "of_nat (1024 * unat (drop_bit 22 va) + unat (take_bit 10 (drop_bit 12 va))) * 4096 = push_bit 12 (drop_bit 12 va)"
    by (simp add: push_bit_eq_mult)
  also have "\<dots> = va AND NOT (mask 12)" by (rule bit_word_eqI) (auto simp: bit_simps)
  finally show ?thesis .
qed

lemma identity_walk:
  assumes "directory_at s dir fl ts (map (table_words flags) [0..<1024])" "bit flags 0"
  shows "translate s dir va = Some va"
proof -
  let ?i = "unat (drop_bit 22 va)" and ?j = "unat (take_bit 10 (drop_bit 12 va))"
  have i: "?i < 1024" "?j < 1024" by (rule unat_dir_index, rule unat_table_index)
  have pte: "map (table_words flags) [0..<1024] ! ?i ! ?j = (va AND NOT (mask 12)) OR ucast flags"
    using i page_number [of va] by (simp add: table_words_def)
  have "(va AND NOT (mask 12)) AND mask 12 = 0" by (rule bit_word_eqI) (auto simp: bit_simps)
  then have "((va AND NOT (mask 12)) OR ucast flags) AND NOT (mask 12) = va AND NOT (mask 12)"
    by (rule or_flags [OF _ ucast_flags])
  moreover have "bit ((va AND NOT (mask 12)) OR ucast flags) 0" using assms(2) by (simp add: bit_simps)
  ultimately show ?thesis unfolding translate_eq [OF assms(1)] pte Let_def by (simp add: page_split)
qed

lemma heap_ok_aligned: "heap_ok s B \<Longrightarrow> B p \<noteq> None \<Longrightarrow> p AND mask 12 = 0"
proof -
  assume a: "heap_ok s B" "B p \<noteq> None"
  then obtain A where "B = owned (ks_heap s) A" by (auto simp: heap_ok_def heap_owns_def)
  then have "block_index (ks_heap s) p \<noteq> None" using a(2) by (auto simp: owned_def option_bind_Some_iff)
  then have "\<not> validate_alignment p" by (auto simp: block_index_def)
  then show ?thesis using aligned_mask by (simp add: validate_alignment_def paging_is_aligned_def)
qed

lemma paging_new_ok:
  assumes "heap_ok s B" "bit flags 0" "1026 \<le> free_count (ks_heap s)"
  shows "\<exists>chunk dir ts t. paging_new_4gb flags s = Some (chunk, t) \<and> ks_objs t chunk = Some (OChunk dir) \<and>
    directory_at t dir (dir_flags flags) ts (map (table_words flags) [0..<1024]) \<and>
    heap_ok t (with_blocks B (set (chunk # dir # ts))) \<and> grown s (set (chunk # dir # ts)) t \<and>
    (\<forall>p \<in> set (chunk # dir # ts). B p = None) \<and> distinct (chunk # dir # ts) \<and>
    free_count (ks_heap s) = free_count (ks_heap t) + 1026"
proof -
  let ?z = "OWords (replicate 1024 0)"
  obtain dir h where d: "zalloc 4096 ?z s = Some (dir, store dir ?z (s\<lparr>ks_heap := h\<rparr>))" "dir \<noteq> 0" "B dir = None"
    "heap_ok (store dir ?z (s\<lparr>ks_heap := h\<rparr>)) (B(dir \<mapsto> 1))" "same_frame (ks_heap s) h"
    "free_count (ks_heap s) = Suc (free_count h)"
    by (rule zalloc_one_block [OF assms(1), of 4096 ?z]) (use assms(3) in auto)
  let ?s1 = "store dir ?z (s\<lparr>ks_heap := h\<rparr>)"
  have "B(dir \<mapsto> 1) = with_blocks B {dir}" by (auto simp: with_blocks_def)
  then have "heap_ok ?s1 (with_blocks B {dir})" using d(4) by metis
  then have "building B s flags dir [] ?s1"
    using d(3) grown_zalloc [OF d(5), of dir] by (simp add: building_def)
  then obtain ts s2 where b: "directory_loop flags dir 0 1024 0 ?s1 = Some s2" "building B s flags dir ts s2" "length ts = 1024"
    "free_count (ks_heap ?s1) = free_count (ks_heap s2) + 1024"
    using directory_loop_ok [of B s flags dir "[]" ?s1 1024] d(6) assms(3) by auto
  let ?X = "set (dir # ts)"
  have w: "distinct (dir # ts)" "heap_ok s2 (with_blocks B ?X)" "grown s ?X s2" "\<forall>p \<in> ?X. B p = None"
    "ks_objs s2 dir = Some (OWords (map (\<lambda>t. t OR dir_flags flags) ts))"
    "\<forall>i < 1024. ks_objs s2 (ts ! i) = Some (OWords (table_words flags i))"
    using b(2,3) by (simp_all add: building_def)
  have fc: "0 < free_count (ks_heap s2)" using b(4) d(6) assms(3) by simp
  obtain c h2 where c: "zalloc 4 (OChunk 0) s2 = Some (c, store c (OChunk 0) (s2\<lparr>ks_heap := h2\<rparr>))" "c \<noteq> 0"
    "with_blocks B ?X c = None" "heap_ok (store c (OChunk 0) (s2\<lparr>ks_heap := h2\<rparr>)) ((with_blocks B ?X)(c \<mapsto> 1))"
    "same_frame (ks_heap s2) h2" "free_count (ks_heap s2) = Suc (free_count h2)"
    by (rule zalloc_one_block [OF w(2), of 4 "OChunk 0"]) (use fc in auto)
  have cn: "c \<notin> ?X" "B c = None" using c(3) by (simp_all add: with_blocks_None)
  let ?t = "store c (OChunk dir) (s2\<lparr>ks_heap := h2\<rparr>)"
  have "paging_new_4gb flags s = Some (c, ?t)"
    using d(1) b(1) c(1) by (simp add: paging_new_4gb_def obj_chunk_def)
  moreover have "heap_ok ?t (with_blocks B (set (c # dir # ts)))"
    using heap_ok_restore [OF c(4), of "OChunk dir"] by (simp only: with_blocks_insert list.set)
  moreover have "grown s (set (c # dir # ts)) ?t"
    by (rule grown_mono [OF grown_trans [OF w(3) grown_zalloc [OF c(5), of c]]]) auto
  moreover have "directory_at ?t dir (dir_flags flags) ts (map (table_words flags) [0..<1024])"
  proof -
    have "\<forall>t \<in> set ts. t AND mask 12 = 0" using heap_ok_aligned [OF w(2)] by (auto simp: with_blocks_def)
    moreover have "dir_flags flags AND NOT (mask 12) = 0"
    proof -
      have "(2 :: u32) AND NOT (mask 12) = 0" by (simp add: mask_eq_exp_minus_1)
      then show ?thesis using ucast_flags [of flags] by (simp add: dir_flags_def bit.conj_disj_distrib2)
    qed
    moreover have "bit (dir_flags flags) 0" using assms(2) by (simp add: dir_flags_def bit_simps)
    moreover have "ts ! i \<noteq> c" if "i < 1024" for i using that cn(1) b(3) by auto
    moreover have "dir \<noteq> c" using cn(1) by auto
    ultimately show ?thesis
      unfolding directory_at_def using w(1,5,6) b(3) by (auto simp: table_words_def)
  qed
  ultimately show ?thesis using w(1,4) cn b(4) d(6) c(6)
    by (intro exI [of _ c] exI [of _ dir] exI [of _ ts] exI [of _ ?t]) auto
qed

section \<open>Properties\<close>

text \<open>
  C18. \<open>paging_new_4gb\<close>, with flags that include the present bit and 1026 free blocks,
  returns a chunk whose directory maps every one of the 2^32 virtual addresses to itself;
  it made exactly 1026 allocations, all of them new, and changed nothing else.
\<close>

theorem paging_new_identity:
  assumes "heap_ok s B" "bit flags 0" "1026 \<le> free_count (ks_heap s)"
  shows "\<exists>chunk dir X t. paging_new_4gb flags s = Some (chunk, t) \<and>
    pagin_4gb_chunk_get_directory chunk t = Some dir \<and> (\<forall>va. translate t dir va = Some va) \<and>
    heap_ok t (with_blocks B X) \<and> grown s X t \<and> (\<forall>p \<in> X. B p = None) \<and> card X = 1026"
proof -
  obtain c d ts t where n: "paging_new_4gb flags s = Some (c, t)" "ks_objs t c = Some (OChunk d)"
    "directory_at t d (dir_flags flags) ts (map (table_words flags) [0..<1024])"
    "heap_ok t (with_blocks B (set (c # d # ts)))" "grown s (set (c # d # ts)) t"
    "\<forall>p \<in> set (c # d # ts). B p = None" "distinct (c # d # ts)"
    using paging_new_ok [OF assms] by blast
  have "length (c # d # ts) = 1026" using n(3) by (simp add: directory_at_def)
  then have "card (set (c # d # ts)) = 1026" using distinct_card [OF n(7)] by metis
  moreover have "pagin_4gb_chunk_get_directory c t = Some d"
    using n(2) by (simp add: pagin_4gb_chunk_get_directory_def obj_chunk_def)
  ultimately show ?thesis using n identity_walk [OF n(3) assms(2)] by blast
qed

text \<open>A kernel right after \<open>kheap_init\<close>, for the examples.\<close>

definition fresh_kernel :: "unit kst" where
  "fresh_kernel = (boot_state ())\<lparr>ks_heap := fresh_heap 0x01000000 25600\<rparr>"

lemma free_count_fresh: "free_count (fresh_heap a n) = n"
  by (simp add: free_count_def fresh_heap_def)

lemma fresh_kernel_ok: "heap_ok fresh_kernel Map.empty" "free_count (ks_heap fresh_kernel) = 25600"
  by (simp add: fresh_kernel_def heap_ok_def boot_state_def fresh_heap_owns validate_alignment_def)
    (simp add: fresh_kernel_def free_count_fresh)

theorem paging_new_identity_witness:
  "\<exists>chunk dir X t. paging_new_4gb 7 fresh_kernel = Some (chunk, t) \<and>
    pagin_4gb_chunk_get_directory chunk t = Some dir \<and> (\<forall>va. translate t dir va = Some va) \<and>
    heap_ok t (with_blocks Map.empty X) \<and> grown fresh_kernel X t \<and> (\<forall>p \<in> X. Map.empty p = (None :: nat option)) \<and> card X = 1026"
  by (rule paging_new_identity [OF fresh_kernel_ok(1)]) (simp_all add: fresh_kernel_ok)

text \<open>
  C8. On a directory whose tables are distinct, \<open>paging_set\<close> with an aligned address
  returns 0 and changes the translation of exactly the 4096 addresses of that page: they go
  to the page of \<open>PA\<close> if its present bit is set and nowhere otherwise. An unaligned address
  is refused with \<open>-EINVARG\<close>, and nothing changes.
\<close>

theorem paging_set_one_page:
  assumes "directory_at s dir fl ts ws"
  shows "if paging_is_aligned va
    then \<exists>t ws'. paging_set dir va pa s = Some (0, t) \<and> directory_at t dir fl ts ws' \<and> ks_heap t = ks_heap s \<and>
      (\<forall>va'. translate t dir va' = (if drop_bit 12 va' = drop_bit 12 va
         then (if bit pa 0 then Some ((pa AND NOT (mask 12)) OR take_bit 12 va') else None) else translate s dir va'))
    else paging_set dir va pa s = Some (- EINVARG, s)"
proof (cases "paging_is_aligned va")
  case True
  then show ?thesis using paging_set_ok [OF assms True, of pa] by auto
qed (simp add: paging_set_def paging_get_index_def)

theorem paging_set_one_page_witness:
  "\<exists>s :: unit kst. \<exists>dir fl ts ws. directory_at s dir fl ts ws \<and> (if paging_is_aligned 0x1000
    then \<exists>t ws'. paging_set dir 0x1000 0x01403007 s = Some (0, t) \<and> directory_at t dir fl ts ws' \<and> ks_heap t = ks_heap s \<and>
      (\<forall>va'. translate t dir va' = (if drop_bit 12 va' = drop_bit 12 0x1000
         then (if bit (0x01403007 :: u32) 0 then Some ((0x01403007 AND NOT (mask 12)) OR take_bit 12 va') else None) else translate s dir va'))
    else paging_set dir 0x1000 0x01403007 s = Some (- EINVARG, s))"
proof -
  obtain d ts and t :: "unit kst" where d: "directory_at t d (dir_flags 7) ts (map (table_words 7) [0..<1024])"
    using paging_new_ok [OF fresh_kernel_ok(1), of 7] fresh_kernel_ok(2) by auto
  from paging_set_one_page [OF d, of "0x1000" "0x01403007"] d show ?thesis by blast
qed

text \<open>
  \<open>paging_get_index\<close> splits an aligned address into indices of the directory and of a
  table, both below 1024, from which the address can be put together again; it refuses
  every other address and then leaves its out parameters alone.
\<close>

theorem paging_get_index_splits:
  "if paging_is_aligned va
   then \<exists>d t. paging_get_index va a b = (0, d, t) \<and> d < 1024 \<and> t < 1024 \<and> va = d * 0x400000 + t * 0x1000
   else paging_get_index va a b = (- EINVARG, a, b)"
proof (cases "paging_is_aligned va")
  case True
  let ?d = "drop_bit 22 va" and ?t = "take_bit 10 (drop_bit 12 va)"
  have "va = va AND NOT (mask 12)"
  proof (rule bit_word_eqI)
    fix n
    have "bit (va AND mask 12) n = False" using True by (simp add: aligned_mask)
    then show "n < LENGTH(32) \<Longrightarrow> bit va n = bit (va AND NOT (mask 12)) n" by (auto simp: bit_simps)
  qed
  also have "\<dots> = of_nat (1024 * unat ?d + unat ?t) * 4096" by (rule page_number [symmetric])
  also have "\<dots> = ?d * 0x400000 + ?t * 0x1000" by (simp add: algebra_simps)
  finally have "va = ?d * 0x400000 + ?t * 0x1000" .
  moreover have "?d < 1024" "?t < 1024" using unat_dir_index [of va] unat_table_index [of va] by (simp_all add: word_less_nat_alt)
  ultimately show ?thesis using True get_index_eq [OF True] by auto
qed (simp add: paging_get_index_def)

end
