(* ===== verification/Interrupts.thy ===== *)
theory Interrupts
  imports Kernel_State
begin

text \<open>
  Interrupts: \<open>src/idt/idt.c\<close>, \<open>src/idt/idt.h\<close> and the entry stubs of \<open>src/idt/idt.asm\<close>.
  The addresses the linker gives to the
  handlers and to the table are the record \<open>idt_symbols\<close>. The second half is the
  processor's side: a vector is delivered through its gate, and \<open>interrupted\<close> is the step
  relation of a kernel that idles and takes interrupts.
\<close>

section \<open>Operations\<close>

abbreviation (input) SAMOS_TOTAL_INTERRUPTS :: nat where "SAMOS_TOTAL_INTERRUPTS \<equiv> 512"
abbreviation (input) KERNEL_CODE_SELECTOR :: u16 where "KERNEL_CODE_SELECTOR \<equiv> 0x08"

record idt_desc =
  id_offset_1 :: u16
  id_selector :: u16
  id_zero :: u8
  id_type_attr :: u8
  id_offset_2 :: u16

record idtr_desc =
  ir_limit :: u16
  ir_base :: u32

text \<open>The statics of \<open>idt.c\<close>, and what \<open>lidt\<close> has loaded.\<close>

record idt_state =
  it_descriptors :: "idt_desc list"
  it_descriptor :: idtr_desc
  it_loaded :: "idtr_desc option"

record idt_symbols =
  sy_no_interrupt :: u32
  sy_idt_zero :: u32
  sy_int21h :: u32
  sy_descriptors :: u32

definition zero_desc :: idt_desc where
  "zero_desc = \<lparr>id_offset_1 = 0, id_selector = 0, id_zero = 0, id_type_attr = 0, id_offset_2 = 0\<rparr>"

definition idt_set :: "int \<Rightarrow> u32 \<Rightarrow> idt_state \<Rightarrow> idt_state option" where
  "idt_set int_num address it = do {
     ds \<leftarrow> put_int (it_descriptors it) int_num
       \<lparr>id_offset_1 = ucast (address AND 0x0000FFFF), id_selector = KERNEL_CODE_SELECTOR, id_zero = 0,
        id_type_attr = 0xEE, id_offset_2 = ucast (drop_bit 16 address)\<rparr>;
     Some (it\<lparr>it_descriptors := ds\<rparr>) }"

fun idt_init_loop :: "u32 \<Rightarrow> nat \<Rightarrow> nat \<Rightarrow> idt_state \<Rightarrow> idt_state option" where
  "idt_init_loop address i 0 it = Some it"
| "idt_init_loop address i (Suc n) it = do {
     it1 \<leftarrow> idt_set (int i) address it;
     idt_init_loop address (i + 1) n it1 }"

definition idt_load :: "idt_state \<Rightarrow> idt_state" where
  "idt_load it = it\<lparr>it_loaded := Some (it_descriptor it)\<rparr>"

definition idt_init :: "idt_symbols \<Rightarrow> idt_state \<Rightarrow> idt_state option" where
  "idt_init sy it =
     (let it1 = it\<lparr>it_descriptors := replicate SAMOS_TOTAL_INTERRUPTS zero_desc,
        it_descriptor := \<lparr>ir_limit = word_of_int (8 * 512 - 1), ir_base = sy_descriptors sy\<rparr>\<rparr> in do {
        it2 \<leftarrow> idt_init_loop (sy_no_interrupt sy) 0 SAMOS_TOTAL_INTERRUPTS it1;
        it3 \<leftarrow> idt_set 0 (sy_idt_zero sy) it2;
        it4 \<leftarrow> idt_set 0x20 (sy_no_interrupt sy) it3;
        it5 \<leftarrow> idt_set 0x21 (sy_int21h sy) it4;
        Some (idt_load it5) })"

text \<open>
  String literals, and \<open>print\<close> on the kernel's terminal. A text that runs into the kernel
  image overwrites code and static variables, the tables of filesystems and descriptors
  among them: from there on there is no result.
\<close>

definition literal :: "string \<Rightarrow> u8 list" where
  "literal cs = map of_char cs @ [0]"

definition kprint :: "u8 list \<Rightarrow> 'd kst \<Rightarrow> 'd kst option" where
  "kprint str s = do {
     t \<leftarrow> print str (ks_term s);
     if list_all (\<lambda>k. \<not> image_cell k) (write_cells (cstr str @ [0]) (ks_term s))
     then Some (s\<lparr>ks_term := t\<rparr>) else None }"

definition no_interrupt_handler :: "'d ports \<Rightarrow> 'd kst \<Rightarrow> 'd kst option" where
  "no_interrupt_handler P s = Some (s\<lparr>ks_dev := io_outb P 0x20 0x20 (ks_dev s)\<rparr>)"

definition int21h_handler :: "'d ports \<Rightarrow> 'd kst \<Rightarrow> 'd kst option" where
  "int21h_handler P s =
     (let scancode = fst (io_insb P 0x60 (ks_dev s));
          s1 = s\<lparr>ks_dev := snd (io_insb P 0x60 (ks_dev s))\<rparr> in do {
        s2 \<leftarrow> (if scancode AND 0x80 = 0 then kprint (literal ''Keyboard Pressed\<newline>'') s1 else Some s1);
        Some (s2\<lparr>ks_dev := io_outb P 0x20 0x20 (ks_dev s2)\<rparr>) })"

text \<open>Prints a message and never returns.\<close>

definition idt_zero :: "'d kst \<Rightarrow> 'd kst option" where
  "idt_zero s = do { s1 \<leftarrow> kprint (literal ''Divide by zero error.\<newline>'') s; None }"

text \<open>
  The stubs of \<open>idt.asm\<close>. On top of the stack the processor leaves the address to return to,
  the code segment and the flags, and on top of these an error code for the exceptions
  that have one. \<open>pushad\<close>, \<open>call\<close> and \<open>popad\<close> leave this frame as it was, and \<open>iret\<close> takes its
  topmost word for the return address: with an error code there, control goes to a wrong
  address.
\<close>

datatype frame_word = Error_Code | Return_Address | Code_Segment | Flags

definition error_code :: "nat \<Rightarrow> bool" where
  "error_code v \<longleftrightarrow> List.member [8, 10, 11, 12, 13, 14, 17, 21, 29, 30] v"

definition entry_frame :: "nat \<Rightarrow> frame_word list" where
  "entry_frame v = (if error_code v then [Error_Code] else []) @ [Return_Address, Code_Segment, Flags]"

definition iret :: "frame_word list \<Rightarrow> frame_word list option" where
  "iret frame = (if take 3 frame = [Return_Address, Code_Segment, Flags] then Some (drop 3 frame) else None)"

definition int21h :: "'d ports \<Rightarrow> frame_word list \<Rightarrow> 'd kst \<Rightarrow> (frame_word list \<times> 'd kst) option" where
  "int21h P frame s = do {
     s1 \<leftarrow> int21h_handler P s;
     frame1 \<leftarrow> iret frame;
     Some (frame1, s1) }"

definition no_interrupt :: "'d ports \<Rightarrow> frame_word list \<Rightarrow> 'd kst \<Rightarrow> (frame_word list \<times> 'd kst) option" where
  "no_interrupt P frame s = do {
     s1 \<leftarrow> no_interrupt_handler P s;
     frame1 \<leftarrow> iret frame;
     Some (frame1, s1) }"

section \<open>Delivery\<close>

definition gate_offset :: "idt_desc \<Rightarrow> u32" where
  "gate_offset d = ucast (id_offset_1 d) OR push_bit 16 (ucast (id_offset_2 d))"

text \<open>A gate the processor accepts: present, a 32-bit interrupt gate, in the kernel's code segment.\<close>

definition gate_ok :: "idt_desc \<Rightarrow> bool" where
  "gate_ok d \<longleftrightarrow> bit (id_type_attr d) 7 \<and> id_type_attr d AND 0x1F = 0x0E \<and> id_selector d = KERNEL_CODE_SELECTOR \<and> id_zero d = 0"

text \<open>
  The processor takes vector \<open>v\<close> through its gate and the code goes on where it was
  interrupted, with nothing left on the stack. The division handler has no stub.
\<close>

definition resumed :: "(frame_word list \<times> 'd kst) option \<Rightarrow> 'd kst option" where
  "resumed r = (case r of Some ([], s) \<Rightarrow> Some s | _ \<Rightarrow> None)"

definition deliver :: "idt_symbols \<Rightarrow> 'd ports \<Rightarrow> idt_state \<Rightarrow> nat \<Rightarrow> 'd kst \<Rightarrow> 'd kst option" where
  "deliver sy P it v s = do {
     r \<leftarrow> it_loaded it;
     d \<leftarrow> (if 8 * v + 7 \<le> unat (ir_limit r) \<and> ir_base r = sy_descriptors sy then at_idx (it_descriptors it) v else None);
     if \<not> gate_ok d then None
     else if gate_offset d = sy_int21h sy then resumed (int21h P (entry_frame v) s)
     else if gate_offset d = sy_idt_zero sy then idt_zero s
     else if gate_offset d = sy_no_interrupt sy then resumed (no_interrupt P (entry_frame v) s)
     else None }"

text \<open>\<open>interrupted sy P it s n t\<close>: interrupts, \<open>n\<close> of them from the keyboard, lead from \<open>s\<close> to \<open>t\<close>.\<close>

inductive interrupted :: "idt_symbols \<Rightarrow> 'd ports \<Rightarrow> idt_state \<Rightarrow> 'd kst \<Rightarrow> nat \<Rightarrow> 'd kst \<Rightarrow> bool"
  for sy P it where
  idle: "interrupted sy P it s 0 s"
| taken: "interrupted sy P it s n t \<Longrightarrow> v < 256 \<Longrightarrow> deliver sy P it v t = Some u \<Longrightarrow>
    interrupted sy P it s (if v = 0x21 then n + 1 else n) u"

inductive_cases interruptedE: "interrupted sy P it s n t"

section \<open>The table\<close>

definition gate :: "u32 \<Rightarrow> idt_desc" where
  "gate address = \<lparr>id_offset_1 = ucast (address AND 0xFFFF), id_selector = 8, id_zero = 0, id_type_attr = 0xEE,
     id_offset_2 = ucast (drop_bit 16 address)\<rparr>"

lemma gate_offset_gate: "gate_offset (gate a) = a"
proof -
  have m: "(0xFFFF :: u32) = mask 16" by (simp add: mask_eq_exp_minus_1)
  show ?thesis
    unfolding gate_offset_def gate_def m by (rule bit_word_eqI) (auto simp: bit_simps)
qed

lemma gate_ok_gate: "gate_ok (gate a)"
  by (simp add: gate_ok_def gate_def)

lemma idt_set_eq:
  "0 \<le> i \<Longrightarrow> i < int (length (it_descriptors it)) \<Longrightarrow>
   idt_set i a it = Some (it\<lparr>it_descriptors := (it_descriptors it)[nat i := gate a]\<rparr>)"
  by (simp add: idt_set_def put_int_Some gate_def)

lemma idt_init_loop_eq:
  "i + n \<le> length (it_descriptors it) \<Longrightarrow> idt_init_loop a i n it =
     Some (it\<lparr>it_descriptors := take i (it_descriptors it) @ replicate n (gate a) @ drop (i + n) (it_descriptors it)\<rparr>)"
proof (induction n arbitrary: i it)
  case (Suc n)
  let ?it = "it\<lparr>it_descriptors := (it_descriptors it)[i := gate a]\<rparr>"
  have "idt_init_loop a i (Suc n) it = idt_init_loop a (i + 1) n ?it"
    using Suc.prems by (simp add: idt_set_eq)
  also have "\<dots> = Some (?it\<lparr>it_descriptors := take (i + 1) (it_descriptors ?it) @ replicate n (gate a) @ drop (i + 1 + n) (it_descriptors ?it)\<rparr>)"
    using Suc.prems by (intro Suc.IH) simp
  also have "take (i + 1) (it_descriptors ?it) = take i (it_descriptors it) @ [gate a]"
    using Suc.prems by (simp add: take_Suc_conv_app_nth)
  finally show ?case by simp
qed simp

definition idt_gates :: "idt_symbols \<Rightarrow> idt_desc list" where
  "idt_gates sy = ((replicate 512 (gate (sy_no_interrupt sy)))[0 := gate (sy_idt_zero sy)])[0x21 := gate (sy_int21h sy)]"

lemma length_idt_gates [simp]: "length (idt_gates sy) = 512"
  by (simp add: idt_gates_def)

lemma idt_gates_nth [simp]:
  "i < 512 \<Longrightarrow> idt_gates sy ! i = gate (if i = 0 then sy_idt_zero sy else if i = 0x21 then sy_int21h sy else sy_no_interrupt sy)"
  by (auto simp: idt_gates_def nth_list_update)

lemma idt_init_eq:
  "idt_init sy it = Some \<lparr>it_descriptors = idt_gates sy,
     it_descriptor = \<lparr>ir_limit = 4095, ir_base = sy_descriptors sy\<rparr>, it_loaded = Some \<lparr>ir_limit = 4095, ir_base = sy_descriptors sy\<rparr>\<rparr>"
proof -
  have l: "((replicate 512 (gate (sy_no_interrupt sy)))[0 := gate (sy_idt_zero sy)])[0x20 := gate (sy_no_interrupt sy)] =
      (replicate 512 (gate (sy_no_interrupt sy)))[0 := gate (sy_idt_zero sy)]"
    by (rule nth_equalityI) (auto simp: nth_list_update)
  show ?thesis
    by (simp add: idt_init_def idt_init_loop_eq idt_set_eq idt_load_def l idt_gates_def)
qed

section \<open>Handlers\<close>

text \<open>The terminal is set up and the cursor is where every line of the kernel leaves it, or a bit further.\<close>

definition screen_ok :: "'d kst \<Rightarrow> bool" where
  "screen_ok s \<longleftrightarrow> tm_video_mem (ks_term s) \<noteq> 0 \<and> unat (tm_col (ks_term s)) < 40"

definition screen_row :: "'d kst \<Rightarrow> nat" where
  "screen_row s = unat (tm_row (ks_term s))"

text \<open>
  \<open>kept s t\<close>: the heap, the objects, the disk and the tables of filesystems and descriptors
  are the same, and no cell of the kernel image, where the latter three live, has been
  written to through the video memory.
\<close>

definition kept :: "'d kst \<Rightarrow> 'd kst \<Rightarrow> bool" where
  "kept s t \<longleftrightarrow> ks_heap t = ks_heap s \<and> ks_objs t = ks_objs s \<and> ks_disk t = ks_disk s \<and>
     ks_filesystems t = ks_filesystems s \<and> ks_file_descriptors t = ks_file_descriptors s \<and>
     (\<forall>k. image_cell k \<longrightarrow> tm_cells (ks_term t) k = tm_cells (ks_term s) k)"

lemma kept_refl: "kept s s"
  by (simp add: kept_def)

lemma kept_trans: "kept s t \<Longrightarrow> kept t u \<Longrightarrow> kept s u"
  by (simp add: kept_def)

lemma terminated_literal: "terminated (literal cs)"
  by (simp add: terminated_def literal_def)

text \<open>A line of text is printed below the kernel image, or there is no result.\<close>

lemma kprint_line:
  assumes "terminated str" "cstr str = line @ [10]" "\<forall>c \<in> set line. c \<noteq> 9 \<and> c \<noteq> 10" "0 < length line" "length line < 40"
    "screen_ok s"
  obtains "screen_row s \<le> 1842" "\<exists>t. kprint str s = Some (s\<lparr>ks_term := t\<rparr>) \<and> print str (ks_term s) = Some t \<and>
      screen_ok (s\<lparr>ks_term := t\<rparr>) \<and> screen_row (s\<lparr>ks_term := t\<rparr>) = screen_row s + 1 \<and> kept s (s\<lparr>ks_term := t\<rparr>)"
    | "1842 < screen_row s" "kprint str s = None"
proof -
  obtain t where t: "write_all (line @ [10, 0]) (ks_term s) = Some t" "tm_video_mem t = tm_video_mem (ks_term s)"
    "tm_row t = tm_row (ks_term s) + 1" "tm_col t = 1"
    "write_cells (line @ [10, 0]) (ks_term s) = [cursor (ks_term s)..<cursor (ks_term s) + length line] @ [80 * unat (tm_row (ks_term s) + 1)]"
    using write_line [of "ks_term s" line] assms(3-6) by (auto simp: screen_ok_def)
  have p: "print str (ks_term s) = Some t" using print_eq [OF assms(1)] t(1) by (simp add: assms(2))
  have b: "list_all (\<lambda>k. \<not> image_cell k) (write_cells (cstr str @ [0]) (ks_term s)) \<longleftrightarrow> screen_row s \<le> 1842"
    using line_cells [of "tm_row (ks_term s)" "cursor (ks_term s)" "length line"] assms(4-6)
    by (simp add: assms(2) t(5) screen_row_def screen_ok_def cursor_def display_index_def)
  show thesis
  proof (cases "screen_row s \<le> 1842")
    case True
    have fr: "tm_cells t k = tm_cells (ks_term s) k" if "image_cell k" for k
      using write_cells_frame [OF t(1), of k] b True that by (auto simp: assms(2) list_all_iff)
    have "unat (tm_row (ks_term s) + 1) = unat (tm_row (ks_term s)) + 1"
      using True unfolding screen_row_def by (subst unat_add_lem [THEN iffD1]) simp_all
    then have "kprint str s = Some (s\<lparr>ks_term := t\<rparr>)" "screen_ok (s\<lparr>ks_term := t\<rparr>)"
      "screen_row (s\<lparr>ks_term := t\<rparr>) = screen_row s + 1" "kept s (s\<lparr>ks_term := t\<rparr>)"
      using p b True t(2-4) fr assms(6) by (simp_all add: kprint_def screen_ok_def screen_row_def kept_def)
    with True p that(1) show thesis by blast
  next
    case False
    then have "kprint str s = None" using p b by (simp add: kprint_def)
    with False that(2) show thesis by simp
  qed
qed

lemma kprint_line_ok:
  assumes "terminated str" "cstr str = line @ [10]" "\<forall>c \<in> set line. c \<noteq> 9 \<and> c \<noteq> 10" "0 < length line" "length line < 40"
    "screen_ok s" "screen_row s \<le> 1842"
  obtains t where "kprint str s = Some (s\<lparr>ks_term := t\<rparr>)" "screen_ok (s\<lparr>ks_term := t\<rparr>)"
    "screen_row (s\<lparr>ks_term := t\<rparr>) = screen_row s + 1"
  by (rule kprint_line [OF assms(1-6)]) (use assms(7) that in auto)

text \<open>The scan code the keyboard holds is of a key going down.\<close>

definition key_down :: "'d ports \<Rightarrow> 'd kst \<Rightarrow> bool" where
  "key_down P s \<longleftrightarrow> \<not> bit (fst (io_insb P 0x60 (ks_dev s))) 7"

lemma key_message: "cstr (literal ''Keyboard Pressed\<newline>'') = map of_char ''Keyboard Pressed'' @ [10]"
  by (simp add: literal_def)

lemma int21h_handler_ok:
  assumes "screen_ok s"
  obtains t where "key_down P s \<longrightarrow> screen_row s \<le> 1842" "int21h_handler P s = Some t"
      "ks_dev t = io_outb P 0x20 0x20 (snd (io_insb P 0x60 (ks_dev s)))" "kept s t" "screen_ok t"
      "screen_row t = (if key_down P s then screen_row s + 1 else screen_row s)"
      "if key_down P s then print (literal ''Keyboard Pressed\<newline>'') (ks_term s) = Some (ks_term t) else ks_term t = ks_term s"
    | "key_down P s" "1842 < screen_row s" "int21h_handler P s = None"
proof -
  let ?c = "fst (io_insb P 0x60 (ks_dev s))" and ?s1 = "s\<lparr>ks_dev := snd (io_insb P 0x60 (ks_dev s))\<rparr>"
  have c: "?c AND 0x80 = 0 \<longleftrightarrow> key_down P s" unfolding key_down_def using and_exp_eq_0_iff_not_bit [of ?c 7] by simp
  have s1: "screen_ok ?s1" "screen_row ?s1 = screen_row s" "ks_term ?s1 = ks_term s"
    using assms by (simp_all add: screen_ok_def screen_row_def)
  show thesis
  proof (cases "key_down P s")
    case False
    with c s1 show thesis
      by (intro that(1) [of "?s1\<lparr>ks_dev := io_outb P 0x20 0x20 (ks_dev ?s1)\<rparr>"])
        (simp_all add: int21h_handler_def kept_def screen_ok_def screen_row_def)
  next
    case True
    show thesis
    proof (rule kprint_line [OF terminated_literal key_message _ _ _ s1(1)])
      assume r: "screen_row ?s1 \<le> 1842" and "\<exists>t. kprint (literal ''Keyboard Pressed\<newline>'') ?s1 = Some (?s1\<lparr>ks_term := t\<rparr>) \<and>
        print (literal ''Keyboard Pressed\<newline>'') (ks_term ?s1) = Some t \<and> screen_ok (?s1\<lparr>ks_term := t\<rparr>) \<and>
        screen_row (?s1\<lparr>ks_term := t\<rparr>) = screen_row ?s1 + 1 \<and> kept ?s1 (?s1\<lparr>ks_term := t\<rparr>)"
      then obtain t where "kprint (literal ''Keyboard Pressed\<newline>'') ?s1 = Some (?s1\<lparr>ks_term := t\<rparr>)"
        "print (literal ''Keyboard Pressed\<newline>'') (ks_term s) = Some t" "screen_ok (?s1\<lparr>ks_term := t\<rparr>)"
        "screen_row (?s1\<lparr>ks_term := t\<rparr>) = screen_row s + 1" "kept ?s1 (?s1\<lparr>ks_term := t\<rparr>)"
        unfolding s1(2,3) by blast
      with True c r s1(2) show thesis
        by (intro that(1) [of "?s1\<lparr>ks_term := t, ks_dev := io_outb P 0x20 0x20 (ks_dev ?s1)\<rparr>"])
          (simp_all add: int21h_handler_def kept_def screen_ok_def screen_row_def)
    next
      assume "1842 < screen_row ?s1" "kprint (literal ''Keyboard Pressed\<newline>'') ?s1 = None"
      with True c s1(2) show thesis by (intro that(2)) (simp_all add: int21h_handler_def)
    qed simp_all
  qed
qed

lemma resumed_stubs:
  "resumed (int21h P (entry_frame v) s) = (if error_code v then None else int21h_handler P s)"
  "resumed (no_interrupt P (entry_frame v) s) = (if error_code v then None else no_interrupt_handler P s)"
  by (auto simp: resumed_def int21h_def no_interrupt_def entry_frame_def iret_def split: option.splits bind_splits)

lemma idt_zero_stops: "idt_zero s = None"
  by (simp add: idt_zero_def)

text \<open>What the vectors lead to once the table is loaded.\<close>

lemma deliver_eq:
  assumes "idt_init sy it0 = Some it" "distinct [sy_int21h sy, sy_idt_zero sy, sy_no_interrupt sy]" "v < 256"
  shows "deliver sy P it v s = (if v = 0 \<or> error_code v then None else if v = 0x21 then int21h_handler P s else no_interrupt_handler P s)"
  using assms unfolding idt_init_eq
  by (auto simp: deliver_def at_idx_def gate_offset_gate gate_ok_gate resumed_stubs idt_zero_stops error_code_def)

lemma no_interrupt_ok:
  "screen_ok s \<Longrightarrow> \<exists>t. no_interrupt_handler P s = Some t \<and> ks_dev t = io_outb P 0x20 0x20 (ks_dev s) \<and> kept s t \<and>
     screen_ok t \<and> screen_row t = screen_row s"
  by (simp add: no_interrupt_handler_def kept_def screen_ok_def screen_row_def)

text \<open>The vectors that do not come back: a division error, an error code, a key past the last safe row.\<close>

definition stuck_vector :: "'d ports \<Rightarrow> nat \<Rightarrow> 'd kst \<Rightarrow> bool" where
  "stuck_vector P v s \<longleftrightarrow> v = 0 \<or> error_code v \<or> v = 0x21 \<and> key_down P s \<and> 1842 < screen_row s"

lemma deliver_ok:
  assumes "idt_init sy it0 = Some it" "distinct [sy_int21h sy, sy_idt_zero sy, sy_no_interrupt sy]" "screen_ok s" "v < 256"
  obtains "stuck_vector P v s" "deliver sy P it v s = None"
    | t d where "\<not> stuck_vector P v s" "deliver sy P it v s = Some t" "ks_dev t = io_outb P 0x20 0x20 d" "kept s t" "screen_ok t"
      "screen_row t \<le> (if v = 0x21 then screen_row s + 1 else screen_row s)"
proof (cases "v = 0 \<or> error_code v")
  case True
  then show thesis using that(1) by (auto simp: deliver_eq [OF assms(1,2,4)] stuck_vector_def)
next
  case False
  have d: "deliver sy P it v s = (if v = 0x21 then int21h_handler P s else no_interrupt_handler P s)"
    using deliver_eq [OF assms(1,2,4), of P s] False by simp
  show thesis
  proof (cases "v = 0x21")
    case True
    show thesis
    proof (rule int21h_handler_ok [OF assms(3), of P])
      fix t assume t: "key_down P s \<longrightarrow> screen_row s \<le> 1842" "int21h_handler P s = Some t"
        "ks_dev t = io_outb P 0x20 0x20 (snd (io_insb P 0x60 (ks_dev s)))" "kept s t" "screen_ok t"
        "screen_row t = (if key_down P s then screen_row s + 1 else screen_row s)"
      then have "\<not> stuck_vector P v s" using True False by (auto simp: stuck_vector_def)
      moreover have "deliver sy P it v s = Some t" using d t(2) True by simp
      ultimately show thesis using t(6) True by (intro that(2) [OF _ _ t(3-5)]) simp_all
    next
      assume "key_down P s" "1842 < screen_row s" "int21h_handler P s = None"
      then show thesis using that(1) True d by (simp add: stuck_vector_def)
    qed
  next
    case v: False
    obtain t where "no_interrupt_handler P s = Some t" "ks_dev t = io_outb P 0x20 0x20 (ks_dev s)" "kept s t" "screen_ok t" "screen_row t = screen_row s"
      using no_interrupt_ok [OF assms(3), of P] by blast
    then show thesis using v False d that(2) by (simp add: stuck_vector_def)
  qed
qed

lemma interrupted_keeps:
  assumes "interrupted sy P it s n t" "idt_init sy it0 = Some it"
    "distinct [sy_int21h sy, sy_idt_zero sy, sy_no_interrupt sy]" "screen_ok s"
  shows "kept s t \<and> screen_ok t \<and> screen_row t \<le> screen_row s + n"
  using assms(1,4)
proof (induction rule: interrupted.induct)
  case (idle s)
  then show ?case by (simp add: kept_refl)
next
  case (taken s n t v u)
  then have t: "kept s t" "screen_ok t" "screen_row t \<le> screen_row s + n" by simp_all
  show ?case
  proof (rule deliver_ok [OF assms(2,3) t(2) taken.hyps(2), of P])
    assume "deliver sy P it v t = None"
    then show ?thesis using taken.hyps(3) by simp
  next
    fix u' d assume "deliver sy P it v t = Some u'" "kept t u'" "screen_ok u'"
      "screen_row u' \<le> (if v = 0x21 then screen_row t + 1 else screen_row t)"
    then show ?thesis using taken.hyps(3) t(3) kept_trans [OF t(1)] by auto
  qed
qed

section \<open>Properties\<close>

text \<open>
  C17. \<open>idt_init\<close> always succeeds and loads a table in which each of the 512 entries is a
  present 32-bit interrupt gate of the kernel's code segment: vector 0 leads to the
  division handler, \<open>0x21\<close> to the keyboard and every other vector to the empty handler;
  the limit covers the table exactly.
\<close>

theorem idt_init_gates:
  "\<exists>it'. idt_init sy it = Some it' \<and> length (it_descriptors it') = 512 \<and> (\<forall>d \<in> set (it_descriptors it'). gate_ok d) \<and>
    (\<forall>i < 512. gate_offset (it_descriptors it' ! i) =
      (if i = 0 then sy_idt_zero sy else if i = 0x21 then sy_int21h sy else sy_no_interrupt sy)) \<and>
    it_loaded it' = Some \<lparr>ir_limit = 4095, ir_base = sy_descriptors sy\<rparr>"
proof -
  have "\<forall>d \<in> set (idt_gates sy). gate_ok d" unfolding all_set_conv_all_nth by (simp add: gate_ok_gate)
  then show ?thesis unfolding idt_init_eq by (simp add: gate_offset_gate)
qed

theorem idt_init_gates_witness:
  "\<exists>it'. idt_init \<lparr>sy_no_interrupt = 0x100000, sy_idt_zero = 0x100100, sy_int21h = 0x100200, sy_descriptors = 0x103000\<rparr>
      \<lparr>it_descriptors = [], it_descriptor = \<lparr>ir_limit = 0, ir_base = 0\<rparr>, it_loaded = None\<rparr> = Some it' \<and>
    length (it_descriptors it') = 512 \<and> (\<forall>d \<in> set (it_descriptors it'). gate_ok d)"
  using idt_init_gates [of "\<lparr>sy_no_interrupt = 0x100000, sy_idt_zero = 0x100100, sy_int21h = 0x100200, sy_descriptors = 0x103000\<rparr>"
    "\<lparr>it_descriptors = [], it_descriptor = \<lparr>ir_limit = 0, ir_base = 0\<rparr>, it_loaded = None\<rparr>"] by blast

text \<open>
  C11. After \<open>idt_init\<close> the idling kernel serves interrupts as follows, from any state a
  sequence of interrupts has led to. A vector comes back to the interrupted code exactly if
  it is not the division error, has no error code (the stubs do not take it off the stack)
  and is not a key going down with the cursor below row 1842, where the message would go
  over the kernel image; the last thing a handler does is to acknowledge the interrupt at
  port \<open>0x20\<close>. Each key moves the cursor down by at most one row, and up to that point heap,
  objects, disk, files and the memory of the kernel image are those from the start.
\<close>

theorem interrupts_served:
  assumes "idt_init sy it0 = Some it" "distinct [sy_int21h sy, sy_idt_zero sy, sy_no_interrupt sy]" "screen_ok s"
    "interrupted sy P it s n t" "v < 256"
  shows "kept s t \<and> screen_row t \<le> screen_row s + n \<and>
    (if v = 0 \<or> error_code v \<or> v = 0x21 \<and> key_down P t \<and> 1842 < screen_row t then deliver sy P it v t = None
     else \<exists>u d. deliver sy P it v t = Some u \<and> ks_dev u = io_outb P 0x20 0x20 d \<and>
       interrupted sy P it s (if v = 0x21 then n + 1 else n) u)"
proof -
  have k: "kept s t" "screen_ok t" "screen_row t \<le> screen_row s + n" using interrupted_keeps [OF assms(4,1-3)] by auto
  show ?thesis
  proof (rule deliver_ok [OF assms(1,2) k(2) assms(5), of P])
    assume "stuck_vector P v t" "deliver sy P it v t = None"
    then show ?thesis using k(1,3) by (simp add: stuck_vector_def)
  next
    fix u d assume u: "\<not> stuck_vector P v t" "deliver sy P it v t = Some u" "ks_dev u = io_outb P 0x20 0x20 d"
    then show ?thesis using k(1,3) interrupted.taken [OF assms(4,5) u(2)] by (auto simp: stuck_vector_def)
  qed
qed

definition demo_symbols :: idt_symbols where
  "demo_symbols = \<lparr>sy_no_interrupt = 0x100000, sy_idt_zero = 0x100100, sy_int21h = 0x100200, sy_descriptors = 0x103000\<rparr>"

definition demo_idt :: idt_state where
  "demo_idt = \<lparr>it_descriptors = idt_gates demo_symbols,
     it_descriptor = \<lparr>ir_limit = 4095, ir_base = 0x103000\<rparr>, it_loaded = Some \<lparr>ir_limit = 4095, ir_base = 0x103000\<rparr>\<rparr>"

definition pressed_ports :: "nat ports" where
  "pressed_ports = \<lparr>io_insb = (\<lambda>_ d. (0x1E, d)), io_insw = (\<lambda>_ d. (0, d)), io_outb = (\<lambda>_ _ d. Suc d)\<rparr>"

definition screen_state :: "nat kst" where
  "screen_state = (boot_state 0)\<lparr>ks_term := terminal_initialize (ks_term (boot_state (0 :: nat)))\<rparr>"

lemma demo_idt_loaded: "idt_init demo_symbols demo_idt = Some demo_idt"
  unfolding idt_init_eq demo_idt_def by (simp add: demo_symbols_def)

text \<open>The same screen after 1843 lines: the next key overwrites the kernel.\<close>

definition full_screen_state :: "nat kst" where
  "full_screen_state = screen_state\<lparr>ks_term := (ks_term screen_state)\<lparr>tm_row := 1843, tm_col := 1\<rparr>\<rparr>"

lemma demo_screens:
  "screen_ok screen_state" "screen_row screen_state = 0" "screen_ok full_screen_state" "screen_row full_screen_state = 1843"
  "key_down pressed_ports s"
  by (simp_all add: screen_ok_def screen_row_def screen_state_def full_screen_state_def terminal_initialize_def key_down_def pressed_ports_def)

lemma demo_distinct: "distinct [sy_int21h demo_symbols, sy_idt_zero demo_symbols, sy_no_interrupt demo_symbols]"
  by (simp add: demo_symbols_def)

theorem interrupts_served_witness:
  "(\<exists>u d. deliver demo_symbols pressed_ports demo_idt 0x21 screen_state = Some u \<and> ks_dev u = io_outb pressed_ports 0x20 0x20 d \<and>
      interrupted demo_symbols pressed_ports demo_idt screen_state 1 u) \<and>
   deliver demo_symbols pressed_ports demo_idt 14 screen_state = None \<and>
   deliver demo_symbols pressed_ports demo_idt 0x21 full_screen_state = None"
proof -
  note r = interrupts_served [OF demo_idt_loaded demo_distinct _ interrupted.idle]
  show ?thesis
    using r [OF demo_screens(1), of "0x21" pressed_ports] r [OF demo_screens(1), of 14 pressed_ports]
      r [OF demo_screens(3), of "0x21" pressed_ports]
    by (simp add: demo_screens error_code_def del: not_less)
qed

text \<open>
  The keyboard handler prints its message exactly when bit 7 of the scan code is
  clear, which is when a key goes down, and acknowledges the interrupt in either case.
\<close>

theorem keyboard_prints_on_press:
  assumes "screen_ok s" "screen_row s \<le> 1842"
  shows "\<exists>t. int21h_handler P s = Some t \<and> ks_dev t = io_outb P 0x20 0x20 (snd (io_insb P 0x60 (ks_dev s))) \<and>
    (if key_down P s then print (literal ''Keyboard Pressed\<newline>'') (ks_term s) = Some (ks_term t) else ks_term t = ks_term s)"
  by (rule int21h_handler_ok [OF assms(1), of P]) (use assms(2) in auto)

theorem keyboard_prints_on_press_witness:
  "\<exists>t. int21h_handler pressed_ports screen_state = Some t \<and>
    print (literal ''Keyboard Pressed\<newline>'') (ks_term screen_state) = Some (ks_term t)"
  using keyboard_prints_on_press [OF demo_screens(1), of pressed_ports] by (auto simp: demo_screens)

end
