(* ===== verification/Kernel_Main.thy ===== *)
theory Kernel_Main
  imports File_Layer Paging Interrupts
begin

text \<open>
  The boot of the kernel: \<open>enable_virtual_addressing\<close> and \<open>kernel_main\<close> of
  \<open>src/kernel.c\<close>, lines 76 to 120. The statics of the kernel are the record \<open>kernel\<close>:
  the memory, the control registers, the interrupt table, \<open>kernel_chunk\<close> and the
  processor's interrupt flag.
\<close>

section \<open>Operations\<close>

record 'd kernel =
  kn_mem :: "'d kst"
  kn_mmu :: mmu_regs
  kn_idt :: idt_state
  kn_kernel_chunk :: u32
  kn_interrupts :: bool

text \<open>
  The address an access to a virtual address reaches. The objects of \<open>kst\<close> are at
  physical addresses; the accesses of the code through pointers it got from the allocator
  are through the identity map.
\<close>

definition physical :: "'d kernel \<Rightarrow> u32 \<Rightarrow> u32 option" where
  "physical k va = (if mm_enabled (kn_mmu k) then translate (kn_mem k) (mm_cr3 (kn_mmu k)) va else Some va)"

text \<open>All 25 bytes lie in one page, so that one translation serves the whole copy.\<close>

definition enable_virtual_addressing :: "'d kernel \<Rightarrow> 'd kernel option" where
  "enable_virtual_addressing k = do {
     (ptr, s1) \<leftarrow> kzalloc 4096 as_bytes (kn_mem k);
     let VA_start = 0x1000;
     directory \<leftarrow> pagin_4gb_chunk_get_directory (kn_kernel_chunk k) s1;
     (res, s2) \<leftarrow> paging_set directory VA_start
       (ptr OR ucast PAGING_ACCESS_FROM_ALL OR ucast PAGING_IS_PRESENT OR ucast PAGING_IS_WRITABLE) s1;
     ptr2 \<leftarrow> physical (k\<lparr>kn_mem := s2\<rparr>) VA_start;
     dest \<leftarrow> obj_bytes s2 ptr2;
     (res', dest') \<leftarrow> memcpy (Some dest) (Some (literal ''Virtual Address enabled\<newline>'')) 25;
     bytes \<leftarrow> dest';
     let s3 = store ptr2 (OBytes bytes) s2;
     str \<leftarrow> obj_bytes s3 ptr2;
     s4 \<leftarrow> kprint str s3;
     Some (k\<lparr>kn_mem := s4\<rparr>) }"

definition enable_interrupts :: "'d kernel \<Rightarrow> 'd kernel" where
  "enable_interrupts k = k\<lparr>kn_interrupts := True\<rparr>"

text \<open>\<open>kernel_main\<close> up to the first file operation; \<open>raw\<close> is the memory of the heap table.\<close>

definition kernel_start :: "'d ports \<Rightarrow> idt_symbols \<Rightarrow> u8 list \<Rightarrow> 'd kernel \<Rightarrow> 'd kernel option" where
  "kernel_start P sy raw k = do {
     let s0 = kn_mem k;
     s1 \<leftarrow> kprint (literal ''SAMOS: System booted successfully!\<newline>'') (s0\<lparr>ks_term := terminal_initialize (ks_term s0)\<rparr>);
     s2 \<leftarrow> kheap_init raw s1;
     s3 \<leftarrow> disk_search_and_init P s2;
     it \<leftarrow> idt_init sy (kn_idt k);
     (chunk, s4) \<leftarrow> paging_new_4gb (PAGING_ACCESS_FROM_ALL OR PAGING_IS_PRESENT OR PAGING_IS_WRITABLE) s3;
     directory \<leftarrow> pagin_4gb_chunk_get_directory chunk s4;
     k1 \<leftarrow> enable_virtual_addressing (k\<lparr>kn_mem := s4, kn_idt := it, kn_kernel_chunk := chunk,
       kn_mmu := enable_paging (paging_switch directory (kn_mmu k))\<rparr>);
     Some (enable_interrupts k1) }"

text \<open>
  The rest. The result is the state in which \<open>while (1)\<close> is entered; \<open>st\<close> is what the
  uninitialised \<open>struct file_stat\<close> holds.
\<close>

definition kernel_main :: "'d ports \<Rightarrow> idt_symbols \<Rightarrow> u8 list \<Rightarrow> file_stat \<Rightarrow> 'd kernel \<Rightarrow> 'd kernel option" where
  "kernel_main P sy raw st k = do {
     k1 \<leftarrow> kernel_start P sy raw k;
     (fd, s1) \<leftarrow> fopen P (Some (literal ''0:/hello.txt'')) (literal ''r'') (kn_mem k1);
     if fd \<noteq> 0 then do {
       (res, st', s2) \<leftarrow> fstat fd (Some st) s1;
       (res', s3) \<leftarrow> fclose fd s2;
       s4 \<leftarrow> kprint (literal ''Test Completed!\<newline>'') s3;
       Some (k1\<lparr>kn_mem := s4\<rparr>) }
     else Some (k1\<lparr>kn_mem := s1\<rparr>) }"

definition boot_kernel :: "'d \<Rightarrow> 'd kernel" where
  "boot_kernel d = \<lparr>kn_mem = boot_state d, kn_mmu = \<lparr>mm_current_directory = 0, mm_cr3 = 0, mm_enabled = False\<rparr>,
     kn_idt = \<lparr>it_descriptors = replicate 512 zero_desc, it_descriptor = \<lparr>ir_limit = 0, ir_base = 0\<rparr>, it_loaded = None\<rparr>,
     kn_kernel_chunk = 0, kn_interrupts = False\<rparr>"

section \<open>Booting\<close>

text \<open>
  After the boot: the interrupt table is loaded, paging is on, and the walk maps every
  page to itself, but for the page at \<open>0x1000\<close>, which is the new page of the heap.
\<close>

definition booted :: "idt_symbols \<Rightarrow> (u32 \<Rightarrow> nat option) \<Rightarrow> 'd kernel \<Rightarrow> bool" where
  "booted sy B k \<longleftrightarrow> heap_ok (kn_mem k) B \<and> free_count (ks_heap (kn_mem k)) = 24573 \<and> screen_ok (kn_mem k) \<and> screen_row (kn_mem k) = 2 \<and>
     mm_enabled (kn_mmu k) \<and> kn_interrupts k \<and> Some (kn_idt k) = idt_init sy (kn_idt k) \<and>
     (\<exists>page bytes. B page \<noteq> None \<and> ks_objs (kn_mem k) page = Some (OBytes bytes) \<and>
        cstr bytes = map of_char ''Virtual Address enabled\<newline>'' \<and>
        (\<forall>va. physical k va = Some (if drop_bit 12 va = 1 then page OR take_bit 12 va else va)))"

lemma literals:
  "literal ''r'' = [0x72, 0]"
  "literal ''0:/hello.txt'' = [0x30, 0x3A, 0x2F, 104, 101, 108, 108, 111, 46, 116, 120, 116, 0]"
  "length (literal ''Virtual Address enabled\<newline>'') = 25"
  by (simp_all add: literal_def)

lemma cstr_literal: "0 \<notin> set (map of_char cs :: u8 list) \<Longrightarrow> cstr (literal cs @ xs) = map of_char cs"
  unfolding literal_def by (simp add: cstr_append0)

lemma directory_at_cong:
  assumes "directory_at s dir fl ts ws" "\<forall>q \<in> set (dir # ts). ks_objs t q = ks_objs s q"
  shows "directory_at t dir fl ts ws"
  using assms by (auto simp: directory_at_def)

lemma directory_at_objs: "directory_at s dir fl ts ws \<Longrightarrow> q \<in> set (dir # ts) \<Longrightarrow> \<exists>w. ks_objs s q = Some (OWords w)"
  unfolding directory_at_def by (auto simp: in_set_conv_nth)

lemma translate_cong: "directory_at s dir fl ts ws \<Longrightarrow> directory_at t dir fl ts ws \<Longrightarrow> translate t dir va = translate s dir va"
  by (simp add: translate_eq)

lemma page_flags:
  assumes "p AND mask 12 = (0 :: u32)"
  shows "bit (p OR ucast PAGING_ACCESS_FROM_ALL OR ucast PAGING_IS_PRESENT OR ucast PAGING_IS_WRITABLE) 0"
    "(p OR ucast PAGING_ACCESS_FROM_ALL OR ucast PAGING_IS_PRESENT OR ucast PAGING_IS_WRITABLE) AND NOT (mask 12) = p"
proof -
  have f: "p OR ucast PAGING_ACCESS_FROM_ALL OR ucast PAGING_IS_PRESENT OR ucast PAGING_IS_WRITABLE = p OR 7"
    by (simp add: or.assoc)
  have "(7 :: u32) AND NOT (mask 12) = 0" by (simp add: mask_eq_exp_minus_1)
  then show "(p OR ucast PAGING_ACCESS_FROM_ALL OR ucast PAGING_IS_PRESENT OR ucast PAGING_IS_WRITABLE) AND NOT (mask 12) = p"
    unfolding f by (rule or_flags [OF assms])
  show "bit (p OR ucast PAGING_ACCESS_FROM_ALL OR ucast PAGING_IS_PRESENT OR ucast PAGING_IS_WRITABLE) 0"
    unfolding f by (simp add: bit_or_iff)
qed

lemma copy_page:
  "memcpy (Some (replicate 4096 0)) (Some (literal ''Virtual Address enabled\<newline>'')) 25 =
     Some (0, Some (literal ''Virtual Address enabled\<newline>'' @ replicate 4071 0))"
  using memcpy_loop_copy [of 0 25 "replicate 4096 0" "literal ''Virtual Address enabled\<newline>''"]
  by (simp add: memcpy_def literals(3))

lemma virtual_addressing_ok:
  assumes "heap_ok (kn_mem k) B" "0 < free_count (ks_heap (kn_mem k))" "screen_ok (kn_mem k)" "mm_enabled (kn_mmu k)"
    "mm_cr3 (kn_mmu k) = dir" "ks_objs (kn_mem k) (kn_kernel_chunk k) = Some (OChunk dir)"
    "directory_at (kn_mem k) dir fl ts ws" "\<forall>va. translate (kn_mem k) dir va = Some va"
    "screen_row (kn_mem k) \<le> 1842"
  shows "\<exists>s p. enable_virtual_addressing k = Some (k\<lparr>kn_mem := s\<rparr>) \<and> B p = None \<and> heap_ok s (B(p \<mapsto> 1)) \<and> screen_ok s \<and> screen_row s = screen_row (kn_mem k) + 1 \<and>
    free_count (ks_heap (kn_mem k)) = Suc (free_count (ks_heap s)) \<and> ks_disk s = ks_disk (kn_mem k) \<and>
    ks_filesystems s = ks_filesystems (kn_mem k) \<and>
    ks_objs s p = Some (OBytes (literal ''Virtual Address enabled\<newline>'' @ replicate 4071 0)) \<and>
    (\<forall>va. translate s dir va = Some (if drop_bit 12 va = 1 then p OR take_bit 12 va else va))"
proof -
  let ?s = "kn_mem k" and ?z = "OBytes (replicate 4096 0)"
  let ?lit = "literal ''Virtual Address enabled\<newline>''"
  let ?y = "OBytes (?lit @ replicate 4071 0)"
  obtain p h where m: "zalloc 4096 ?z ?s = Some (p, store p ?z (?s\<lparr>ks_heap := h\<rparr>))" "p \<noteq> 0" "B p = None" "ks_objs ?s p = None"
    "heap_ok (store p ?z (?s\<lparr>ks_heap := h\<rparr>)) (B(p \<mapsto> 1))" "same_frame (ks_heap ?s) h"
    "free_count (ks_heap ?s) = Suc (free_count h)"
    by (rule zalloc_one_block [OF assms(1), of 4096 ?z]) (use assms(2) in auto)
  let ?s1 = "store p ?z (?s\<lparr>ks_heap := h\<rparr>)"
  have np: "p \<notin> set (dir # ts)" using directory_at_objs [OF assms(7), of p] m(4) by auto
  then have at1: "directory_at ?s1 dir fl ts ws" by (intro directory_at_cong [OF assms(7)]) auto
  have pa: "p AND mask 12 = 0" by (rule heap_ok_aligned [OF m(5)]) simp
  let ?pa = "p OR ucast PAGING_ACCESS_FROM_ALL OR ucast PAGING_IS_PRESENT OR ucast PAGING_IS_WRITABLE"
  have "paging_is_aligned 0x1000" by (simp add: paging_is_aligned_def)
  from paging_set_ok [OF at1 this, of ?pa] obtain s2 ws' where s2: "paging_set dir 0x1000 ?pa ?s1 = Some (0, s2)"
    "directory_at s2 dir fl ts ws'" "grown ?s1 (set ts) s2" "\<forall>q. ks_objs s2 q = None \<longleftrightarrow> ks_objs ?s1 q = None"
    "ks_heap s2 = ks_heap ?s1"
    "\<forall>va'. translate s2 dir va' = (if drop_bit 12 va' = drop_bit 12 0x1000
       then (if bit ?pa 0 then Some ((?pa AND NOT (mask 12)) OR take_bit 12 va') else None) else translate ?s1 dir va')"
    by blast
  have tr: "translate s2 dir va = Some (if drop_bit 12 va = 1 then p OR take_bit 12 va else va)" for va
    using s2(6) page_flags [OF pa] assms(8) translate_cong [OF assms(7) at1, of va] by simp
  have p2: "ks_objs s2 p = Some ?z" using grown_objs [OF s2(3), of p] np by simp
  let ?s3 = "store p ?y s2"
  have rest: "ks_disk s2 = ks_disk ?s" "ks_term s2 = ks_term ?s" "ks_filesystems s2 = ks_filesystems ?s"
    using grown_rest [OF s2(3)] by simp_all
  have lit: "terminated (?lit @ replicate 4071 0)" "cstr (?lit @ replicate 4071 0) = map of_char ''Virtual Address enabled'' @ [10]"
    by (simp_all add: terminated_def literal_def)
  have row: "screen_ok ?s3" "screen_row ?s3 = screen_row ?s" using assms(3) rest by (simp_all add: screen_ok_def screen_row_def)
  obtain tm where tm: "kprint (?lit @ replicate 4071 0) ?s3 = Some (?s3\<lparr>ks_term := tm\<rparr>)" "screen_ok (?s3\<lparr>ks_term := tm\<rparr>)"
    "screen_row (?s3\<lparr>ks_term := tm\<rparr>) = screen_row ?s + 1"
    by (rule kprint_line_ok [OF lit _ _ _ row(1)]) (use assms(9) row(2) in auto)
  let ?t = "?s3\<lparr>ks_term := tm\<rparr>"
  have "physical (k\<lparr>kn_mem := s2\<rparr>) 0x1000 = Some p" using assms(4,5) tr [of "0x1000"] by (simp add: physical_def)
  moreover have "pagin_4gb_chunk_get_directory (kn_kernel_chunk k) ?s1 = Some dir"
    using assms(6) m(4) by (auto simp: pagin_4gb_chunk_get_directory_def obj_chunk_def)
  ultimately have "enable_virtual_addressing k = Some (k\<lparr>kn_mem := ?t\<rparr>)"
    using m(1) s2(1) p2 copy_page tm(1) by (simp add: enable_virtual_addressing_def deref)
  moreover have "heap_ok ?t (B(p \<mapsto> 1))"
  proof -
    have "heap_ok s2 (B(p \<mapsto> 1))" using m(5) s2(4,5) by (simp add: heap_ok_def)
    then have "heap_ok ?s3 (B(p \<mapsto> 1))" by (rule heap_ok_store) (simp add: p2)
    then show ?thesis by (rule heap_ok_cong) simp_all
  qed
  moreover have "translate ?t dir va = translate s2 dir va" for va
    by (rule translate_cong [OF s2(2)], rule directory_at_cong [OF s2(2)]) (use np in auto)
  ultimately show ?thesis using m(3,7) s2(5) rest tr tm(2,3)
    by (intro exI [of _ ?t] exI [of _ p]) simp
qed

lemma kernel_start_ok:
  assumes "length raw = 25600"
  shows "\<exists>k B. kernel_start P sy raw (boot_kernel d) = Some k \<and> booted sy B k \<and> dk_filesystem (ks_disk (kn_mem k)) = FS_NULL"
proof -
  let ?boot = "boot_kernel d" and ?mem = "boot_state d"
  let ?s1 = "?mem\<lparr>ks_term := terminal_initialize (ks_term ?mem)\<rparr>"
  have row: "screen_ok ?s1" "screen_row ?s1 = 0" by (simp_all add: screen_ok_def screen_row_def terminal_initialize_def)
  have line: "cstr (literal ''SAMOS: System booted successfully!\<newline>'') = map of_char ''SAMOS: System booted successfully!'' @ [10]"
    by (simp add: literal_def)
  obtain tm where tm: "kprint (literal ''SAMOS: System booted successfully!\<newline>'') ?s1 = Some (?s1\<lparr>ks_term := tm\<rparr>)"
    "screen_ok (?s1\<lparr>ks_term := tm\<rparr>)" "screen_row (?s1\<lparr>ks_term := tm\<rparr>) = 1"
    by (rule kprint_line_ok [OF terminated_literal line _ _ _ row(1)]) (use row(2) in auto)
  let ?s2 = "?s1\<lparr>ks_term := tm, ks_heap := fresh_heap 0x01000000 25600\<rparr>"
  have "ks_objs (?s1\<lparr>ks_term := tm\<rparr>) = Map.empty" by (simp add: boot_state_def)
  note hi = kheap_init_fresh [OF assms this]
  let ?disk = "\<lparr>dk_id = 0, dk_type = 0, dk_sector_size = 512, dk_filesystem = FS_NULL, dk_fs_private = 0\<rparr>"
  let ?s3 = "?s2\<lparr>ks_disk := ?disk\<rparr>"
  have dk: "disk_search_and_init P ?s2 = Some ?s3"
    by (rule disk_init_no_filesystem) (simp add: boot_state_def)
  have h3: "heap_ok ?s3 Map.empty" by (rule heap_ok_cong [OF conjunct2 [OF hi]]) simp_all
  have fl: "PAGING_ACCESS_FROM_ALL OR PAGING_IS_PRESENT OR PAGING_IS_WRITABLE = (7 :: u8)" by simp
  have f3: "free_count (ks_heap ?s3) = 25600" by (simp add: free_count_fresh)
  obtain c dir ts s4 where n: "paging_new_4gb 7 ?s3 = Some (c, s4)" "ks_objs s4 c = Some (OChunk dir)"
    "directory_at s4 dir (dir_flags 7) ts (map (table_words 7) [0..<1024])" "heap_ok s4 (with_blocks Map.empty (set (c # dir # ts)))"
    "grown ?s3 (set (c # dir # ts)) s4" "free_count (ks_heap ?s3) = free_count (ks_heap s4) + 1026"
    using paging_new_ok [OF h3, of 7] f3 by auto
  have rest: "ks_term s4 = tm" "ks_disk s4 = ?disk" using grown_rest [OF n(5)] by simp_all
  obtain it where it: "idt_init sy (kn_idt ?boot) = Some it" "idt_init sy it = Some it" unfolding idt_init_eq by simp
  let ?k = "?boot\<lparr>kn_mem := s4, kn_idt := it, kn_kernel_chunk := c, kn_mmu := enable_paging (paging_switch dir (kn_mmu ?boot))\<rparr>"
  have id: "\<forall>va. translate s4 dir va = Some va" using identity_walk [OF n(3)] by simp
  have "screen_ok s4" and r4: "screen_row s4 = 1" using tm(2,3) rest(1) by (simp_all add: screen_ok_def screen_row_def)
  then obtain s p where v: "enable_virtual_addressing ?k = Some (?k\<lparr>kn_mem := s\<rparr>)"
    "heap_ok s ((with_blocks Map.empty (set (c # dir # ts)))(p \<mapsto> 1))" "screen_ok s \<and> screen_row s = screen_row s4 + 1" "free_count (ks_heap s4) = Suc (free_count (ks_heap s))"
    "ks_disk s = ks_disk s4" "ks_objs s p = Some (OBytes (literal ''Virtual Address enabled\<newline>'' @ replicate 4071 0))"
    "\<forall>va. translate s dir va = Some (if drop_bit 12 va = 1 then p OR take_bit 12 va else va)"
    using virtual_addressing_ok [of ?k "with_blocks Map.empty (set (c # dir # ts))" dir "dir_flags 7" ts
        "map (table_words 7) [0..<1024]"] n(2-4,6) f3 id
    by (simp add: enable_paging_def paging_switch_def) blast
  let ?t = "enable_interrupts (?k\<lparr>kn_mem := s\<rparr>)"
  have st: "kernel_start P sy raw ?boot = Some ?t"
    using tm(1) hi dk it(1) n(1,2) v(1) unfolding kernel_start_def fl
    by (simp add: boot_kernel_def pagin_4gb_chunk_get_directory_def obj_chunk_def)
  have cs: "cstr (literal ''Virtual Address enabled\<newline>'' @ replicate 4071 0) = map of_char ''Virtual Address enabled\<newline>''"
    by (rule cstr_literal) simp
  have ph: "physical ?t va = Some (if drop_bit 12 va = 1 then p OR take_bit 12 va else va)" for va
    using v(7) by (simp add: physical_def enable_interrupts_def enable_paging_def paging_switch_def)
  have "booted sy ((with_blocks Map.empty (set (c # dir # ts)))(p \<mapsto> 1)) ?t"
    unfolding booted_def
  proof (intro conjI)
    show "\<exists>page bytes. ((with_blocks Map.empty (set (c # dir # ts)))(p \<mapsto> 1)) page \<noteq> None \<and>
        ks_objs (kn_mem ?t) page = Some (OBytes bytes) \<and> cstr bytes = map of_char ''Virtual Address enabled\<newline>'' \<and>
        (\<forall>va. physical ?t va = Some (if drop_bit 12 va = 1 then page OR take_bit 12 va else va))"
      using v(6) cs ph
      by (intro exI [of _ p] exI [of _ "literal ''Virtual Address enabled\<newline>'' @ replicate 4071 0"]) (simp add: enable_interrupts_def)
  qed (use v(2,3,4) n(6) f3 it(2) r4 in \<open>simp_all add: enable_interrupts_def enable_paging_def\<close>)
  then show ?thesis using st v(5) rest(2) by (auto simp: enable_interrupts_def)
qed

lemma fopen_at_boot:
  assumes "heap_ok s B" "dk_filesystem (ks_disk s) = FS_NULL" "3 \<le> free_count (ks_heap s)"
  shows "fopen P (Some (literal ''0:/hello.txt'')) (literal ''r'') s = None"
proof -
  let ?body = "[104, 101, 108, 108, 111, 46, 116, 120, 116] :: u8 list"
  have "path_parts ?body = [?body]" by (simp add: path_parts.simps)
  then show ?thesis
    using fopen_parsed [OF assms(1), of "literal ''0:/hello.txt''" "0x30" ?body ?body "[]" "0x72" "[0]" P] assms(2,3)
    unfolding literals by (auto simp: terminated_def isdigit_def)
qed

section \<open>Properties\<close>

text \<open>
  C21. The boot always reaches the point where interrupts are on, whatever the disk holds
  and whatever the table memory held: the screen is usable with the cursor in row 2, the heap is in order with
  24573 blocks left, paging is on with every page mapped to itself except the page at
  \<open>0x1000\<close>, which is a heap page that holds the printed string, and the interrupt table is
  loaded; but no filesystem is bound to the disk.
\<close>

theorem kernel_boots:
  assumes "length raw = 25600"
  shows "\<exists>k B. kernel_start P sy raw (boot_kernel d) = Some k \<and> booted sy B k \<and> dk_filesystem (ks_disk (kn_mem k)) = FS_NULL"
  using assms by (rule kernel_start_ok)

theorem kernel_boots_witness:
  "\<exists>k B. kernel_start (sim_ports demo_img) demo_symbols (replicate 25600 0xAA)
      (boot_kernel \<lparr>sim_regs = (\<lambda>_. 0), sim_busy = 0, sim_queue = []\<rparr>) = Some k \<and>
    booted demo_symbols B k \<and> dk_filesystem (ks_disk (kn_mem k)) = FS_NULL"
  by (rule kernel_boots) simp

text \<open>
  C13. \<open>kernel_main\<close> never gets to its idle loop: nothing calls \<open>fs_int\<close>, so no filesystem
  is registered when the disk is initialised, and \<open>fopen\<close> calls \<open>open\<close> through the null
  filesystem of the disk, whatever the disk holds.
\<close>

theorem kernel_main_faults:
  assumes "length raw = 25600"
  shows "kernel_main P sy raw st (boot_kernel d) = None"
proof -
  obtain k B where k: "kernel_start P sy raw (boot_kernel d) = Some k" "booted sy B k" "dk_filesystem (ks_disk (kn_mem k)) = FS_NULL"
    using kernel_start_ok [OF assms, of P sy d] by (elim exE conjE)
  have "fopen P (Some (literal ''0:/hello.txt'')) (literal ''r'') (kn_mem k) = None"
    by (rule fopen_at_boot) (use k(2,3) in \<open>auto simp: booted_def\<close>)
  then show ?thesis using k(1) by (simp add: kernel_main_def)
qed

theorem kernel_main_faults_witness:
  "kernel_main (sim_ports demo_img) demo_symbols (replicate 25600 0xAA) \<lparr>fs_flags = 0, fs_files = 0, fs_filesize = 0\<rparr>
     (boot_kernel \<lparr>sim_regs = (\<lambda>_. 0), sim_busy = 0, sim_queue = []\<rparr>) = None"
  by (rule kernel_main_faults) simp

end
