(* ===== verification/Volume_Session.thy ===== *)
theory Volume_Session
  imports File_Layer
begin

text \<open>
  The components together: the disk is initialised and mounted, a path is parsed, the file
  it denotes is opened, used and closed, and the path is freed. What the file holds is
  read off the bytes of the disk alone; the addresses the kernel chose play no part in it.
\<close>

section \<open>The volume on a disk\<close>

text \<open>The geometry and the root directory that the boot sector of the disk \<open>img\<close> describes.\<close>

definition boot_header :: "(nat \<Rightarrow> u8) \<Rightarrow> fat_h" where
  "boot_header img = decode_header (slice img 0 62)"

definition volume :: "(nat \<Rightarrow> u8) \<Rightarrow> fat_private" where
  "volume img = zero_private\<lparr>fp_header := boot_header img,
     fp_root_directory := loaded_root img (fh_primary (boot_header img)) 0\<rparr>"

definition root_items :: "(nat \<Rightarrow> u8) \<Rightarrow> fat_directory_item list" where
  "root_items img = (let ph = fh_primary (boot_header img) in
     take (entries_used img (512 * root_sector ph) (root_entries ph))
       (decode_items (slice img (512 * root_sector ph) (32 * root_entries ph))))"

text \<open>A disk of \<open>cap\<close> sectors that carries a FAT16 volume the kernel can mount.\<close>

definition mountable :: "(nat \<Rightarrow> u8) \<Rightarrow> nat \<Rightarrow> bool" where
  "mountable img cap \<longleftrightarrow> (let h = boot_header img; ph = fh_primary h in
     fx_signature (fh_extended h) = SAMOS_FAT16_SIGNATURE \<and> 0 < root_entries ph \<and> root_entries ph \<le> 128 \<and>
     512 * root_sector ph + 32 * root_entries ph \<le> 512 * cap \<and> cap < 4194304 \<and>
     fh_sectors_per_cluster ph \<noteq> 0 \<and> unat (fh_reserved_sectors ph) + 256 \<le> cap)"

section \<open>What a path denotes does not depend on addresses\<close>

text \<open>Two mountings of the same volume differ in the addresses of streams and directory only.\<close>

definition same_layout :: "fat_private \<Rightarrow> fat_private \<Rightarrow> bool" where
  "same_layout fp fq \<longleftrightarrow> fp_header fp = fp_header fq \<and>
     fd_ending_sector_pos (fp_root_directory fp) = fd_ending_sector_pos (fp_root_directory fq)"

lemma layout_geometry:
  assumes "same_layout fp fq"
  shows "reserved fp = reserved fq" "spc fp = spc fq" "data_start fp = data_start fq" "fat_next img fp = fat_next img fq"
proof -
  show "reserved fp = reserved fq" "spc fp = spc fq" "data_start fp = data_start fq"
    using assms by (simp_all add: same_layout_def reserved_def spc_def data_start_def)
  then show "fat_next img fp = fat_next img fq" by (simp add: fat_next_def fun_eq_iff)
qed

lemma layout_chains:
  assumes "same_layout fp fq"
  shows "contents img fp = contents img fq" "chain_covers img fp = chain_covers img fq"
proof -
  show "contents img fp = contents img fq"
    unfolding contents_def cluster_pos_def layout_geometry [OF assms] ..
  show "chain_covers img fp = chain_covers img fq"
    unfolding chain_covers_def fun_eq_iff layout_geometry [OF assms] by simp
qed

lemma layout_items:
  assumes "same_layout fp fq"
  shows "dir_count img fp = dir_count img fq" "dir_items img fp = dir_items img fq" "dir_ok img fp = dir_ok img fq"
    "file_data img fp = file_data img fq" "file_ok img fp = file_ok img fq"
proof -
  show c: "dir_count img fp = dir_count img fq"
    unfolding dir_count_def layout_chains [OF assms] ..
  show "dir_items img fp = dir_items img fq"
    unfolding dir_items_def layout_chains [OF assms] c ..
  show "dir_ok img fp = dir_ok img fq"
    unfolding dir_ok_def layout_chains [OF assms] c ..
  show "file_data img fp = file_data img fq"
    unfolding file_data_def layout_chains [OF assms] ..
  show "file_ok img fp = file_ok img fq"
    unfolding file_ok_def layout_chains [OF assms] ..
qed

lemma layout_lookup: "same_layout fp fq \<Longrightarrow> lookup img fp items cs = lookup img fq items cs"
  by (induction img fp items cs rule: lookup.induct) (auto simp: layout_items split: option.split)

lemma layout_loadable: "same_layout fp fq \<Longrightarrow> loadable img fp cap it cs = loadable img fq cap it cs"
  by (induction img fp cap it cs rule: loadable.induct) (auto simp: layout_items split: option.split)

lemma layout_loadable_path: "same_layout fp fq \<Longrightarrow> loadable_path img fp cap items c cs = loadable_path img fq cap items c cs"
  by (simp add: loadable_path_def layout_loadable split: option.split)

lemmas layout = layout_items layout_lookup layout_loadable_path

section \<open>The session\<close>

definition volume_session :: "'d ports \<Rightarrow> u8 list \<Rightarrow> file_op list \<Rightarrow> 'd kst \<Rightarrow> (op_result list \<times> int \<times> 'd kst) option" where
  "volume_session P path xs s = do {
     s1 \<leftarrow> disk_search_and_init P s;
     (root, s2) \<leftarrow> pathparser_parse (Some path) None s1;
     r \<leftarrow> obj_root s2 root;
     (rs, res, s3) \<leftarrow> file_run (open_checked P (pr_first r)) (read_buffer P) fat16_seek fat16_close xs s2;
     s4 \<leftarrow> pathparser_free_root root s3;
     Some (rs, res, s4) }"

lemma mount_volume:
  assumes "heap_ok s B" "disk_ready P img cap idle s" "ks_filesystems s = FAT16_FS # fss" "mountable img cap"
    "6 \<le> free_count (ks_heap s)"
  obtains X t fp where "disk_search_and_init P s = Some t" "mounted P img cap idle fp t" "same_layout fp (volume img)"
    "has_root fp (root_items img) t" "heap_ok t (with_blocks B X)" "card X = 5" "\<forall>p \<in> X. B p = None" "evolved s X t"
    "free_count (ks_heap s) = free_count (ks_heap t) + 5"
proof -
  let ?h = "boot_header img"
  let ?ph = "fh_primary ?h"
  obtain X t fp dir where t: "disk_search_and_init P s = Some t" "mounted P img cap idle fp t" "fp_header fp = ?h"
    "fp_root_directory fp = loaded_root img ?ph dir"
    "ks_objs t dir = Some (OItems (decode_items (slice img (512 * root_sector ?ph) (32 * root_entries ?ph))))"
    "heap_ok t (with_blocks B X)" "finite X" "card X = 5" "\<forall>p \<in> X. B p = None" "evolved s X t"
    by (rule disk_init_ok [OF assms(1-3), of ?h]) (use assms(4,5) in \<open>auto simp: mountable_def boot_header_def Let_def\<close>)
  have "same_layout fp (volume img)"
    using t(3,4) by (simp add: same_layout_def volume_def loaded_root_def)
  moreover have "has_root fp (root_items img) t"
    unfolding has_root_def root_items_def Let_def
    using t(4,5) entries_used_le [of img "512 * root_sector ?ph" "root_entries ?ph"]
    by (auto simp: loaded_root_def length_decode_items min_def decode_items_shape)
  moreover have "free_count (ks_heap s) = free_count (ks_heap t) + 5"
    using free_count_blocks [OF t(7) assms(1) t(6) evolved_frame [OF t(10)] t(9)] t(8) by simp
  ultimately show thesis using t that by blast
qed

text \<open>A parsed path is freed in every state that evolved from the parse and owns the same blocks.\<close>

lemma free_parsed_path:
  assumes "ks_objs s r = Some (ORoot \<lparr>pr_drive_no = d, pr_first = first\<rparr>)" "parts_at (ks_objs s) first ps cs"
    "distinct (r # addrs ps)" "\<forall>p \<in> insert r (set (addrs ps)). B p = None" "evolved s {} t"
    "heap_ok t (with_blocks B (insert r (set (addrs ps))))" "mounted P img cap idle fp t"
  shows "\<exists>u. pathparser_free_root r t = Some u \<and> heap_ok u B \<and> evolved s (insert r (set (addrs ps))) u \<and>
    mounted P img cap idle fp u"
proof -
  have r: "ks_objs t r = Some (ORoot \<lparr>pr_drive_no = d, pr_first = first\<rparr>)" by (rule evolved_objs [OF assms(5) _ assms(1)]) simp_all
  have p: "parts_at (ks_objs t) first ps cs" by (rule parts_at_evolved [OF assms(2,5)]) simp
  obtain u where u: "pathparser_free_root r t = Some u" "heap_ok u B" "grown t (insert r (set (addrs ps))) u"
    using free_root_blocks [OF r p assms(3,4,6)] by blast
  have "mounted P img cap idle fp u"
    by (rule mounted_touched [OF assms(7) u(3)]) (use r parts_at_kind [OF p] in auto)
  moreover have "evolved s (insert r (set (addrs ps))) u" using evolved_trans [OF assms(5) grown_evolved [OF u(3)]] by simp
  ultimately show ?thesis using u by blast
qed

text \<open>On a mounted volume: parse, open, use, close, free, and the state is as before but for streams.\<close>

lemma mounted_session:
  assumes "heap_ok s B" "mounted P img cap idle fp s" "has_root fp items s" "terminated path"
    "cstr path = d # 0x3A # 0x2F # body" "isdigit d" "length (cstr path) \<le> 108" "path_parts body = c # cs"
    "2 * length (c # cs) + 8 \<le> free_count (ks_heap s)" "loadable_path img fp cap items c cs"
    "lookup img fp items (c # cs) = Some it" "\<not> is_dir it" "file_ok img fp cap it" "\<forall>x \<in> set xs. valid_op x"
  obtains root ro s1 s2 t where "pathparser_parse (Some path) None s = Some (root, s1)" "obj_root s1 root = Some ro"
    "file_run (open_checked P (pr_first ro)) (read_buffer P) fat16_seek fat16_close xs s1 =
       Some (file_run_spec (file_data img fp it) 0 xs, 0, s2)"
    "pathparser_free_root root s2 = Some t" "heap_ok t B" "evolved s {} t" "mounted P img cap idle fp t"
proof -
  have "2 * length (c # cs) + 1 \<le> free_count (ks_heap s)" using assms(9) by simp
  from parse_builds [OF assms(1,4-8) this, of None]
  obtain r s1 ps first where p: "pathparser_parse (Some path) None s = Some (r, s1)" "B r = None"
    "grown s (insert r (set (addrs ps))) s1" "distinct (r # addrs ps)" "\<forall>p \<in> set (addrs ps). B p = None"
    "heap_ok s1 (with_blocks B (insert r (set (addrs ps))))"
    "ks_objs s1 r = Some (ORoot \<lparr>pr_drive_no = sint d - 48, pr_first = first\<rparr>)" "parts_at (ks_objs s1) first ps (c # cs)"
    by blast
  let ?Y = "insert r (set (addrs ps))"
  have Y: "\<forall>p \<in> ?Y. B p = None" using p(2,5) by simp
  have m1: "mounted P img cap idle fp s1" by (rule mounted_grown [OF assms(2) p(3) assms(1) Y])
  have "fd_item (fp_root_directory fp) \<notin> ?Y"
    using assms(3) Y heap_ok_None [OF assms(1)] by (fastforce simp: has_root_def)
  then have r1: "has_root fp items s1" by (rule has_root_evolved [OF assms(3) grown_evolved [OF p(3)]])
  have "card ?Y = 2 * length (c # cs) + 1" using p(4) length_addrs [OF p(8)] by (simp add: distinct_card)
  then have f1: "7 \<le> free_count (ks_heap s1)"
    using free_count_blocks [OF _ assms(1) p(6) grown_frame [OF p(3)] Y] assms(9) by simp
  have "fat_start P img cap idle fp (with_blocks B ?Y) s1 it first s1 (file_data img fp it)"
    unfolding fat_start_def using p(6,8) m1 r1 f1 assms(10-13) by blast
  from fat.session_refines [OF this assms(14)] obtain s2 where s2:
    "file_run (open_checked P first) (read_buffer P) fat16_seek fat16_close xs s1 =
       Some (file_run_spec (file_data img fp it) 0 xs, 0, s2)"
    "heap_ok s2 (with_blocks B ?Y)" "evolved s1 {} s2" "mounted P img cap idle fp s2"
    by (auto simp: fat_closed_def)
  obtain t where t: "pathparser_free_root r s2 = Some t" "heap_ok t B" "evolved s1 ?Y t" "mounted P img cap idle fp t"
    using free_parsed_path [OF p(7,8,4) Y s2(3,2,4)] by blast
  have "evolved s (?Y \<union> {}) t" using evolved_trans [OF grown_evolved [OF p(3)] t(3)] by simp
  then have "evolved s {} t" by (rule evolved_freed [OF _ assms(1)]) (use t(2) Y in simp_all)
  then show thesis
    using p(1,7) s2(1) t by (intro that [of r s1 "\<lparr>pr_drive_no = sint d - 48, pr_first = first\<rparr>" s2 t]) (simp_all add: deref)
qed

lemma volume_session_ok:
  assumes "heap_ok s B" "disk_ready P img cap idle s" "ks_filesystems s = FAT16_FS # fss" "mountable img cap"
    "terminated path" "cstr path = d # 0x3A # 0x2F # body" "isdigit d" "length (cstr path) \<le> 108"
    "path_parts body = c # cs" "2 * length (c # cs) + 13 \<le> free_count (ks_heap s)"
    "loadable_path img (volume img) cap (root_items img) c cs" "lookup img (volume img) (root_items img) (c # cs) = Some it"
    "\<not> is_dir it" "file_ok img (volume img) cap it" "\<forall>x \<in> set xs. valid_op x"
  shows "\<exists>t X fp. volume_session P path xs s = Some (file_run_spec (file_data img (volume img) it) 0 xs, 0, t) \<and>
    mounted P img cap idle fp t \<and> same_layout fp (volume img) \<and> heap_ok t (with_blocks B X) \<and> card X = 5 \<and>
    evolved s X t \<and> free_count (ks_heap s) = free_count (ks_heap t) + 5"
proof -
  obtain X s1 fp where m: "disk_search_and_init P s = Some s1" "mounted P img cap idle fp s1" "same_layout fp (volume img)"
    "has_root fp (root_items img) s1" "heap_ok s1 (with_blocks B X)" "card X = 5" "\<forall>p \<in> X. B p = None" "evolved s X s1"
    "free_count (ks_heap s) = free_count (ks_heap s1) + 5"
    by (rule mount_volume [OF assms(1-4)]) (use assms(10) in simp)
  have "2 * length (c # cs) + 8 \<le> free_count (ks_heap s1)" using assms(10) m(9) by simp
  from m(5,2,4) assms(5-9) this assms(11-15) [unfolded layout [OF m(3), symmetric]]
  obtain root ro s2 s3 t where t: "pathparser_parse (Some path) None s1 = Some (root, s2)" "obj_root s2 root = Some ro"
    "file_run (open_checked P (pr_first ro)) (read_buffer P) fat16_seek fat16_close xs s2 =
       Some (file_run_spec (file_data img fp it) 0 xs, 0, s3)"
    "pathparser_free_root root s3 = Some t" "heap_ok t (with_blocks B X)" "evolved s1 {} t" "mounted P img cap idle fp t"
    by (rule mounted_session)
  have e: "evolved s X t" using evolved_trans [OF m(8) t(6)] by simp
  have "finite X" using m(6) by (intro card_ge_0_finite) simp
  then have "free_count (ks_heap s) = free_count (ks_heap t) + 5"
    using free_count_blocks [OF _ assms(1) t(5) evolved_frame [OF e] m(7)] m(6) by simp
  moreover have "volume_session P path xs s = Some (file_run_spec (file_data img (volume img) it) 0 xs, 0, t)"
    using m(1) t(1-4) by (simp add: volume_session_def layout [OF m(3)])
  ultimately show ?thesis using t(5,7) m(3,6) e by blast
qed

section \<open>The demo volume\<close>

definition demo_machine :: "sim_disk kst" where
  "demo_machine = unmounted_state\<lparr>ks_filesystems := FAT16_FS # replicate 11 FS_NULL\<rparr>"

lemma demo_machine_ok: "heap_ok demo_machine Map.empty" "free_count (ks_heap demo_machine) = 20"
    "disk_ready (sim_ports demo_img) demo_img 4000 sim_idle demo_machine" "ks_filesystems demo_machine = FAT16_FS # replicate 11 FS_NULL"
proof -
  show "heap_ok demo_machine Map.empty" unfolding demo_machine_def by (rule heap_ok_cong [OF unmounted_ok(1)]) simp_all
  show "disk_ready (sim_ports demo_img) demo_img 4000 sim_idle demo_machine"
    using unmounted_ok(3) by (simp add: demo_machine_def disk_ready_def)
qed (simp_all add: demo_machine_def unmounted_ok)

lemma demo_volume: "mountable demo_img 4000" "same_layout (volume demo_img) demo_fp" "root_items demo_img = demo_items"
proof -
  note h = demo_header [folded boot_header_def]
  show "mountable demo_img 4000" by (simp add: mountable_def h Let_def)
  show "same_layout (volume demo_img) demo_fp"
    by (simp add: same_layout_def volume_def loaded_root_def h demo_fp_def boot_header_def [symmetric])
  have "entries_used f b (numeral k) = (if f b = 0 then 0 else Suc (entries_used f (b + 32) (pred_numeral k)))" for f b k
    by (simp add: numeral_eq_Suc)
  then have "entries_used demo_img 153088 16 = 2" by (simp add: demo_bytes_def)
  then show "root_items demo_img = demo_items" by (simp add: root_items_def h Let_def demo_root_items)
qed

lemma demo_path: "cstr (hello_name @ [0]) = hello_name" "terminated (hello_name @ [0])" "path_parts hello_name = [hello_name]"
    "length hello_name = 9"
  by (simp_all add: hello_name_def terminated_def path_parts.simps)

section \<open>Properties\<close>

text \<open>
  C1. The disk, end to end. On a disk with a FAT16 volume and FAT16 registered, with room on
  the heap: mounting it, parsing the path of a file, opening that file, any sequence of
  reads and seeks on it, closing it and freeing the path succeed, and the results are those
  of the byte sequence that the directories and the allocation table on the disk give for
  the path. Afterwards the volume is mounted and the kernel owns exactly the five blocks
  of the mounting more than before.
\<close>

theorem volume_session_correct:
  assumes "heap_ok s B" "disk_ready P img cap idle s" "ks_filesystems s = FAT16_FS # fss" "mountable img cap"
    "terminated path" "cstr path = d # 0x3A # 0x2F # body" "isdigit d" "length (cstr path) \<le> 108"
    "path_parts body = c # cs" "2 * length (c # cs) + 13 \<le> free_count (ks_heap s)"
    "loadable_path img (volume img) cap (root_items img) c cs" "lookup img (volume img) (root_items img) (c # cs) = Some it"
    "\<not> is_dir it" "file_ok img (volume img) cap it" "\<forall>x \<in> set xs. valid_op x"
  shows "\<exists>t X fp. volume_session P path xs s = Some (file_run_spec (file_data img (volume img) it) 0 xs, 0, t) \<and>
    mounted P img cap idle fp t \<and> same_layout fp (volume img) \<and> heap_ok t (with_blocks B X) \<and> card X = 5 \<and>
    evolved s X t \<and> free_count (ks_heap s) = free_count (ks_heap t) + 5"
  using assms by (rule volume_session_ok)

text \<open>The file of 700 bytes is \<open>0:/hello.txt\<close>.\<close>

theorem volume_session_correct_witness:
  "\<exists>t X fp. volume_session (sim_ports demo_img) ([0x30, 0x3A, 0x2F] @ hello_name @ [0]) [Seek 600 0, Read 64 5, Seek 1 2] demo_machine =
      Some (file_run_spec (file_data demo_img (volume demo_img) (decode_item (slice demo_img 153088 32))) 0
        [Seek 600 0, Read 64 5, Seek 1 2], 0, t) \<and>
    mounted (sim_ports demo_img) demo_img 4000 sim_idle fp t \<and> same_layout fp (volume demo_img) \<and>
    heap_ok t (with_blocks Map.empty X) \<and> card X = 5 \<and> evolved demo_machine X t \<and>
    free_count (ks_heap demo_machine) = free_count (ks_heap t) + 5"
  by (rule volume_session_correct [OF demo_machine_ok(1,3,4) demo_volume(1), where d = "0x30" and body = hello_name and c = hello_name and cs = "[]"])
    (simp_all add: layout [OF demo_volume(2)] demo_volume(3) demo_machine_ok(2) demo_file demo_find demo_walk(1)
      demo_path isdigit_def)

end
