(* ===== verification/Preemption.thy ===== *)
theory Preemption
  imports Interrupts Volume_Session
begin

text \<open>
  Interrupts in the middle of file operations. \<open>kernel_main\<close> enables interrupts before it
  opens a file, so that a key or the timer can come between any two instructions of the
  file code. A handler touches the terminal and the ports of the keyboard and the
  interrupt controller only (the cells of the terminal are its own memory as long as they
  lie below the kernel image; a key that goes further has no result), and the file code
  touches the terminal not at all and the
  ports of the disk only; where exactly an interrupt falls can therefore be told by the
  port accesses before and after it. The machine here takes the interrupts that are due
  before each port access of the file code. The locale \<open>disk_view\<close> is the contract under
  which a machine is as good as the disk inside it.
\<close>

section \<open>A machine with a disk inside\<close>

definition disk_port :: "u16 \<Rightarrow> bool" where
  "disk_port p \<longleftrightarrow> 0x1F0 \<le> p \<and> p \<le> 0x1F7"

locale disk_view =
  fixes M :: "'m ports" and Q :: "'e ports" and view :: "'m \<Rightarrow> 'e" and good :: "'m \<Rightarrow> bool"
  assumes insb_view: "good m \<Longrightarrow> disk_port p \<Longrightarrow> io_insb M p m = (c, m') \<Longrightarrow>
      io_insb Q p (view m) = (c, view m') \<and> good m'"
    and insw_view: "good m \<Longrightarrow> disk_port p \<Longrightarrow> io_insw M p m = (w, m') \<Longrightarrow>
      io_insw Q p (view m) = (w, view m') \<and> good m'"
    and outb_view: "good m \<Longrightarrow> disk_port p \<Longrightarrow> view (io_outb M p v m) = io_outb Q p v (view m) \<and> good (io_outb M p v m)"
begin

lemma task_file_view:
  "task_file Q idle regs \<Longrightarrow> task_file M (\<lambda>m. good m \<and> idle (view m)) (\<lambda>m. regs (view m))"
proof -
  assume t: "task_file Q idle regs"
  have "disk_port p" if "0x1F2 \<le> p" "p \<le> 0x1F6" for p
    using order_trans [OF _ that(1), of "0x1F0"] order_trans [OF that(2), of "0x1F7"] by (simp add: disk_port_def)
  then show ?thesis using t outb_view unfolding task_file_def by metis
qed

lemma requests_data_view:
  assumes "requests_data Q e e'" "view m = e" "good m"
  shows "\<exists>m'. requests_data M m m' \<and> view m' = e' \<and> good m'"
  using assms
proof (induction arbitrary: m rule: requests_data.induct)
  case (ready e c e')
  obtain c1 m1 where m1: "io_insb M 0x1F7 m = (c1, m1)" by (cases "io_insb M 0x1F7 m")
  then have "c1 = c" "view m1 = e'" "good m1"
    using insb_view [OF ready.prems(2) _ m1] ready by (simp_all add: disk_port_def)
  then show ?case using requests_data.ready [of M m c1 m1] m1 ready.hyps(2) by blast
next
  case (busy e c e1 e')
  obtain c1 m1 where m1: "io_insb M 0x1F7 m = (c1, m1)" by (cases "io_insb M 0x1F7 m")
  then have v: "c1 = c" "view m1 = e1" "good m1"
    using insb_view [OF busy.prems(2) _ m1] busy.prems(1) busy.hyps(1) by (simp_all add: disk_port_def)
  then obtain m' where "requests_data M m1 m'" "view m' = e'" "good m'" using busy.IH by blast
  then show ?case using requests_data.busy [of M m c1 m1] m1 v(1) busy.hyps(2) by blast
qed

lemma transfers_view:
  assumes "transfers Q bs e e'" "view m = e" "good m"
  shows "\<exists>m'. transfers M bs m m' \<and> view m' = e' \<and> good m'"
  using assms
proof (induction bs arbitrary: e m rule: induct_list012)
  case (3 x y bs)
  obtain w m1 where m1: "io_insw M 0x1F0 m = (w, m1)" by (cases "io_insw M 0x1F0 m")
  then have "io_insw Q 0x1F0 e = (w, view m1)" "good m1"
    using insw_view [OF "3.prems"(3) _ m1] "3.prems"(2) by (simp_all add: disk_port_def)
  moreover from this have "\<exists>m'. transfers M bs m1 m' \<and> view m' = e' \<and> good m'"
    using "3.IH"(1) [of "view m1" m1] "3.prems"(1) by simp
  ultimately show ?case using m1 "3.prems"(1) by auto
qed auto

lemma serves_view:
  assumes "serves Q idle secs e" "view m = e" "good m"
  shows "serves M (\<lambda>m. good m \<and> idle (view m)) secs m"
  using assms
proof (induction secs arbitrary: e m)
  case (Cons sec secs)
  obtain e1 e2 where e: "requests_data Q e e1" "transfers Q sec e1 e2" "serves Q idle secs e2" using Cons.prems(1) by auto
  obtain m1 where m1: "requests_data M m m1" "view m1 = e1" "good m1" using requests_data_view [OF e(1) Cons.prems(2,3)] by blast
  obtain m2 where m2: "transfers M sec m1 m2" "view m2 = e2" "good m2" using transfers_view [OF e(2) m1(2,3)] by blast
  show ?case using m1(1) m2(1) Cons.IH [OF e(3) m2(2,3)] by auto
qed simp

text \<open>The machine follows the disk protocol as the disk inside it does.\<close>

lemma ata_disk_view: "ata_disk Q img cap idle \<Longrightarrow> ata_disk M img cap (\<lambda>m. good m \<and> idle (view m))"
proof -
  assume "ata_disk Q img cap idle"
  then obtain regs where regs: "task_file Q idle regs" and cap: "cap \<le> 2 ^ 28" and serve:
      "\<And>d lba stop. idle d \<Longrightarrow> addresses (regs d) lba stop \<Longrightarrow> stop \<le> cap \<Longrightarrow>
        serves Q idle (map (sector img) [lba..<stop]) (io_outb Q 0x1F7 0x20 d)"
    unfolding ata_disk_def by blast
  have "disk_port 0x1F7" by (simp add: disk_port_def)
  then have "serves M (\<lambda>m. good m \<and> idle (view m)) (map (sector img) [lba..<stop]) (io_outb M 0x1F7 0x20 m)"
    if "good m" "idle (view m)" "addresses (regs (view m)) lba stop" "stop \<le> cap" for m lba stop
    using serves_view [OF serve [OF that(2-4)]] outb_view [OF that(1)] by blast
  then show ?thesis unfolding ata_disk_def using task_file_view [OF regs] cap by blast
qed

end

section \<open>Interrupts at the port accesses\<close>

text \<open>
  The device side of the kernel: the disk, the rest of the machine, the terminal, and the
  vectors that are due before each of the port accesses to come.
\<close>

record ('e, 'k) machine =
  mc_disk :: 'e
  mc_rest :: 'k
  mc_term :: terminal
  mc_pending :: "nat list list"

text \<open>Port numbers decide who answers.\<close>

definition bus :: "'e ports \<Rightarrow> 'k ports \<Rightarrow> ('e \<times> 'k) ports" where
  "bus Q K = \<lparr>
     io_insb = (\<lambda>p (e, k). if disk_port p then (let (c, e') = io_insb Q p e in (c, (e', k)))
                 else (let (c, k') = io_insb K p k in (c, (e, k')))),
     io_insw = (\<lambda>p (e, k). if disk_port p then (let (w, e') = io_insw Q p e in (w, (e', k)))
                 else (let (w, k') = io_insw K p k in (w, (e, k')))),
     io_outb = (\<lambda>p v (e, k). if disk_port p then (io_outb Q p v e, k) else (e, io_outb K p v k))\<rparr>"

text \<open>
  One interrupt, taken by \<open>deliver\<close>. The handlers use the device and the terminal of the
  state they run in and nothing else (\<open>deliver_local\<close>), which is why any state with this
  device and this terminal will do.
\<close>

definition handler_state :: "'d \<Rightarrow> terminal \<Rightarrow> 'd kst" where
  "handler_state d t = (boot_state d)\<lparr>ks_term := t\<rparr>"

definition take_interrupt ::
  "idt_symbols \<Rightarrow> idt_state \<Rightarrow> 'e ports \<Rightarrow> 'k ports \<Rightarrow> nat \<Rightarrow> ('e, 'k) machine \<Rightarrow> ('e, 'k) machine option" where
  "take_interrupt sy it Q K v m = do {
     u \<leftarrow> deliver sy (bus Q K) it v (handler_state (mc_disk m, mc_rest m) (mc_term m));
     Some (m\<lparr>mc_disk := fst (ks_dev u), mc_rest := snd (ks_dev u), mc_term := ks_term u\<rparr>) }"

fun take_interrupts ::
  "idt_symbols \<Rightarrow> idt_state \<Rightarrow> 'e ports \<Rightarrow> 'k ports \<Rightarrow> nat list \<Rightarrow> ('e, 'k) machine \<Rightarrow> ('e, 'k) machine option" where
  "take_interrupts sy it Q K [] m = Some m"
| "take_interrupts sy it Q K (v # vs) m = do {
     m1 \<leftarrow> take_interrupt sy it Q K v m;
     take_interrupts sy it Q K vs m1 }"

definition due ::
  "idt_symbols \<Rightarrow> idt_state \<Rightarrow> 'e ports \<Rightarrow> 'k ports \<Rightarrow> ('e, 'k) machine \<Rightarrow> ('e, 'k) machine option" where
  "due sy it Q K m = (case mc_pending m of [] \<Rightarrow> Some m
     | vs # rest \<Rightarrow> take_interrupts sy it Q K vs (m\<lparr>mc_pending := rest\<rparr>))"

definition with_ports :: "'e \<times> 'k \<Rightarrow> ('e, 'k) machine \<Rightarrow> ('e, 'k) machine" where
  "with_ports d m = m\<lparr>mc_disk := fst d, mc_rest := snd d\<rparr>"

text \<open>
  The ports as the interrupted code sees them. When a handler does not return, the access
  is never made: the machine stays where it is, and the status it shows keeps the driver
  in its poll for ever.
\<close>

definition preempted :: "idt_symbols \<Rightarrow> idt_state \<Rightarrow> 'e ports \<Rightarrow> 'k ports \<Rightarrow> ('e, 'k) machine ports" where
  "preempted sy it Q K = \<lparr>
     io_insb = (\<lambda>p m. case due sy it Q K m of None \<Rightarrow> (0, m)
       | Some m1 \<Rightarrow> let (c, d) = io_insb (bus Q K) p (mc_disk m1, mc_rest m1) in (c, with_ports d m1)),
     io_insw = (\<lambda>p m. case due sy it Q K m of None \<Rightarrow> (0, m)
       | Some m1 \<Rightarrow> let (w, d) = io_insw (bus Q K) p (mc_disk m1, mc_rest m1) in (w, with_ports d m1)),
     io_outb = (\<lambda>p v m. case due sy it Q K m of None \<Rightarrow> m
       | Some m1 \<Rightarrow> with_ports (io_outb (bus Q K) p v (mc_disk m1, mc_rest m1)) m1)\<rparr>"

section \<open>Handlers leave the disk alone\<close>

lemma handler_state_simps [simp]: "ks_dev (handler_state d t) = d" "ks_term (handler_state d t) = t"
  by (simp_all add: handler_state_def boot_state_def)

text \<open>What the gate of a vector leads to does not depend on the state.\<close>

lemma deliver_handlers:
  "(\<forall>s :: 'd kst. deliver sy P it v s = None) \<or> (\<forall>s :: 'd kst. deliver sy P it v s = int21h_handler P s) \<or>
   (\<forall>s :: 'd kst. deliver sy P it v s = no_interrupt_handler P s)"
proof (cases "it_loaded it")
  case None
  then show ?thesis by (simp add: deliver_def)
next
  case (Some r)
  show ?thesis
  proof (cases "if 8 * v + 7 \<le> unat (ir_limit r) \<and> ir_base r = sy_descriptors sy then at_idx (it_descriptors it) v else None")
    case None
    then show ?thesis using Some by (simp add: deliver_def)
  next
    case (Some d)
    have "deliver sy P it v s = (if \<not> gate_ok d then None
        else if gate_offset d = sy_int21h sy then (if error_code v then None else int21h_handler P s)
        else if gate_offset d = sy_idt_zero sy then None
        else if gate_offset d = sy_no_interrupt sy then (if error_code v then None else no_interrupt_handler P s)
        else None)" for s :: "'d kst"
      unfolding deliver_def \<open>it_loaded it = Some r\<close> Option.bind.simps Some idt_zero_stops resumed_stubs ..
    then show ?thesis
      by (cases "gate_ok d"; cases "gate_offset d = sy_int21h sy"; cases "gate_offset d = sy_idt_zero sy";
          cases "error_code v"; cases "gate_offset d = sy_no_interrupt sy") simp_all
  qed
qed

lemma bus_simps [simp]:
  "snd (io_insb (bus Q K) 0x60 d) = (fst d, snd (io_insb K 0x60 (snd d)))"
  "fst (io_insb (bus Q K) 0x60 d) = fst (io_insb K 0x60 (snd d))"
  "io_outb (bus Q K) 0x20 v d = (fst d, io_outb K 0x20 v (snd d))"
  by (cases d; cases "io_insb K 0x60 (snd d)"; simp add: bus_def disk_port_def)+

lemma handler_disk:
  assumes "deliver sy (bus Q K) it v s = Some u"
  shows "fst (ks_dev u) = fst (ks_dev s)"
proof -
  have "fst (ks_dev u) = fst (ks_dev s)" if "int21h_handler (bus Q K) s = Some u"
    using that by (auto simp: int21h_handler_def kprint_def Let_def option_bind_Some_iff split: if_splits)
  then show ?thesis
    using assms deliver_handlers [of sy "bus Q K" it v] by (auto simp: no_interrupt_handler_def)
qed

lemma deliver_local:
  "deliver sy P it v s = map_option (\<lambda>u. s\<lparr>ks_dev := ks_dev u, ks_term := ks_term u\<rparr>)
     (deliver sy P it v (handler_state (ks_dev s) (ks_term s)))"
proof -
  have "int21h_handler P s = map_option (\<lambda>u. s\<lparr>ks_dev := ks_dev u, ks_term := ks_term u\<rparr>)
      (int21h_handler P (handler_state (ks_dev s) (ks_term s)))"
    by (cases "print (literal ''Keyboard Pressed\<newline>'') (ks_term s)")
      (simp_all add: int21h_handler_def kprint_def Let_def)
  then have "?thesis" if "\<forall>s :: 'a kst. deliver sy P it v s = int21h_handler P s"
    unfolding that [rule_format] .
  moreover have "no_interrupt_handler P s = map_option (\<lambda>u. s\<lparr>ks_dev := ks_dev u, ks_term := ks_term u\<rparr>)
      (no_interrupt_handler P (handler_state (ks_dev s) (ks_term s)))"
    by (simp add: no_interrupt_handler_def)
  then have "?thesis" if "\<forall>s :: 'a kst. deliver sy P it v s = no_interrupt_handler P s"
    unfolding that [rule_format] .
  moreover have "?thesis" if "\<forall>s :: 'a kst. deliver sy P it v s = None"
    unfolding that [rule_format] by simp
  ultimately show ?thesis using deliver_handlers [of sy P it v] by blast
qed

section \<open>The disk under interrupts\<close>

text \<open>
  \<open>quiet sy it vs m\<close>: the table of \<open>idt_init\<close> is loaded and the terminal is set up; no vector
  to be taken now (\<open>vs\<close>) or pending is one that never returns, and the terminal has room
  above the kernel image for a line from each key among them.
\<close>

definition quiet :: "idt_symbols \<Rightarrow> idt_state \<Rightarrow> nat list \<Rightarrow> ('e, 'k) machine \<Rightarrow> bool" where
  "quiet sy it vs m \<longleftrightarrow> (\<exists>it0. idt_init sy it0 = Some it) \<and> distinct [sy_int21h sy, sy_idt_zero sy, sy_no_interrupt sy] \<and>
     tm_video_mem (mc_term m) \<noteq> 0 \<and> unat (tm_col (mc_term m)) < 40 \<and>
     (\<forall>v \<in> set (vs @ concat (mc_pending m)). 0 < v \<and> v < 256 \<and> \<not> error_code v) \<and>
     unat (tm_row (mc_term m)) + count_list (vs @ concat (mc_pending m)) 0x21 \<le> 1843"

lemma quiet_with_ports [simp]: "quiet sy it vs (with_ports d m) = quiet sy it vs m" "mc_disk (with_ports d m) = fst d"
  by (simp_all add: quiet_def with_ports_def)

lemma screen_of_machine:
  "screen_ok (handler_state d t) \<longleftrightarrow> tm_video_mem t \<noteq> 0 \<and> unat (tm_col t) < 40"
  "screen_row (handler_state d t) = unat (tm_row t)"
  by (simp_all add: screen_ok_def screen_row_def)

lemma take_interrupt_ok:
  assumes "quiet sy it (v # vs) m"
  shows "\<exists>m'. take_interrupt sy it Q K v m = Some m' \<and> quiet sy it vs m' \<and> mc_disk m' = mc_disk m"
proof -
  let ?s = "handler_state (mc_disk m, mc_rest m) (mc_term m)"
  obtain it0 where it0: "idt_init sy it0 = Some it" using assms by (auto simp: quiet_def)
  have d: "distinct [sy_int21h sy, sy_idt_zero sy, sy_no_interrupt sy]" and v: "v < 256" and ok: "screen_ok ?s"
    and ns: "\<not> stuck_vector (bus Q K) v ?s"
    using assms by (auto simp: quiet_def screen_of_machine stuck_vector_def)
  show ?thesis
  proof (rule deliver_ok [OF it0 d ok v, of "bus Q K"])
    fix u e assume u: "deliver sy (bus Q K) it v ?s = Some u" "screen_ok u"
      "screen_row u \<le> (if v = 0x21 then screen_row ?s + 1 else screen_row ?s)"
    then show ?thesis
      using assms handler_disk [OF u(1)]
      by (auto simp: take_interrupt_def quiet_def screen_ok_def screen_row_def split: if_splits)
  qed (use ns in simp)
qed

lemma take_interrupts_ok:
  "quiet sy it vs m \<Longrightarrow> \<exists>m'. take_interrupts sy it Q K vs m = Some m' \<and> quiet sy it [] m' \<and> mc_disk m' = mc_disk m"
proof (induction vs arbitrary: m)
  case (Cons v vs)
  obtain m1 where "take_interrupt sy it Q K v m = Some m1" "quiet sy it vs m1" "mc_disk m1 = mc_disk m"
    using take_interrupt_ok [OF Cons.prems, of Q K] by auto
  then show ?case using Cons.IH [of m1] by auto
qed simp

lemma due_ok:
  assumes "quiet sy it [] m"
  obtains m' where "due sy it Q K m = Some m'" "quiet sy it [] m'" "mc_disk m' = mc_disk m"
proof (cases "mc_pending m")
  case Nil
  then show thesis using assms that by (simp add: due_def)
next
  case (Cons vs rest)
  have "quiet sy it vs (m\<lparr>mc_pending := rest\<rparr>)"
    using assms Cons by (simp add: quiet_def)
  then obtain m' where "take_interrupts sy it Q K vs (m\<lparr>mc_pending := rest\<rparr>) = Some m'" "quiet sy it [] m'" "mc_disk m' = mc_disk m"
    using take_interrupts_ok [of sy it vs "m\<lparr>mc_pending := rest\<rparr>" Q K] by auto
  then show thesis using Cons that [of m'] by (simp add: due_def)
qed

lemma bus_disk:
  assumes "disk_port p"
  shows "io_insb (bus Q K) p d = (fst (io_insb Q p (fst d)), (snd (io_insb Q p (fst d)), snd d))"
    "io_insw (bus Q K) p d = (fst (io_insw Q p (fst d)), (snd (io_insw Q p (fst d)), snd d))"
    "io_outb (bus Q K) p v d = (io_outb Q p v (fst d), snd d)"
  using assms by (cases d; cases "io_insb Q p (fst d)"; cases "io_insw Q p (fst d)"; simp add: bus_def)+

interpretation irq: disk_view "preempted sy it Q K" Q mc_disk "quiet sy it []"
  for sy it and Q :: "'e ports" and K :: "'k ports"
proof
  fix m :: "('e, 'k) machine" and p assume m: "quiet sy it [] m" "disk_port p"
  obtain m1 where m1: "due sy it Q K m = Some m1" "quiet sy it [] m1" "mc_disk m1 = mc_disk m" by (rule due_ok [OF m(1)])
  note [simp] = bus_disk [OF m(2)] preempted_def
  show "io_insb Q p (mc_disk m) = (c, mc_disk m') \<and> quiet sy it [] m'" if "io_insb (preempted sy it Q K) p m = (c, m')" for c m'
    using that m1 by auto
  show "io_insw Q p (mc_disk m) = (w, mc_disk m') \<and> quiet sy it [] m'" if "io_insw (preempted sy it Q K) p m = (w, m')" for w m'
    using that m1 by auto
  show "mc_disk (io_outb (preempted sy it Q K) p v m) = io_outb Q p v (mc_disk m) \<and> quiet sy it [] (io_outb (preempted sy it Q K) p v m)" for v
    using m1 by auto
qed

text \<open>
  A division error, an exception with an error code or a key with the cursor below row
  1842 stops the driver: the poll never returns.
\<close>

lemma stuck_vector_stops:
  assumes "idt_init sy it0 = Some it" "distinct [sy_int21h sy, sy_idt_zero sy, sy_no_interrupt sy]"
    "screen_ok (handler_state (mc_disk m, mc_rest m) (mc_term m))" "v < 256"
    "stuck_vector (bus Q K) v (handler_state (mc_disk m, mc_rest m) (mc_term m))" "mc_pending m = (v # vs) # rest"
  shows "poll_ready (preempted sy it Q K) m = None"
proof (rule poll_ready_hangs [where I = "\<lambda>m'. m' = m"])
  have "deliver sy (bus Q K) it v (handler_state (mc_disk m, mc_rest m) (mc_term m)) = None"
    by (rule deliver_ok [OF assms(1-4), of "bus Q K"]) (use assms(5) in simp_all)
  then have "due sy it Q K m = None" by (simp add: due_def assms(6) take_interrupt_def)
  then show "fst (io_insb (preempted sy it Q K) 0x1F7 m') AND 0x08 = 0 \<and> snd (io_insb (preempted sy it Q K) 0x1F7 m') = m"
    if "m' = m" for m'
    by (simp add: preempted_def that)
qed simp

section \<open>Properties\<close>

text \<open>
  C4. Interrupts do not disturb the file code. On a machine that takes interrupts through the
  table of \<open>idt_init\<close>, any number of them before any of the port accesses of the driver,
  mounting a volume, parsing a path, opening its file, any reads and seeks, closing and
  freeing give the same results and the same bytes as without interrupts, and free the same
  memory. The interrupts are neither division errors nor exceptions with an error code,
  whose stubs do not come back, and there are at most as many keys as there are rows from
  the cursor to the kernel image, which the terminal would go on to overwrite.
\<close>

theorem session_under_interrupts:
  assumes "idt_init sy it0 = Some idt" "distinct [sy_int21h sy, sy_idt_zero sy, sy_no_interrupt sy]"
    "tm_video_mem (mc_term (ks_dev s)) \<noteq> 0" "unat (tm_col (mc_term (ks_dev s))) < 40"
    "\<forall>v \<in> set (concat (mc_pending (ks_dev s))). 0 < v \<and> v < 256 \<and> \<not> error_code v"
    "unat (tm_row (mc_term (ks_dev s))) + count_list (concat (mc_pending (ks_dev s))) 0x21 \<le> 1843"
    "ata_disk Q img cap idle" "idle (mc_disk (ks_dev s))"
    "heap_ok s B" "ks_filesystems s = FAT16_FS # fss" "mountable img cap"
    "terminated path" "cstr path = d # 0x3A # 0x2F # body" "isdigit d" "length (cstr path) \<le> 108"
    "path_parts body = c # cs" "2 * length (c # cs) + 13 \<le> free_count (ks_heap s)"
    "loadable_path img (volume img) cap (root_items img) c cs" "lookup img (volume img) (root_items img) (c # cs) = Some it"
    "\<not> is_dir it" "file_ok img (volume img) cap it" "\<forall>x \<in> set xs. valid_op x"
  shows "\<exists>t X. volume_session (preempted sy idt Q K) path xs s = Some (file_run_spec (file_data img (volume img) it) 0 xs, 0, t) \<and>
    heap_ok t (with_blocks B X) \<and> card X = 5 \<and> free_count (ks_heap s) = free_count (ks_heap t) + 5"
proof -
  have "quiet sy idt [] (ks_dev s)" using assms(1-6) by (auto simp: quiet_def)
  then have "disk_ready (preempted sy idt Q K) img cap (\<lambda>m. quiet sy idt [] m \<and> idle (mc_disk m)) s"
    using irq.ata_disk_view [OF assms(7)] assms(8) by (simp add: disk_ready_def)
  from volume_session_ok [OF assms(9) this assms(10-22)] show ?thesis by blast
qed

lemma count_concat_replicate: "count_list (concat (replicate n vs)) v = n * count_list vs v"
  by (induction n) simp_all

text \<open>The cursor in row 1811, and the 32 keys there is room for.\<close>

definition busy_machine :: "(sim_disk, nat) machine kst" where
  "busy_machine = (boot_state \<lparr>mc_disk = \<lparr>sim_regs = (\<lambda>_. 0), sim_busy = 0, sim_queue = []\<rparr>, mc_rest = 0,
       mc_term = (terminal_initialize (ks_term screen_state))\<lparr>tm_row := 1811\<rparr>, mc_pending = replicate 30 [0x20, 0x21] @ [[], [0x21, 0x21, 0xFF]]\<rparr>)
     \<lparr>ks_heap := fresh_heap 0x01000000 20, ks_filesystems := FAT16_FS # replicate 11 FS_NULL\<rparr>"

theorem session_under_interrupts_witness:
  "\<exists>t X. volume_session (preempted demo_symbols demo_idt (sim_ports demo_img) pressed_ports)
        ([0x30, 0x3A, 0x2F] @ hello_name @ [0]) [Seek 600 0, Read 64 5, Seek 1 2] busy_machine =
      Some (file_run_spec (file_data demo_img (volume demo_img) (decode_item (slice demo_img 153088 32))) 0
        [Seek 600 0, Read 64 5, Seek 1 2], 0, t) \<and>
    heap_ok t (with_blocks Map.empty X) \<and> card X = 5 \<and> free_count (ks_heap busy_machine) = free_count (ks_heap t) + 5"
proof (rule session_under_interrupts [where cap = 4000 and d = "0x30" and body = hello_name and c = hello_name and cs = "[]"])
  show "idt_init demo_symbols demo_idt = Some demo_idt" by (rule demo_idt_loaded)
  show "ata_disk (sim_ports demo_img) demo_img 4000 sim_idle" by (rule sim_ata_disk) simp
  show "heap_ok busy_machine Map.empty" "2 * length [hello_name] + 13 \<le> free_count (ks_heap busy_machine)"
    by (simp add: busy_machine_def heap_ok_def boot_state_def fresh_heap_owns validate_alignment_def)
      (simp add: busy_machine_def boot_state_def free_count_def fresh_heap_def)
qed (simp_all add: demo_symbols_def busy_machine_def boot_state_def terminal_initialize_def sim_idle_def demo_volume
    layout [OF demo_volume(2)] demo_file demo_find demo_walk(1) demo_path isdigit_def
    error_code_def count_concat_replicate)

end
