(* ===== verification/File_Table.thy ===== *)
theory File_Table
  imports File_Contract
begin

text \<open>
  Several files open at a time. Every file is used as if it were alone: the locale
  \<open>file_table\<close> states this of opening, one operation and closing, with the map from handles
  to contents and positions as the abstract state; its lemma carries it over to programs
  that open, use and close files in any order. A program names a file by the number of
  opens before its own, since handles are used again after a close.
\<close>

section \<open>Programs\<close>

datatype 'p command = Open 'p | Use nat file_op | Close nat

type_synonym open_files = "(u8 list \<times> nat) option list"

definition open_count :: "open_files \<Rightarrow> nat" where
  "open_count A = length (filter (\<lambda>x. x \<noteq> None) A)"

text \<open>
  The abstract machine. \<open>dir\<close> says what a path denotes, an error code or the contents of a
  file; \<open>room\<close> is the number of files that can be open. A program is outside the contract
  (None) when it uses a file that is not open or opens too many.
\<close>

fun command_spec :: "('p \<Rightarrow> (int + u8 list) option) \<Rightarrow> nat \<Rightarrow> 'p command \<Rightarrow> open_files \<Rightarrow> (op_result \<times> open_files) option" where
  "command_spec dir room (Open p) A =
     (if open_count A < room then
        (case dir p of None \<Rightarrow> None
         | Some (Inl e) \<Rightarrow> Some ((e, []), A)
         | Some (Inr bs) \<Rightarrow> Some ((0, []), A @ [Some (bs, 0)]))
      else None)"
| "command_spec dir room (Use i x) A =
     (if i < length A \<and> valid_op x then
        (case A ! i of None \<Rightarrow> None
         | Some (bs, pos) \<Rightarrow> let (r, pos') = file_op_spec bs pos x in Some (r, A[i := Some (bs, pos')]))
      else None)"
| "command_spec dir room (Close i) A =
     (if i < length A \<and> A ! i \<noteq> None then Some ((0, []), A[i := None]) else None)"

fun program_spec ::
  "('p \<Rightarrow> (int + u8 list) option) \<Rightarrow> nat \<Rightarrow> 'p command list \<Rightarrow> open_files \<Rightarrow> (op_result list \<times> open_files) option" where
  "program_spec dir room [] A = Some ([], A)"
| "program_spec dir room (c # cs) A = do {
     (r, A1) \<leftarrow> command_spec dir room c A;
     (rs, A2) \<leftarrow> program_spec dir room cs A1;
     Some (r # rs, A2) }"

text \<open>The same program on an implementation; \<open>hs\<close> are the handles in the order of opening.\<close>

fun do_command ::
  "('p \<Rightarrow> 's \<Rightarrow> ((int + 'h) \<times> 's) option) \<Rightarrow> ('h \<Rightarrow> u32 \<Rightarrow> u32 \<Rightarrow> 's \<Rightarrow> (int \<times> u8 list \<times> 's) option) \<Rightarrow>
   ('h \<Rightarrow> u32 \<Rightarrow> u32 \<Rightarrow> 's \<Rightarrow> (int \<times> 's) option) \<Rightarrow> ('h \<Rightarrow> 's \<Rightarrow> (int \<times> 's) option) \<Rightarrow>
   'p command \<Rightarrow> 'h list \<Rightarrow> 's \<Rightarrow> (op_result \<times> 'h list \<times> 's) option" where
  "do_command op rd sk cl (Open p) hs s = do {
     (r, t) \<leftarrow> op p s;
     Some (case r of Inl e \<Rightarrow> ((e, []), hs, t) | Inr h \<Rightarrow> ((0, []), hs @ [h], t)) }"
| "do_command op rd sk cl (Use i x) hs s = do {
     h \<leftarrow> at_idx hs i;
     (r, t) \<leftarrow> do_op rd sk h x s;
     Some (r, hs, t) }"
| "do_command op rd sk cl (Close i) hs s = do {
     h \<leftarrow> at_idx hs i;
     (r, t) \<leftarrow> cl h s;
     Some ((r, []), hs, t) }"

fun run_program ::
  "('p \<Rightarrow> 's \<Rightarrow> ((int + 'h) \<times> 's) option) \<Rightarrow> ('h \<Rightarrow> u32 \<Rightarrow> u32 \<Rightarrow> 's \<Rightarrow> (int \<times> u8 list \<times> 's) option) \<Rightarrow>
   ('h \<Rightarrow> u32 \<Rightarrow> u32 \<Rightarrow> 's \<Rightarrow> (int \<times> 's) option) \<Rightarrow> ('h \<Rightarrow> 's \<Rightarrow> (int \<times> 's) option) \<Rightarrow>
   'p command list \<Rightarrow> 'h list \<Rightarrow> 's \<Rightarrow> (op_result list \<times> 'h list \<times> 's) option" where
  "run_program op rd sk cl [] hs s = Some ([], hs, s)"
| "run_program op rd sk cl (c # cs) hs s = do {
     (r, hs1, s1) \<leftarrow> do_command op rd sk cl c hs s;
     (rs, hs2, s2) \<leftarrow> run_program op rd sk cl cs hs1 s1;
     Some (r # rs, hs2, s2) }"

section \<open>Numbers and handles\<close>

definition open_at :: "open_files \<Rightarrow> nat set" where
  "open_at A = {i. i < length A \<and> A ! i \<noteq> None}"

text \<open>Open files have different handles, and no other handle is open.\<close>

definition numbered :: "'h list \<Rightarrow> open_files \<Rightarrow> ('h \<rightharpoonup> u8 list \<times> nat) \<Rightarrow> bool" where
  "numbered hs A F \<longleftrightarrow> length hs = length A \<and> (\<forall>i \<in> open_at A. F (hs ! i) = A ! i) \<and>
     inj_on ((!) hs) (open_at A) \<and> dom F = (!) hs ` open_at A"

lemma open_count_card: "open_count A = card (open_at A)"
  by (simp add: open_count_def open_at_def length_filter_conv_card)

lemma numbered_card: "numbered hs A F \<Longrightarrow> card (dom F) = open_count A"
  by (simp add: numbered_def open_count_card card_image)

lemma numbered_Nil: "numbered [] [] Map.empty"
  by (simp add: numbered_def open_at_def)

lemma open_at_snoc: "open_at (A @ [Some v]) = insert (length A) (open_at A)"
  by (auto simp: open_at_def nth_append less_Suc_eq)

lemma open_at_some: "i < length A \<Longrightarrow> A ! i \<noteq> None \<Longrightarrow> open_at (A[i := Some v]) = open_at A"
  by (auto simp: open_at_def nth_list_update)

lemma open_at_none: "open_at (A[i := None]) = open_at A - {i}"
  by (cases "i < length A") (auto simp: open_at_def nth_list_update split: if_splits)

lemma numbered_open:
  assumes "numbered hs A F" "F h = None"
  shows "numbered (hs @ [h]) (A @ [Some v]) (F(h \<mapsto> v))"
proof -
  note n = assms(1) [unfolded numbered_def]
  have old: "(hs @ [h]) ! i = hs ! i" "(A @ [Some v]) ! i = A ! i" "hs ! i \<noteq> h" if "i \<in> open_at A" for i
    using that n assms(2) by (auto simp: open_at_def nth_append)
  have "(!) (hs @ [h]) ` open_at A = (!) hs ` open_at A" using old(1) by (auto simp: image_iff)
  moreover have "inj_on ((!) (hs @ [h])) (open_at A)" using n old(1) by (auto simp: inj_on_def)
  moreover have "h \<notin> (!) hs ` open_at A" using old(3) by auto
  moreover have "length hs = length A" "length A \<notin> open_at A" using n by (auto simp: open_at_def)
  ultimately show ?thesis
    using n old unfolding numbered_def open_at_snoc by (auto simp: nth_append)
qed

lemma numbered_used:
  assumes "numbered hs A F" "i < length A" "A ! i \<noteq> None"
  shows "numbered hs (A[i := Some v]) (F(hs ! i \<mapsto> v))"
proof -
  note n = assms(1) [unfolded numbered_def]
  have i: "i \<in> open_at A" using assms(2,3) by (simp add: open_at_def)
  have "(F(hs ! i \<mapsto> v)) (hs ! j) = A[i := Some v] ! j" if "j \<in> open_at A" for j
    using n i that inj_onD [of "(!) hs" "open_at A" i j] assms(2) by (auto simp: nth_list_update)
  then show ?thesis using n i assms(2,3) by (auto simp: numbered_def open_at_some insert_absorb)
qed

lemma numbered_closed:
  assumes "numbered hs A F" "i < length A" "A ! i \<noteq> None"
  shows "numbered hs (A[i := None]) (F(hs ! i := None))"
proof -
  note n = assms(1) [unfolded numbered_def]
  have i: "i \<in> open_at A" using assms(2,3) by (simp add: open_at_def)
  have inj: "inj_on ((!) hs) (open_at A)" using n by simp
  have "hs ! j \<noteq> hs ! i" if "j \<in> open_at A - {i}" for j using inj_onD [OF inj, of j i] i that by auto
  then have "(F(hs ! i := None)) (hs ! j) = A[i := None] ! j" if "j \<in> open_at A - {i}" for j
    using n that by (auto simp: nth_list_update)
  moreover have "dom (F(hs ! i := None)) = (!) hs ` (open_at A - {i})"
    using n inj_on_image_set_diff [OF inj, of "open_at A" "{i}"] i by auto
  ultimately show ?thesis
    using n inj_on_subset [OF inj, of "open_at A - {i}"] by (auto simp: numbered_def open_at_none)
qed

section \<open>The contract\<close>

locale file_table =
  fixes table :: "'s \<Rightarrow> ('h \<rightharpoonup> u8 list \<times> nat) \<Rightarrow> bool"
    and rd :: "'h \<Rightarrow> u32 \<Rightarrow> u32 \<Rightarrow> 's \<Rightarrow> (int \<times> u8 list \<times> 's) option"
    and sk :: "'h \<Rightarrow> u32 \<Rightarrow> u32 \<Rightarrow> 's \<Rightarrow> (int \<times> 's) option"
    and op :: "'p \<Rightarrow> 's \<Rightarrow> ((int + 'h) \<times> 's) option" and cl :: "'h \<Rightarrow> 's \<Rightarrow> (int \<times> 's) option"
    and dir :: "'p \<Rightarrow> (int + u8 list) option" and room :: nat
  assumes each: "file_provider (\<lambda>h s bs pos. table s (G(h \<mapsto> (bs, pos)))) rd sk"
    and op_law: "table s F \<Longrightarrow> card (dom F) < room \<Longrightarrow> dir p = Some (Inr bs) \<Longrightarrow>
      \<exists>h t. op p s = Some (Inr h, t) \<and> F h = None \<and> table t (F(h \<mapsto> (bs, 0)))"
    and op_refused: "table s F \<Longrightarrow> card (dom F) < room \<Longrightarrow> dir p = Some (Inl e) \<Longrightarrow> \<exists>t. op p s = Some (Inl e, t) \<and> table t F"
    and cl_law: "table s F \<Longrightarrow> F h = Some v \<Longrightarrow> \<exists>t. cl h s = Some (0, t) \<and> table t (F(h := None))"
begin

text \<open>Every open file is a file of the contract for one file, whatever else is open.\<close>

sublocale one: file_provider "\<lambda>h s bs pos. table s (G(h \<mapsto> (bs, pos)))" rd sk for G
  by (rule each)

lemma command_refines:
  assumes "table s F" "numbered hs A F" "command_spec dir room c A = Some (r, A')"
  shows "\<exists>hs' F' t. do_command op rd sk cl c hs s = Some (r, hs', t) \<and> table t F' \<and> numbered hs' A' F'"
proof (cases c)
  case (Open p)
  then have room: "card (dom F) < room" using assms(3) numbered_card [OF assms(2)] by (simp split: if_splits)
  consider e where "dir p = Some (Inl e)" "r = (e, [])" "A' = A" | bs where "dir p = Some (Inr bs)" "r = (0, [])" "A' = A @ [Some (bs, 0)]"
    using assms(3) Open by (auto split: if_splits option.splits sum.splits)
  then show ?thesis
  proof cases
    case 1
    then show ?thesis using op_refused [OF assms(1) room 1(1)] assms(2) Open by fastforce
  next
    case 2
    then obtain h t where t: "op p s = Some (Inr h, t)" "F h = None" "table t (F(h \<mapsto> (bs, 0)))"
      using op_law [OF assms(1) room] by blast
    then show ?thesis using numbered_open [OF assms(2) t(2), of "(bs, 0)"] 2 Open by fastforce
  qed
next
  case (Use i x)
  then obtain bs pos where i: "i < length A" "valid_op x" "A ! i = Some (bs, pos)" "r = fst (file_op_spec bs pos x)"
    "A' = A[i := Some (bs, snd (file_op_spec bs pos x))]"
    using assms(3) by (auto simp: split_def Let_def split: if_splits option.splits)
  have h: "at_idx hs i = Some (hs ! i)" "F (hs ! i) = Some (bs, pos)"
    using assms(2) i(1,3) by (auto simp: numbered_def open_at_def at_idx_def)
  then have "table s (F(hs ! i \<mapsto> (bs, pos)))" using assms(1) by (simp add: fun_upd_idem)
  from one.step_refines [OF this i(2)]
  obtain t where "do_op rd sk (hs ! i) x s = Some (r, t)" "table t (F(hs ! i \<mapsto> (bs, snd (file_op_spec bs pos x))))"
    unfolding i(4) by blast
  then show ?thesis using numbered_used [OF assms(2) i(1), of "(bs, snd (file_op_spec bs pos x))"] i(3,5) h(1) Use by auto
next
  case (Close i)
  then have i: "i < length A" "A ! i \<noteq> None" "r = (0, [])" "A' = A[i := None]" using assms(3) by (auto split: if_splits)
  then obtain v where h: "at_idx hs i = Some (hs ! i)" "F (hs ! i) = Some v"
    using assms(2) by (auto simp: numbered_def open_at_def at_idx_def)
  obtain t where "cl (hs ! i) s = Some (0, t)" "table t (F(hs ! i := None))" using cl_law [OF assms(1) h(2)] by blast
  then show ?thesis using numbered_closed [OF assms(2) i(1,2)] i(3,4) h(1) Close by auto
qed

lemma program_refines:
  assumes "table s F" "numbered hs A F" "program_spec dir room cs A = Some (rs, A')"
  shows "\<exists>hs' F' t. run_program op rd sk cl cs hs s = Some (rs, hs', t) \<and> table t F' \<and> numbered hs' A' F'"
  using assms
proof (induction cs arbitrary: s F hs A rs)
  case Nil
  then show ?case by auto
next
  case (Cons c cs)
  obtain r A1 rs1 where a: "command_spec dir room c A = Some (r, A1)" "program_spec dir room cs A1 = Some (rs1, A')" "rs = r # rs1"
    using Cons.prems(3) by (auto simp: option_bind_Some_iff)
  obtain hs1 F1 s1 where 1: "do_command op rd sk cl c hs s = Some (r, hs1, s1)" "table s1 F1" "numbered hs1 A1 F1"
    using command_refines [OF Cons.prems(1,2) a(1)] by blast
  obtain hs2 F2 s2 where 2: "run_program op rd sk cl cs hs1 s1 = Some (rs1, hs2, s2)" "table s2 F2" "numbered hs2 A' F2"
    using Cons.IH [OF 1(2,3) a(2)] by blast
  have "run_program op rd sk cl (c # cs) hs s = Some (rs, hs2, s2)" using 1(1) 2(1) a(3) by simp
  then show ?case using 2(2,3) by blast
qed

end

end
