(* ===== verification/Open_Files.thy ===== *)
theory Open_Files
  imports File_Layer File_Table
begin

text \<open>
  Several FAT16 files open at a time. They share the volume's streams and the heap: every
  read moves the streams, and opening and closing allocate and free beside the blocks of
  the other files. The interpretation \<open>files\<close> of \<open>file_table\<close> shows that each file still is
  a byte sequence of its own.
\<close>

section \<open>Opening by a parsed path\<close>

text \<open>The macro \<open>ERROR_I\<close> of \<open>kernel.h\<close>, by which a caller reads the code of an error pointer.\<close>

definition ERROR_I :: "u32 \<Rightarrow> int" where
  "ERROR_I v = to_int v"

definition open_path :: "'d ports \<Rightarrow> u32 \<Rightarrow> 'd kst \<Rightarrow> ((int + u32) \<times> 'd kst) option" where
  "open_path P path s = do {
     (d, t) \<leftarrow> fat16_open P DISK path FILE_MODE_READ s;
     Some (if ISERR d then Inl (ERROR_I d) else Inr d, t) }"

text \<open>
  The volume before anything is open: \<open>names\<close> are the parsed paths in memory. A path whose
  walk goes on from a null pointer is not among them (\<open>missing_directory_dereferenced\<close>).
\<close>

definition volume_in ::
  "'d ports \<Rightarrow> (nat \<Rightarrow> u8) \<Rightarrow> nat \<Rightarrow> ('d \<Rightarrow> bool) \<Rightarrow> fat_private \<Rightarrow> (u32 \<Rightarrow> nat option) \<Rightarrow> fat_directory_item list \<Rightarrow>
   (u32 \<rightharpoonup> u8 list \<times> u8 list list) \<Rightarrow> 'd kst \<Rightarrow> bool" where
  "volume_in P img cap idle fp B items names s \<longleftrightarrow> heap_ok s B \<and> mounted P img cap idle fp s \<and> has_root fp items s \<and>
     (\<forall>p c cs. names p = Some (c, cs) \<longrightarrow> (\<exists>ps. parts_at (ks_objs s) p ps (c # cs)) \<and> loadable_path img fp cap items c cs \<and>
        walk_root img fp items c cs \<noteq> Null_Item \<and>
        (\<forall>it. lookup img fp items (c # cs) = Some it \<and> \<not> is_dir it \<longrightarrow> file_ok img fp cap it))"

definition fat_dir ::
  "(nat \<Rightarrow> u8) \<Rightarrow> fat_private \<Rightarrow> fat_directory_item list \<Rightarrow> (u32 \<rightharpoonup> u8 list \<times> u8 list list) \<Rightarrow> u32 \<Rightarrow> (int + u8 list) option" where
  "fat_dir img fp items names p = (case names p of None \<Rightarrow> None
     | Some (c, cs) \<Rightarrow> Some (case lookup img fp items (c # cs) of None \<Rightarrow> Inl (- EIO)
         | Some it \<Rightarrow> if is_dir it then Inl (- EINVARG) else Inr (file_data img fp it)))"

section \<open>The table of open files\<close>

definition open_file ::
  "(nat \<Rightarrow> u8) \<Rightarrow> fat_private \<Rightarrow> nat \<Rightarrow> 'd kst \<Rightarrow> u32 \<Rightarrow> u8 list \<times> nat \<Rightarrow> u32 set \<Rightarrow> bool" where
  "open_file img fp cap s h v X \<longleftrightarrow> (\<exists>it. file_ok img fp cap it \<and> fst v = file_data img fp it \<and> snd v \<le> length (fst v) \<and>
     file_at img fp s h it (of_nat (snd v)) X)"

definition blocks :: "(u32 \<Rightarrow> u32 set) \<Rightarrow> (u32 \<rightharpoonup> 'v) \<Rightarrow> u32 set" where
  "blocks own F = \<Union> (own ` dom F)"

text \<open>Every open file owns the blocks \<open>own h\<close>, and no two of them share one.\<close>

definition owning ::
  "'d ports \<Rightarrow> (nat \<Rightarrow> u8) \<Rightarrow> nat \<Rightarrow> ('d \<Rightarrow> bool) \<Rightarrow> fat_private \<Rightarrow> (u32 \<Rightarrow> nat option) \<Rightarrow> 'd kst \<Rightarrow> (u32 \<Rightarrow> u32 set) \<Rightarrow>
   'd kst \<Rightarrow> (u32 \<rightharpoonup> u8 list \<times> nat) \<Rightarrow> bool" where
  "owning P img cap idle fp B s0 own s F \<longleftrightarrow> heap_ok s0 B \<and> mounted P img cap idle fp s \<and> finite (dom F) \<and>
     heap_ok s (with_blocks B (blocks own F)) \<and> evolved s0 (blocks own F) s \<and> (\<forall>a \<in> blocks own F. B a = None) \<and>
     (\<forall>h \<in> dom F. \<forall>k \<in> dom F. h \<noteq> k \<longrightarrow> own h \<inter> own k = {}) \<and>
     (\<forall>h v. F h = Some v \<longrightarrow> open_file img fp cap s h v (own h))"

definition fat_table ::
  "'d ports \<Rightarrow> (nat \<Rightarrow> u8) \<Rightarrow> nat \<Rightarrow> ('d \<Rightarrow> bool) \<Rightarrow> fat_private \<Rightarrow> (u32 \<Rightarrow> nat option) \<Rightarrow> fat_directory_item list \<Rightarrow>
   (u32 \<rightharpoonup> u8 list \<times> u8 list list) \<Rightarrow> nat \<Rightarrow> 'd kst \<Rightarrow> 'd kst \<Rightarrow> (u32 \<rightharpoonup> u8 list \<times> nat) \<Rightarrow> bool" where
  "fat_table P img cap idle fp B items names room s0 s F \<longleftrightarrow> volume_in P img cap idle fp B items names s0 \<and>
     3 * room + 4 \<le> free_count (ks_heap s0) \<and> (\<exists>own. owning P img cap idle fp B s0 own s F)"

lemma file_at_cong:
  assumes "file_at img fp s d it pos A" "\<forall>a \<in> A. ks_objs t a = ks_objs s a"
  shows "file_at img fp t d it pos A"
proof -
  obtain f C where C: "d \<noteq> 0" "\<not> is_dir it" "A = insert d C" "d \<notin> C"
    "ks_objs s d = Some (OFatFile \<lparr>ff_item = f, ff_pos = pos\<rparr>)" "item_at img fp s f it C"
    using assms(1) by (auto simp: file_at_def)
  have "item_at img fp t f it C" by (rule item_at_cong [OF C(6)]) (use assms(2) C(3) in auto)
  then show ?thesis using C assms(2) unfolding file_at_def by auto
qed

lemma file_at_card: "file_at img fp s d it pos A \<Longrightarrow> d \<in> A \<and> finite A \<and> card A = 3"
  by (auto simp: file_at_def item_at_def card_insert_if split: if_splits)

text \<open>One file is opened, used or closed; the others stay what they are.\<close>

lemma owning_change:
  assumes own: "owning P img cap idle fp B s0 own s F" and m: "mounted P img cap idle fp t"
    and e: "evolved s (X \<union> A) t" and X: "X = (if h \<in> dom F then own h else {})"
    and t: "heap_ok t (with_blocks (with_blocks B (blocks own (F(h := None)))) A)"
    and A: "\<forall>a \<in> A. with_blocks B (blocks own (F(h := None))) a = None"
    and v: "v = None \<and> A = {} \<or> (\<exists>w. v = Some w \<and> open_file img fp cap t h w A)"
  shows "owning P img cap idle fp B s0 (own(h := A)) t (F(h := v))"
proof -
  note o = own [unfolded owning_def]
  let ?O = "blocks own (F(h := None))"
  have bl: "blocks (own(h := A)) (F(h := v)) = ?O \<union> A" using v by (auto simp: blocks_def split: if_splits)
  have old: "blocks own F = X \<union> ?O" unfolding X by (auto simp: blocks_def split: if_splits)
  have A': "A \<inter> ?O = {}" "\<forall>a \<in> A. B a = None" using A by (auto simp: with_blocks_None)
  have heap: "heap_ok t (with_blocks B (?O \<union> A))"
  proof -
    have "with_blocks (with_blocks B ?O) A = with_blocks B (?O \<union> A)" by (auto simp: with_blocks_def fun_eq_iff)
    then show ?thesis using t by simp
  qed
  have "evolved s0 (X \<union> (?O \<union> A)) t"
    by (rule evolved_mono [OF evolved_trans [of s0 "blocks own F", OF _ e]]) (use o old in auto)
  then have ev: "evolved s0 (?O \<union> A) t"
    by (rule evolved_freed) (use o old heap in auto)
  have others: "open_file img fp cap t k w (own k)" if k: "k \<noteq> h" "F k = Some w" for k w
  proof -
    obtain it where it: "file_ok img fp cap it" "fst w = file_data img fp it" "snd w \<le> length (fst w)"
      "file_at img fp s k it (of_nat (snd w)) (own k)"
      using o k(2) unfolding open_file_def by blast
    have "own k \<subseteq> ?O" using k by (auto simp: blocks_def)
    moreover have "own k \<inter> X = {}" using o k unfolding X by (auto split: if_splits)
    ultimately have out: "a \<notin> X \<union> A" if "a \<in> own k" for a using that A'(1) by blast
    have "ks_objs t a = ks_objs s a" if a: "a \<in> own k" for a
    proof -
      obtain x where "ks_objs s a = Some x" "\<forall>q. x \<noteq> OStream q" using file_at_items [OF it(4) a] by blast
      then show ?thesis using evolved_objs [OF e out [OF a]] by simp
    qed
    then have "file_at img fp t k it (of_nat (snd w)) (own k)" by (intro file_at_cong [OF it(4)]) blast
    then show ?thesis using it(1-3) unfolding open_file_def by blast
  qed
  have "(own(h := A)) k \<inter> (own(h := A)) l = {}" if "k \<in> dom (F(h := v))" "l \<in> dom (F(h := v))" "k \<noteq> l" for k l
  proof -
    have sub: "own j \<subseteq> ?O" "j \<in> dom F" if "j \<noteq> h" "j \<in> dom (F(h := v))" for j
      using that by (auto simp: blocks_def split: if_splits)
    show ?thesis
    proof (cases "k = h \<or> l = h")
      case True
      then show ?thesis using that A'(1) sub(1) [of k] sub(1) [of l] by auto
    next
      case False
      then show ?thesis using that o sub(2) [of k] sub(2) [of l] by simp
    qed
  qed
  moreover have "open_file img fp cap t k w ((own(h := A)) k)" if "(F(h := v)) k = Some w" for k w
    using that v others [of k w] by (cases "k = h") auto
  moreover have "finite (dom (F(h := v)))" using o by simp
  ultimately show ?thesis
    using o m heap ev A' unfolding owning_def bl by (auto simp: old)
qed

lemma owning_finite:
  assumes "owning P img cap idle fp B s0 own s F"
  shows "finite (blocks own F)" "card (blocks own F) = 3 * card (dom F)"
    "free_count (ks_heap s0) = free_count (ks_heap s) + card (blocks own F)"
proof -
  note o = assms [unfolded owning_def]
  have f: "finite (own h) \<and> card (own h) = 3" if "h \<in> dom F" for h
    using o that file_at_card unfolding open_file_def by fastforce
  show fin: "finite (blocks own F)" using o f by (auto simp: blocks_def)
  have "card (blocks own F) = (\<Sum>h\<in>dom F. card (own h))"
    unfolding blocks_def by (rule card_UN_disjoint) (use o f in auto)
  also have "\<dots> = (\<Sum>h\<in>dom F. 3)" by (rule sum.cong) (use f in auto)
  finally show "card (blocks own F) = 3 * card (dom F)" by simp
  show "free_count (ks_heap s0) = free_count (ks_heap s) + card (blocks own F)"
    by (rule free_count_blocks [OF fin]) (use o evolved_frame in auto)
qed

lemma owning_start:
  "volume_in P img cap idle fp B items names s \<Longrightarrow> owning P img cap idle fp B s own s Map.empty"
  using evolved_refl by (auto simp: volume_in_def owning_def blocks_def)

text \<open>A file of the table is an open file beside the blocks of the others.\<close>

lemma owning_file:
  assumes "owning P img cap idle fp B s0 own s F" "F h = Some (bs, pos)" "B' = with_blocks B (blocks own (F(h := None)))"
  obtains it s1 where "fat_file P img cap idle fp B' s1 it h s bs pos" "file_at img fp s h it (of_nat pos) (own h)"
    "heap_ok s (with_blocks B' (own h))" "\<forall>a \<in> own h. B' a = None" "evolved s1 (own h) s" "heap_ok s1 B'"
proof -
  note o = assms(1) [unfolded owning_def]
  let ?O = "blocks own (F(h := None))"
  have bl: "blocks own F = own h \<union> ?O" using assms(2) by (auto simp: blocks_def)
  have dis: "own h \<inter> ?O = {}"
  proof -
    have "own h \<inter> own k = {}" if "k \<in> dom F - {h}" for k using o assms(2) that by blast
    then show ?thesis by (auto simp: blocks_def)
  qed
  obtain it where it: "file_ok img fp cap it" "bs = file_data img fp it" "pos \<le> length bs" "file_at img fp s h it (of_nat pos) (own h)"
    using o assms(2) unfolding open_file_def by fastforce
  have none: "\<forall>a \<in> own h. B' a = None" using o dis assms(3) bl by (auto simp: with_blocks_None)
  have "with_blocks B (blocks own F) = with_blocks B' (own h)"
    unfolding bl assms(3) by (auto simp: with_blocks_def fun_eq_iff)
  then have heap: "heap_ok s (with_blocks B' (own h))" using o by simp
  obtain s1 where s1: "heap_ok s1 B'" "grown s (own h) s1" by (rule close_frees [OF it(4) heap none])
  have ev: "evolved s1 (own h) s" by (rule evolved_sym [OF grown_evolved [OF s1(2)]])
  then have "fat_file P img cap idle fp B' s1 it h s bs pos"
    unfolding fat_file_def using o it s1(1) heap none by (intro conjI exI [of _ "own h"]) simp_all
  then show thesis using it(4) heap none ev s1(1) by (rule that)
qed

text \<open>The laws of the contract: using a file, closing it, and opening another.\<close>

lemma table_file:
  assumes "fat_table P img cap idle fp B items names room s0 s (G(h \<mapsto> (bs, pos)))"
  obtains B' s1 it where "fat_file P img cap idle fp B' s1 it h s bs pos"
    "\<And>t pos'. fat_file P img cap idle fp B' s1 it h t bs pos' \<Longrightarrow>
       fat_table P img cap idle fp B items names room s0 t (G(h \<mapsto> (bs, pos')))"
proof -
  let ?F = "G(h \<mapsto> (bs, pos))" and ?B = "\<lambda>own. with_blocks B (blocks own (G(h := None)))"
  obtain own where own: "owning P img cap idle fp B s0 own s ?F" using assms by (auto simp: fat_table_def)
  obtain it s1 where f: "fat_file P img cap idle fp (?B own) s1 it h s bs pos" "evolved s1 (own h) s"
    by (rule owning_file [OF own, of h bs pos "?B own"]) auto
  have "fat_table P img cap idle fp B items names room s0 t (G(h \<mapsto> (bs, pos')))"
    if t: "fat_file P img cap idle fp (?B own) s1 it h t bs pos'" for t pos'
  proof -
    obtain A where A: "file_at img fp t h it (of_nat pos') A" "heap_ok t (with_blocks (?B own) A)" "\<forall>a \<in> A. ?B own a = None"
      "evolved s1 A t" and m: "mounted P img cap idle fp t" "file_ok img fp cap it" "bs = file_data img fp it" "pos' \<le> length bs"
      using t unfolding fat_file_def by blast
    have "open_file img fp cap t h (bs, pos') A" unfolding open_file_def using A(1) m by auto
    then have "owning P img cap idle fp B s0 (own(h := A)) t (?F(h := Some (bs, pos')))"
      by (intro owning_change [OF own m(1) evolved_trans [OF evolved_sym [OF f(2)] A(4)]]) (use A(2,3) in auto)
    then show ?thesis using assms unfolding fat_table_def by auto
  qed
  with f(1) show thesis by (rule that)
qed

lemma table_close:
  assumes "fat_table P img cap idle fp B items names room s0 s F" "F h = Some v"
  shows "\<exists>t. fat16_close h s = Some (0, t) \<and> fat_table P img cap idle fp B items names room s0 t (F(h := None))"
proof -
  obtain bs pos where v: "v = (bs, pos)" by (cases v)
  obtain own where own: "owning P img cap idle fp B s0 own s F" using assms by (auto simp: fat_table_def)
  let ?B = "with_blocks B (blocks own (F(h := None)))"
  obtain it s1 where f: "file_at img fp s h it (of_nat pos) (own h)" "heap_ok s (with_blocks ?B (own h))"
    "\<forall>a \<in> own h. ?B a = None" "evolved s1 (own h) s" "heap_ok s1 ?B"
    by (rule owning_file [OF own assms(2) [unfolded v] refl])
  have "mounted P img cap idle fp s" using own by (simp add: owning_def)
  then obtain t where t: "fat16_close h s = Some (0, t)" "heap_ok t ?B" "evolved s1 {} t" "mounted P img cap idle fp t"
    using close_ok [OF f] by blast
  have "owning P img cap idle fp B s0 (own(h := {})) t (F(h := None))"
    by (rule owning_change [OF own t(4) evolved_trans [OF evolved_sym [OF f(4)] t(3)]]) (use assms(2) t(2) in auto)
  then show ?thesis using t(1) assms(1) unfolding fat_table_def by blast
qed

lemma table_open:
  assumes "fat_table P img cap idle fp B items names room s0 s F" "card (dom F) < room" "names p = Some (c, cs)"
  shows "case fat_dir img fp items names p of
      Some (Inr bs) \<Rightarrow> \<exists>h t. open_path P p s = Some (Inr h, t) \<and> F h = None \<and>
        fat_table P img cap idle fp B items names room s0 t (F(h \<mapsto> (bs, 0)))
    | Some (Inl e) \<Rightarrow> \<exists>t. open_path P p s = Some (Inl e, t) \<and> fat_table P img cap idle fp B items names room s0 t F
    | None \<Rightarrow> True"
proof -
  obtain own where own: "owning P img cap idle fp B s0 own s F" using assms by (auto simp: fat_table_def)
  note o = own [unfolded owning_def]
  let ?O = "blocks own F"
  let ?B = "with_blocks B ?O"
  have vol: "heap_ok s0 B" "has_root fp items s0" "loadable_path img fp cap items c cs" "walk_root img fp items c cs \<noteq> Null_Item"
    "\<And>it. lookup img fp items (c # cs) = Some it \<Longrightarrow> \<not> is_dir it \<Longrightarrow> file_ok img fp cap it"
    using assms(1,3) unfolding fat_table_def volume_in_def by blast+
  obtain ps where ps: "parts_at (ks_objs s0) p ps (c # cs)" using assms(1,3) unfolding fat_table_def volume_in_def by blast
  have out: "\<forall>a \<in> ?O. ks_objs s0 a = None" using o heap_ok_None [OF vol(1)] by blast
  have ev: "evolved s0 ?O s" "heap_ok s ?B" "mounted P img cap idle fp s" using o by simp_all
  have "ks_objs s0 (fd_item (fp_root_directory fp)) \<noteq> None" using vol(2) by (auto simp: has_root_def)
  then have root: "has_root fp items s" by (intro has_root_evolved [OF vol(2) ev(1)]) (use out in auto)
  have room: "7 \<le> free_count (ks_heap s)"
    using owning_finite(2,3) [OF own] assms(1,2) unfolding fat_table_def by linarith
  have parts: "parts_at (ks_objs s) p ps (c # cs)" by (rule parts_at_evolved [OF ps ev(1)]) (use parts_at_kind [OF ps] out in force)
  have w: "opened P img cap idle fp ?B s (walk_root img fp items c cs) (fat16_open P DISK p FILE_MODE_READ s)"
    by (rule opened_room [OF open_walk [OF ev(2,3) root parts vol(3)] room])
  have change: "fat_table P img cap idle fp B items names room s0 t (F(h := v))"
    if "h \<notin> dom F" "mounted P img cap idle fp t" "evolved s A t" "heap_ok t (with_blocks ?B A)" "\<forall>a \<in> A. ?B a = None"
      "v = None \<and> A = {} \<or> (\<exists>w. v = Some w \<and> open_file img fp cap t h w A)" for h v t A
  proof -
    have "F(h := None) = F" using that(1) by (auto simp: domIff)
    then have "owning P img cap idle fp B s0 (own(h := A)) t (F(h := v))"
      using that by (intro owning_change [OF own that(2), of "{}"]) simp_all
    then show ?thesis using assms(1) unfolding fat_table_def by blast
  qed
  have z: "0 \<notin> dom F" "F(0 := None) = F"
  proof -
    show "0 \<notin> dom F" using o unfolding open_file_def file_at_def by fastforce
    then show "F(0 := None) = F" by (auto simp: domIff)
  qed
  have same: "fat_table P img cap idle fp B items names room s0 t F"
    if "heap_ok t ?B" "evolved s {} t" "mounted P img cap idle fp t" for t
    using change [OF z(1) that(3,2), of None] that(1) z(2) by simp
  have errs: "ISERR (ERROR (- EIO))" "ERROR_I (ERROR (- EIO)) = - EIO" "ISERR (ERROR (- EINVARG))" "ERROR_I (ERROR (- EINVARG)) = - EINVARG"
    by code_simp+
  show ?thesis
  proof (cases "lookup img fp items (c # cs)")
    case None
    then have "walk_root img fp items c cs = Missing"
      using vol(4) walk_root_lookup [of img fp items c cs] by (cases "walk_root img fp items c cs") auto
    then obtain t where "fat16_open P DISK p FILE_MODE_READ s = Some (ERROR (- EIO), t)" "heap_ok t ?B" "evolved s {} t"
      "mounted P img cap idle fp t"
      using w by (auto simp: opened_def)
    then show ?thesis using same [of t] None assms(3) errs by (auto simp: fat_dir_def open_path_def)
  next
    case (Some it)
    then have found: "walk_root img fp items c cs = Found it" by (simp only: walk_root_lookup)
    show ?thesis
    proof (cases "is_dir it")
      case True
      then obtain t where "fat16_open P DISK p FILE_MODE_READ s = Some (ERROR (- EINVARG), t)" "heap_ok t ?B" "evolved s {} t"
        "mounted P img cap idle fp t"
        using w found by (auto simp: opened_def)
      then show ?thesis using same [of t] Some True assms(3) errs by (auto simp: fat_dir_def open_path_def)
    next
      case False
      then obtain d A t where t: "fat16_open P DISK p FILE_MODE_READ s = Some (d, t)" "\<not> ISERR d" "file_at img fp t d it 0 A"
        "heap_ok t (with_blocks ?B A)" "\<forall>a \<in> A. ?B a = None" "evolved s A t" "mounted P img cap idle fp t"
        using w found by (auto simp: opened_def)
      have "d \<in> A" using file_at_card [OF t(3)] by simp
      then have d: "d \<notin> dom F"
        using t(5) o file_at_card unfolding open_file_def blocks_def by (fastforce simp: with_blocks_None)
      have "open_file img fp cap t d (file_data img fp it, 0) A" unfolding open_file_def using t(3) vol(5) [OF Some False] by auto
      then have "fat_table P img cap idle fp B items names room s0 t (F(d \<mapsto> (file_data img fp it, 0)))"
        by (intro change [OF d t(7,6,4,5)]) simp
      moreover have "F d = None" using d by (cases "F d") auto
      ultimately show ?thesis using t(1,2) Some False assms(3) by (simp add: fat_dir_def open_path_def)
    qed
  qed
qed

interpretation files: file_table "fat_table P img cap idle fp B items names room s0" "read_buffer P" fat16_seek
    "open_path P" fat16_close "fat_dir img fp items names" room
  for P img cap idle fp B items names room s0
proof (rule file_table.intro)
  fix s F p e bs h v
  let ?T = "fat_table P img cap idle fp B items names room s0"
  assume T: "?T s F"
  show "\<exists>h t. open_path P p s = Some (Inr h, t) \<and> F h = None \<and> ?T t (F(h \<mapsto> (bs, 0)))"
    if "card (dom F) < room" "fat_dir img fp items names p = Some (Inr bs)"
    using that table_open [OF T that(1), of p] by (auto simp: fat_dir_def split: option.splits)
  show "\<exists>t. open_path P p s = Some (Inl e, t) \<and> ?T t F" if "card (dom F) < room" "fat_dir img fp items names p = Some (Inl e)"
    using that table_open [OF T that(1), of p] by (auto simp: fat_dir_def split: option.splits)
  show "\<exists>t. fat16_close h s = Some (0, t) \<and> ?T t (F(h := None))" if "F h = Some v"
    using table_close [OF T that] .
next
  fix G :: "u32 \<rightharpoonup> u8 list \<times> nat"
  let ?T = "\<lambda>s h bs pos. fat_table P img cap idle fp B items names room s0 s (G(h \<mapsto> (bs, pos)))"
  show "file_provider (\<lambda>h s bs pos. ?T s h bs pos) (read_buffer P) fat16_seek"
  proof
    fix h s bs pos
    assume T: "?T s h bs pos"
    obtain B' s1 it where f: "fat_file P img cap idle fp B' s1 it h s bs pos"
      "\<And>t pos'. fat_file P img cap idle fp B' s1 it h t bs pos' \<Longrightarrow> ?T t h bs pos'"
      using table_file [OF T] by blast
    show "pos \<le> length bs" by (rule fat.in_bounds [OF f(1)])
    fix z n :: u32 and k off m
    show "\<exists>t. read_buffer P h z n s = Some (int k, take (k * unat z) (drop pos bs), t) \<and> ?T t h bs (pos + k * unat z)"
      if "z \<noteq> 0" "n \<noteq> 0" "k = min (unat n) ((length bs - pos) div unat z)"
      using fat.rd_law [OF f(1) that] f(2) by blast
    show "\<exists>t. fat16_seek h off 0 s = Some (0, t) \<and> ?T t h bs (unat off)" if "unat off \<le> length bs"
      using fat.sk_set [OF f(1) that] f(2) by blast
    show "\<exists>t. fat16_seek h off 1 s = Some (0, t) \<and> ?T t h bs (pos + unat off)" if "pos + unat off \<le> length bs"
      using fat.sk_cur [OF f(1) that] f(2) by blast
    show "fat16_seek h off m s = Some (if m = 0 \<or> m = 1 then - EIO else if m = 2 then - EUNIMP else - EINVARG, s)"
      if "m = 0 \<and> length bs < unat off \<or> m = 1 \<and> length bs < pos + unat off \<or> m \<noteq> 0 \<and> m \<noteq> 1"
      by (rule fat.sk_refused [OF f(1) that])
  qed
qed

section \<open>Two files on the demo volume\<close>

text \<open>The demo paths with 20 free blocks: \<open>HELLO.TXT\<close>, and \<open>Y\<close>, which does not exist.\<close>

definition demo_wide :: "sim_disk kst" where
  "demo_wide = demo_paths
     \<lparr>ks_heap := \<lparr>hp_table = \<lparr>ht_entries = Some (replicate 13 0x41 @ replicate 20 0), ht_total = 33\<rparr>, hp_saddr = 0x01000000\<rparr>\<rparr>"

definition demo_names :: "u32 \<rightharpoonup> u8 list \<times> u8 list list" where
  "demo_names = [0x01005000 \<mapsto> (hello_name, []), 0x0100B000 \<mapsto> ([0x79], [])]"

definition demo_program :: "u32 command list" where
  "demo_program = [Open 0x01005000, Open 0x01005000, Use 0 (Read 1 5), Use 1 (Seek 100 0), Use 0 (Read 2 3), Use 1 (Read 64 5),
     Close 0, Open 0x0100B000, Open 0x01005000, Use 2 (Read 1 4), Use 1 (Read 1 9), Close 1, Close 2]"

lemma demo_wide_heap_ok: "heap_ok demo_wide demo_paths_owned" "free_count (ks_heap demo_wide) = 20"
proof -
  let ?h = "\<lambda>k. \<lparr>hp_table = \<lparr>ht_entries = Some (replicate k 0x41 @ replicate (33 - k) 0), ht_total = 33\<rparr>, hp_saddr = 0x01000000\<rparr>"
  have r: "heap_malloc (?h 0) 8 = Some (0x01000000, ?h 1)" "heap_malloc (?h 1) 8 = Some (0x01001000, ?h 2)"
    "heap_malloc (?h 2) 8 = Some (0x01002000, ?h 3)" "heap_malloc (?h 3) 8 = Some (0x01003000, ?h 4)"
    "heap_malloc (?h 4) 8 = Some (0x01004000, ?h 5)" "heap_malloc (?h 5) 8 = Some (0x01005000, ?h 6)"
    "heap_malloc (?h 6) 8 = Some (0x01006000, ?h 7)" "heap_malloc (?h 7) 8 = Some (0x01007000, ?h 8)"
    "heap_malloc (?h 8) 8 = Some (0x01008000, ?h 9)" "heap_malloc (?h 9) 8 = Some (0x01009000, ?h 10)"
    "heap_malloc (?h 10) 8 = Some (0x0100A000, ?h 11)" "heap_malloc (?h 11) 8 = Some (0x0100B000, ?h 12)"
    "heap_malloc (?h 12) 8 = Some (0x0100C000, ?h 13)"
    by code_simp+
  have "heap_owns (fresh_heap 0x01000000 33) Map.empty" by (rule fresh_heap_owns) (simp_all add: validate_alignment_def)
  then have "heap_owns (?h 0) Map.empty" by (simp add: fresh_heap_def)
  from owns_step [OF owns_step [OF owns_step [OF owns_step [OF owns_step [OF this r(1)] r(2)] r(3)] r(4)] r(5)]
  have "heap_owns (?h 5) demo_owned" by (simp add: demo_owned_def)
  from owns_step [OF owns_step [OF owns_step [OF owns_step [OF owns_step [OF owns_step [OF owns_step [OF owns_step
    [OF this r(6)] r(7)] r(8)] r(9)] r(10)] r(11)] r(12)] r(13)]
  have "heap_owns (ks_heap demo_wide) demo_paths_owned" by (simp add: demo_wide_def demo_paths_owned_def)
  moreover have "ks_objs demo_wide p = None \<longleftrightarrow> demo_paths_owned p = None" for p
    using heap_ok_None [OF demo_paths_heap_ok(1), of p] by (simp add: demo_wide_def)
  ultimately show "heap_ok demo_wide demo_paths_owned" using demo_paths_heap_ok(1) by (simp add: heap_ok_def)
  show "free_count (ks_heap demo_wide) = 20" by (simp add: demo_wide_def free_count_def)
qed

lemma demo_volume_in: "volume_in (sim_ports demo_img) demo_img 4000 sim_idle demo_fp demo_paths_owned demo_items demo_names demo_wide"
proof -
  have "mounted (sim_ports demo_img) demo_img 4000 sim_idle demo_fp demo_wide"
    by (rule mounted_cong [OF demo_paths_mounted]) (simp_all add: demo_wide_def stream_at_def)
  moreover have "has_root demo_fp demo_items demo_wide" using demo_has_root by (simp add: has_root_def demo_wide_def)
  moreover have "find (hit [0x79]) demo_items = None" by (rule demo_find)
  moreover have "parts_at (ks_objs demo_wide) 0x01005000 [(0x01005000, 0x01006000)] [hello_name]"
    "parts_at (ks_objs demo_wide) 0x0100B000 [(0x0100B000, 0x0100C000)] [[0x79]]"
    by (simp_all add: demo_wide_def demo_paths_def hello_name_def terminated_def)
  then have "(\<exists>ps. parts_at (ks_objs demo_wide) p ps (c # cs)) \<and> loadable_path demo_img demo_fp 4000 demo_items c cs \<and>
      walk_root demo_img demo_fp demo_items c cs \<noteq> Null_Item \<and>
      (\<forall>it. lookup demo_img demo_fp demo_items (c # cs) = Some it \<and> \<not> is_dir it \<longrightarrow> file_ok demo_img demo_fp 4000 it)"
    if "demo_names p = Some (c, cs)" for p c cs
  proof -
    have "p = 0x01005000 \<and> c = hello_name \<and> cs = [] \<or> p = 0x0100B000 \<and> c = [0x79] \<and> cs = []"
      using that by (auto simp: demo_names_def split: if_splits)
    then show ?thesis
      using \<open>parts_at _ 0x01005000 _ _\<close> \<open>parts_at _ 0x0100B000 _ _\<close> demo_walk(1,3) demo_file demo_find(5)
      by (elim disjE conjE) (auto simp: loadable_path_def walk_root_def simp del: parts_at.simps)
  qed
  ultimately show ?thesis using demo_wide_heap_ok(1) unfolding volume_in_def by blast
qed

section \<open>Properties\<close>

text \<open>
  C3. Any number of files can be open on a mounted volume. For every program of opens,
  reads, seeks and closes, in any order and interleaving, each call returns what it would
  return on a byte sequence with a position of its own: files do not disturb one another,
  nor two descriptors of the same file. Opening a name that denotes nothing or a directory
  returns the error code. In the end exactly three blocks remain for each open file.
\<close>

theorem open_files_independent:
  assumes "volume_in P img cap idle fp B items names s" "3 * room + 4 \<le> free_count (ks_heap s)"
    "program_spec (fat_dir img fp items names) room cs [] = Some (rs, A)"
  shows "\<exists>hs t X. run_program (open_path P) (read_buffer P) fat16_seek fat16_close cs [] s = Some (rs, hs, t) \<and>
    heap_ok t (with_blocks B X) \<and> finite X \<and> card X = 3 * open_count A \<and> (\<forall>a \<in> X. B a = None) \<and> evolved s X t \<and>
    mounted P img cap idle fp t"
proof -
  have "fat_table P img cap idle fp B items names room s s Map.empty"
    using assms(1,2) owning_start unfolding fat_table_def by blast
  from files.program_refines [OF this numbered_Nil assms(3)]
  obtain hs F t where t: "run_program (open_path P) (read_buffer P) fat16_seek fat16_close cs [] s = Some (rs, hs, t)"
    "fat_table P img cap idle fp B items names room s t F" "numbered hs A F"
    by blast
  obtain own where own: "owning P img cap idle fp B s own t F" using t(2) by (auto simp: fat_table_def)
  show ?thesis
    using t(1) own owning_finite(1,2) [OF own] numbered_card [OF t(3)]
    by (intro exI [of _ hs] exI [of _ t] exI [of _ "blocks own F"]) (simp add: owning_def)
qed

theorem open_files_independent_witness:
  "\<exists>rs A. program_spec (fat_dir demo_img demo_fp demo_items demo_names) 2 demo_program [] = Some (rs, A) \<and> open_count A = 0 \<and>
    (\<exists>hs t X. run_program (open_path (sim_ports demo_img)) (read_buffer (sim_ports demo_img)) fat16_seek fat16_close
        demo_program [] demo_wide = Some (rs, hs, t) \<and>
      heap_ok t (with_blocks demo_paths_owned X) \<and> finite X \<and> card X = 3 * open_count A \<and>
      (\<forall>a \<in> X. demo_paths_owned a = None) \<and> evolved demo_wide X t \<and>
      mounted (sim_ports demo_img) demo_img 4000 sim_idle demo_fp t)"
proof -
  have "fat_dir demo_img demo_fp demo_items demo_names 0x01005000 =
      Some (Inr (file_data demo_img demo_fp (decode_item (slice demo_img 153088 32))))"
    "fat_dir demo_img demo_fp demo_items demo_names 0x0100B000 = Some (Inl (- EIO))"
    using demo_file(1) demo_find(3,5) by (simp_all add: fat_dir_def demo_names_def)
  then have "\<exists>rs A. program_spec (fat_dir demo_img demo_fp demo_items demo_names) 2 demo_program [] = Some (rs, A) \<and> open_count A = 0"
    by (simp add: demo_program_def open_count_def Let_def split_def del: file_op_spec.simps)
  then obtain rs A where p: "program_spec (fat_dir demo_img demo_fp demo_items demo_names) 2 demo_program [] = Some (rs, A)"
    "open_count A = 0"
    by blast
  have "3 * 2 + 4 \<le> free_count (ks_heap demo_wide)" by (simp add: demo_wide_heap_ok)
  from open_files_independent [OF demo_volume_in this p(1)] show ?thesis using p by blast
qed

end
