(* ===== verification/Spec2Isabelle.thy ===== *)
theory Spec2Isabelle
  imports Kernel_Main Preemption Open_Files
begin

text \<open>
  A verification development of SAMOS, a small 32-bit x86 kernel in C (\<open>src/src\<close>).

  \<^bold>\<open>The program and how its parts interact.\<close> \<open>kernel_main\<close> (\<open>kernel.c\<close>) clears the VGA
  terminal, sets up a heap of 25600 blocks (\<open>memory/heap\<close>), initialises the one ATA disk
  (\<open>disk/disk.c\<close>), loads an interrupt table (\<open>idt/idt.c\<close>), switches paging on
  (\<open>memory/paging\<close>) and opens, stats and closes a file. A file name is parsed into a list on
  the heap (\<open>fs/pparser.c\<close>); \<open>fs/file.c\<close> dispatches to the filesystem of the disk through a
  \<open>struct filesystem\<close>; \<open>fs/fat/fat16.c\<close> is the only one. FAT16 reads the disk through
  streams (\<open>disk/streamer.c\<close>), follows cluster chains in the allocation table, loads
  directories onto the heap and keeps open files there.

  \<^bold>\<open>Theories, in the order of imports.\<close>

  \<^item> \<open>Base\<close>: machine types, C's \<open>int\<close> as \<open>i32\<close> (32-bit two's complement), \<open>status.h\<close>,
    \<open>config.h\<close>, bounded buffers.
  \<^item> \<open>Memory_Ops\<close> (\<open>memory.c\<close>) and \<open>C_String\<close> (\<open>string.c\<close>): the byte routines. The locale
    \<open>bounded_compare\<close> is the contract that \<open>strncmp\<close> and \<open>istrncmp\<close> share; \<open>same_text\<close> is
    equality up to case, by the alphabet and not by the code's \<open>tolower\<close>.
  \<^item> \<open>Block_Heap\<close> (\<open>heap.c\<close>): the block table as bytes. It refines a map from addresses to
    block counts (\<open>heap_owns\<close>); the locale \<open>block_allocator\<close> is what the rest of the kernel
    relies on, and its interpretation \<open>kernel\<close> is the heap of the code.
  \<^item> \<open>Terminal\<close> (\<open>kernel.c\<close>, lines 15 to 74), \<open>Ata_Disk\<close> (\<open>disk.c\<close>; the ports are the
    parameter \<open>ports\<close>; \<open>ata_disk\<close> is the protocol of the task-file registers, \<open>ata_aborts\<close> what
    a drive does past its end, and \<open>drive_ports\<close> a device that does both), \<open>Fat16_Format\<close> (the structures and names of \<open>fat16.c\<close>).
  \<^item> \<open>Kernel_State\<close> (\<open>kheap.c\<close>): the record \<open>kst\<close> of the statics, with typed heap objects,
    and \<open>kmalloc\<close>, \<open>kzalloc\<close>, \<open>kfree\<close>. Memory without an object is bytes (\<open>ks_raw\<close>);
    \<open>kzalloc\<close> clears them with \<open>memset\<close>, and \<open>as_root\<close>, \<open>as_items\<close> and the like read the typed
    object off them. \<open>heap_ok s B\<close> is the invariant that the heap owns
    exactly the addresses that carry objects; \<open>grown\<close> bounds what an operation changes.
  \<^item> \<open>Disk_Streamer\<close> (\<open>streamer.c\<close>) and \<open>Path_Parser\<close> (\<open>pparser.c\<close>).
  \<^item> \<open>Fat16_Chain\<close> (lines 206 to 208 and 353 to 494 of \<open>fat16.c\<close>), \<open>Fat16_Mount\<close> (138 to 309),
    \<open>Fat16_Directory\<close> (341 to 351, 496 to 631), \<open>Fat16_File\<close> (633 to 786). \<open>mounted\<close> is the
    invariant of a mounted volume, \<open>contents\<close> what a chain holds, \<open>lookup\<close> what a path
    denotes, \<open>fat_file\<close> an open file.
  \<^item> \<open>File_Contract\<close>: the interface of \<open>file.h\<close> as the locales \<open>file_provider\<close> (reads and
    seeks on a byte sequence with a position) and its extension \<open>file_session\<close> (opening and
    closing). FAT16 is the interpretation \<open>fat\<close>, the descriptor layer the interpretation \<open>fd\<close>.
  \<^item> \<open>File_Table\<close> and \<open>Open_Files\<close>: several files open at a time. The locale \<open>file_table\<close> takes
    \<open>file_provider\<close> for each file beside all others; FAT16 is its interpretation \<open>files\<close>, with
    \<open>owning\<close> as the invariant that open files share no block.
  \<^item> \<open>File_Layer\<close> (\<open>file.c\<close>, and \<open>disk_search_and_init\<close> of \<open>disk.c\<close>).
  \<^item> \<open>Paging\<close> (\<open>paging.c\<close>): \<open>translate\<close> is the walk of the processor.
  \<^item> \<open>Interrupts\<close> (\<open>idt.c\<close>, and the stubs of \<open>idt.asm\<close> with the frame they return through):
    \<open>deliver\<close> is the processor's side, \<open>interrupted\<close> the step relation of a kernel that idles
    and takes interrupts. \<open>kprint\<close> is \<open>print\<close> with the kernel image in sight: a text whose
    cells (\<open>write_cells\<close>) reach 1 MB overwrites the kernel and has no result.
  \<^item> \<open>Volume_Session\<close>: mounting, path parser and file operations put together. \<open>volume\<close>,
    \<open>root_items\<close> and \<open>lookup\<close> say what a path denotes from the bytes of the disk alone.
  \<^item> \<open>Preemption\<close>: interrupts inside file operations. The locale \<open>disk_view\<close> is the contract under
    which a machine is as good as the disk in it; the machine that takes interrupts before
    port accesses is its interpretation \<open>irq\<close>.
  \<^item> \<open>Kernel_Main\<close> (\<open>kernel.c\<close>, lines 76 to 120): the boot and its composition of all parts.

  \<^bold>\<open>Reading the model.\<close> A function of the code keeps its name. A function that can fail to
  return, by a null or wild access, a division by zero or an endless loop, has an \<open>option\<close>
  result, with None for those runs; status codes are ordinary values. State is passed
  explicitly. A loop with a known number of rounds recurses on that number; a loop without
  one is a \<open>partial_function (option)\<close>, and the theorems say when it returns. A buffer that the
  code fills through a pointer is returned. \<open>Let\<close> and \<open>do\<close> follow the order of the code.

  \<^bold>\<open>What the lemmas show.\<close> The heap refines its map, first fit, with exact failure conditions;
  every allocation followed by its free restores the state. A read of a chain returns the
  bytes of the chain whatever sector and cluster ends it crosses; the counting loop ends on
  every directory with a blank entry. Mounting and refusing a disk account for every
  block. Looking up a path agrees with the directories on the disk. An open file behaves
  as a byte sequence for every sequence of reads and seeks, on FAT16's operations and
  through descriptors; from the disk's bytes to the bytes read, mounting, path, directories,
  chain and file fit together and give back all memory, also when a key or the timer
  interrupts the driver before any of its port accesses. Programs that open, use and close
  many files in any order see a byte sequence per descriptor. \<open>starved\<close>, \<open>open_starved\<close>,
  \<open>fat16_resolve_exhausted\<close> and \<open>pathparser_parse_returns_iff\<close> say what happens when memory runs out at any point: which error
  is returned with everything given back, and where the code goes on through a null
  pointer. Page tables map every address to itself and \<open>paging_set\<close> moves exactly one page.
  From every reachable state an interrupt comes back exactly if it is not a division error,
  has no error code and is not a key with the cursor below row 1842; a disk read comes back
  exactly if its sectors are on the drive. The
  boot reaches the point where interrupts are on. The theorems also pin down what does not
  work: \<open>fopen\<close> never opens a file and \<open>kernel_main\<close> never reaches its idle loop, among others
  listed with their lemmas.

  \<^bold>\<open>Bounds.\<close> Heap addresses lie below \<open>0x80000000\<close>, as the code's heap does, so that no valid
  pointer is an error pointer. Volumes have less than 4194304 sectors, which keeps byte
  positions in an \<open>int\<close>; directories have at most 128 entries, which fit the one block the
  lemmas count; file sizes are below 2 GB. Hypotheses on free blocks give the room that the
  operations need: six for a lookup (two items of three blocks), seven to open a file, of
  which three stay in use, six to mount (one is given back), two for each component of a
  path and one for its root. Polls and counting loops carry no fuel: they are partial
  functions, and the theorems show that they return. A line printed in one of the rows 0 to
  1842 stays below the kernel image at 1 MB, which starts in row 1843; interrupts inside
  file operations are bounded by the rows that are left, one for each key.

  \<^bold>\<open>Not modelled.\<close> The boot sector, the kernel entry and the port and register
  instructions are assembly: they appear as the parameter \<open>ports\<close>, the records
  \<open>idt_symbols\<close> and \<open>mmu_regs\<close> and the functions \<open>deliver\<close> and \<open>translate\<close>. Heap objects are
  typed, so that code that would read one object as another has no result; what a freed
  object leaves in memory is not tracked, since every allocation of the code is cleared. An
  interrupt is taken before a port access of the file code, in place of any instruction
  since the access before it: the handlers touch ports that the file code does not use and,
  as long as the terminal stays below the kernel image, none of its memory. Prototypes and include guards of the header files declare nothing more. The name buffer of \<open>fat16_fs\<close> is written but never read by
  the code and is not part of the state.
\<close>

end
